(* ===== verification/KLRM_Prelude.thy ===== *)
theory KLRM_Prelude
  imports Main "HOL-Library.Word"
begin

unbundle bit_operations_syntax

text \<open>
  The vocabulary every component of the development shares: the outcome of running a piece of
  kernel code (a value, or the fault that stops it), C strings in a buffer, the reader-writer
  locks of the kernel, and the lemmas about them that the component theories use as simplification
  and introduction rules.

  The kernel's own primitives for strings, lists and locks play the part of the C library here and
  are modelled as the source uses them. Everything else the module calls in the kernel (path
  resolution, the slab allocator, the hash transform, the block device) is a parameter of the
  definitions that call it.
\<close>

section \<open>Outcomes\<close>

text \<open>
  A run of kernel code that goes wrong has no result: it waits for a lock that its own thread
  keeps (\<open>Blocked\<close>), follows a ring of pointers that never comes back to its head
  (\<open>Runaway\<close>), dereferences memory that is not there or not initialised
  (\<open>Bad_Access\<close>), uses an object after freeing it (\<open>Use_After_Free\<close>), or divides by zero.
\<close>

datatype fault = Blocked | Runaway | Bad_Access | Use_After_Free | Div_By_Zero

type_synonym 'a outcome = "fault + 'a"

fun bind_out :: "'a outcome \<Rightarrow> ('a \<Rightarrow> 'b outcome) \<Rightarrow> 'b outcome" where
  "bind_out (Inl f) k = Inl f"
| "bind_out (Inr x) k = k x"

named_theorems outcome_rules \<open>equations that take an outcome apart\<close>
named_theorems lock_rules \<open>what the operations of the locks do\<close>

lemma bind_out_Inr_iff [outcome_rules]:
  "bind_out m k = Inr y \<longleftrightarrow> (\<exists>x. m = Inr x \<and> k x = Inr y)"
  by (cases m) auto

lemma bind_out_Inl_iff [outcome_rules]:
  "bind_out m k = Inl f \<longleftrightarrow> m = Inl f \<or> (\<exists>x. m = Inr x \<and> k x = Inl f)"
  by (cases m) auto

lemma bind_out_cong [fundef_cong]:
  "m = n \<Longrightarrow> (\<And>x. n = Inr x \<Longrightarrow> k x = l x) \<Longrightarrow> bind_out m k = bind_out n l"
  by (cases n) auto

lemma bind_out_assoc:
  "bind_out (bind_out m k) l = bind_out m (\<lambda>x. bind_out (k x) l)"
  by (cases m) auto

section \<open>Error numbers\<close>

definition EIO :: int where "EIO = 5"
definition EBADF :: int where "EBADF = 9"
definition ENOMEM :: int where "ENOMEM = 12"
definition EACCES :: int where "EACCES = 13"
definition EBUSY :: int where "EBUSY = 16"
definition EINVAL :: int where "EINVAL = 22"
definition EOPNOTSUPP :: int where "EOPNOTSUPP = 95"

lemmas errnos = EIO_def EBADF_def ENOMEM_def EACCES_def EBUSY_def EINVAL_def EOPNOTSUPP_def

section \<open>C strings\<close>

text \<open>
  A buffer is the list of the bytes from a pointer to the end of the object it points into. The C
  string that starts there ends before the first NUL; a buffer without one makes every string
  function run past the object.
\<close>

abbreviation NUL :: char where
  "NUL \<equiv> CHR 0x00"

abbreviation SLASH :: char where
  "SLASH \<equiv> CHR ''/''"

definition c_str :: "char list \<Rightarrow> string" where
  "c_str b = takeWhile (\<lambda>c. c \<noteq> NUL) b"

definition strlen :: "char list \<Rightarrow> nat" where
  "strlen b = length (c_str b)"

definition terminated :: "char list \<Rightarrow> bool" where
  "terminated b = (NUL \<in> set b)"

text \<open>The C string at an offset into a buffer; a fault when it runs out of the buffer.\<close>

definition str_at :: "char list \<Rightarrow> nat \<Rightarrow> string outcome" where
  "str_at b i = (if terminated (drop i b) then Inr (c_str (drop i b)) else Inl Bad_Access)"

lemma c_str_no_NUL [simp]: "NUL \<notin> set (c_str b)"
  by (auto simp: c_str_def dest: set_takeWhileD)

lemma c_str_append_NUL [simp]: "NUL \<notin> set s \<Longrightarrow> c_str (s @ NUL # r) = s"
  by (induction s) (auto simp: c_str_def)

lemma c_str_id [simp]: "NUL \<notin> set s \<Longrightarrow> c_str s = s"
  by (induction s) (auto simp: c_str_def)

lemma terminated_split:
  assumes "terminated b"
  obtains r where "b = c_str b @ NUL # r"
proof -
  from assms obtain xs ys where b: "b = xs @ NUL # ys" and n: "NUL \<notin> set xs"
    by (auto simp: terminated_def dest: split_list_first)
  then have "c_str b = xs" by simp
  with b that show thesis by simp
qed

lemma terminated_append [simp]: "terminated (s @ NUL # r)"
  by (simp add: terminated_def)

lemma strlen_append_NUL [simp]: "NUL \<notin> set s \<Longrightarrow> strlen (s @ NUL # r) = length s"
  by (simp add: strlen_def)

section \<open>Reader-writer locks\<close>

text \<open>
  The \<open>rwlock_t\<close> and \<open>struct rw_semaphore\<close> of the kernel: any number of readers or
  one writer. An acquisition that cannot be granted waits; in a run of one thread on its own, a
  lock that is not free when it is asked for stays so, and the outcome is \<open>Blocked\<close>.
\<close>

record rwlock =
  rw_readers :: nat
  rw_writer :: bool

definition rw_init :: rwlock where
  "rw_init = \<lparr>rw_readers = 0, rw_writer = False\<rparr>"

definition down_read :: "rwlock \<Rightarrow> rwlock outcome" where
  "down_read l = (if rw_writer l then Inl Blocked else Inr (l\<lparr>rw_readers := Suc (rw_readers l)\<rparr>))"

definition up_read :: "rwlock \<Rightarrow> rwlock" where
  "up_read l = l\<lparr>rw_readers := rw_readers l - 1\<rparr>"

definition down_write :: "rwlock \<Rightarrow> rwlock outcome" where
  "down_write l =
     (if rw_writer l \<or> 0 < rw_readers l then Inl Blocked else Inr (l\<lparr>rw_writer := True\<rparr>))"

definition up_write :: "rwlock \<Rightarrow> rwlock" where
  "up_write l = l\<lparr>rw_writer := False\<rparr>"

definition rw_free :: "rwlock \<Rightarrow> bool" where
  "rw_free l = (\<not> rw_writer l \<and> rw_readers l = 0)"

lemma down_read_Inr [lock_rules]:
  "down_read l = Inr m \<longleftrightarrow> \<not> rw_writer l \<and> m = l\<lparr>rw_readers := Suc (rw_readers l)\<rparr>"
  by (auto simp: down_read_def)

lemma down_write_Inr [lock_rules]:
  "down_write l = Inr m \<longleftrightarrow> rw_free l \<and> m = l\<lparr>rw_writer := True\<rparr>"
  by (auto simp: down_write_def rw_free_def)

lemma down_read_Inl [lock_rules]: "down_read l = Inl f \<longleftrightarrow> rw_writer l \<and> f = Blocked"
  by (auto simp: down_read_def)

lemma down_write_Inl [lock_rules]: "down_write l = Inl f \<longleftrightarrow> \<not> rw_free l \<and> f = Blocked"
  by (auto simp: down_write_def rw_free_def)

lemma up_read_down_read [lock_rules]: "down_read l = Inr m \<Longrightarrow> up_read m = l"
  by (auto simp: down_read_Inr up_read_def)

lemma up_write_down_write [lock_rules]: "down_write l = Inr m \<Longrightarrow> up_write m = l"
  by (auto simp: down_write_Inr up_write_def rw_free_def)

lemma rw_free_init [simp]: "rw_free rw_init"
  by (simp add: rw_free_def rw_init_def)

lemma rw_free_iff_init: "rw_free l \<longleftrightarrow> l = rw_init"
  by (cases l) (auto simp: rw_free_def rw_init_def)

end
