(* ===== verification/State_Machine.thy ===== *)
theory State_Machine
  imports KLRM_Prelude
begin

text \<open>
  The two toggles of the reference monitor (\<open>state_machine/state_machine.c\<close>): \<open>rec\<close>
  says whether the monitor accepts reconfiguration requests, \<open>set\<close> whether it is switched on.
  Each toggle is guarded by a \<open>rw_semaphore\<close>: a client that enters a section while the toggle
  is on keeps the semaphore for reading until it leaves, and a change of the toggle takes it for
  writing.

  The first part translates the functions as a thread runs them on its own. The second part breaks
  them into the steps between which another thread may run, and proves what holds whatever the
  interleaving: the toggle cannot change under a thread inside the section.
\<close>

section \<open>The functions of the state machine\<close>

datatype TOGGLE = ON | OFF

record state_machine =
  rec_sem :: rwlock
  set_sem :: rwlock
  rec_toggle :: TOGGLE
  set_toggle :: TOGGLE

text \<open>The toggles are zero-initialised globals, and \<open>ON\<close> is the first value of the enum.\<close>

definition bss_state_machine :: "rwlock \<Rightarrow> rwlock \<Rightarrow> state_machine" where
  "bss_state_machine junk1 junk2 =
     \<lparr>rec_sem = junk1, set_sem = junk2, rec_toggle = ON, set_toggle = ON\<rparr>"

definition setup_state_machine :: "state_machine \<Rightarrow> state_machine" where
  "setup_state_machine s = s\<lparr>rec_sem := rw_init, set_sem := rw_init\<rparr>"

definition cleanup_state_machine :: "state_machine \<Rightarrow> state_machine" where
  "cleanup_state_machine s = s"

definition state_machine_enter_on :: "state_machine \<Rightarrow> (int \<times> state_machine) outcome" where
  "state_machine_enter_on s =
     bind_out (down_read (set_sem s)) (\<lambda>l.
       let s = s\<lparr>set_sem := l\<rparr> in
       if set_toggle s = ON then Inr (1, s)
       else Inr (0, s\<lparr>set_sem := up_read (set_sem s)\<rparr>))"

definition state_machine_exit :: "state_machine \<Rightarrow> state_machine" where
  "state_machine_exit s = s\<lparr>set_sem := up_read (set_sem s)\<rparr>"

definition state_machine_enter_rec_on :: "state_machine \<Rightarrow> (int \<times> state_machine) outcome" where
  "state_machine_enter_rec_on s =
     bind_out (down_read (rec_sem s)) (\<lambda>l.
       let s = s\<lparr>rec_sem := l\<rparr> in
       if rec_toggle s = ON then Inr (1, s)
       else Inr (0, s\<lparr>rec_sem := up_read (rec_sem s)\<rparr>))"

definition state_machine_rec_exit :: "state_machine \<Rightarrow> state_machine" where
  "state_machine_rec_exit s = s\<lparr>rec_sem := up_read (rec_sem s)\<rparr>"

definition set_machine_rec_on :: "state_machine \<Rightarrow> state_machine outcome" where
  "set_machine_rec_on s =
     bind_out (down_write (rec_sem s)) (\<lambda>l.
       let s = s\<lparr>rec_sem := l\<rparr>; s = s\<lparr>rec_toggle := ON\<rparr> in
       Inr (s\<lparr>rec_sem := up_write (rec_sem s)\<rparr>))"

definition set_machine_rec_off :: "state_machine \<Rightarrow> state_machine outcome" where
  "set_machine_rec_off s =
     bind_out (down_write (rec_sem s)) (\<lambda>l.
       let s = s\<lparr>rec_sem := l\<rparr>; s = s\<lparr>rec_toggle := OFF\<rparr> in
       Inr (s\<lparr>rec_sem := up_write (rec_sem s)\<rparr>))"

definition set_machine_on :: "state_machine \<Rightarrow> state_machine outcome" where
  "set_machine_on s =
     bind_out (down_write (set_sem s)) (\<lambda>l.
       let s = s\<lparr>set_sem := l\<rparr>; s = s\<lparr>set_toggle := ON\<rparr> in
       Inr (s\<lparr>set_sem := up_write (set_sem s)\<rparr>))"

definition set_machine_off :: "state_machine \<Rightarrow> state_machine outcome" where
  "set_machine_off s =
     bind_out (down_write (set_sem s)) (\<lambda>l.
       let s = s\<lparr>set_sem := l\<rparr>; s = s\<lparr>set_toggle := OFF\<rparr> in
       Inr (s\<lparr>set_sem := up_write (set_sem s)\<rparr>))"

section \<open>The contract of a guarded section\<close>

text \<open>
  What a client relies on: entering is granted exactly when the toggle is on, a refusal leaves no
  trace, leaving undoes entering, and the toggle can be changed exactly when nobody is inside.
\<close>

locale guarded_section =
  fixes enter :: "'s \<Rightarrow> (int \<times> 's) outcome"
    and leave :: "'s \<Rightarrow> 's"
    and turn_on :: "'s \<Rightarrow> 's outcome"
    and turn_off :: "'s \<Rightarrow> 's outcome"
    and lock :: "'s \<Rightarrow> rwlock"
    and toggle :: "'s \<Rightarrow> TOGGLE"
  assumes enter_Inr: "enter s = Inr (r, t) \<Longrightarrow>
      \<not> rw_writer (lock s) \<and> toggle t = toggle s \<and>
      (if toggle s = ON then r = 1 \<and> leave t = s \<and> rw_readers (lock t) = Suc (rw_readers (lock s))
       else r = 0 \<and> t = s)"
    and enter_Inl: "enter s = Inl f \<longleftrightarrow> rw_writer (lock s) \<and> f = Blocked"
    and turn_on_Inr: "turn_on s = Inr t \<Longrightarrow>
      rw_free (lock s) \<and> toggle t = ON \<and> lock t = lock s"
    and turn_on_Inl: "turn_on s = Inl f \<longleftrightarrow> \<not> rw_free (lock s) \<and> f = Blocked"
    and turn_off_Inr: "turn_off s = Inr t \<Longrightarrow>
      rw_free (lock s) \<and> toggle t = OFF \<and> lock t = lock s"
    and turn_off_Inl: "turn_off s = Inl f \<longleftrightarrow> \<not> rw_free (lock s) \<and> f = Blocked"
begin

lemma bracket: "enter s = Inr (1, t) \<Longrightarrow> leave t = s \<and> toggle s = ON"
  using enter_Inr [of s 1 t] by (auto split: if_splits)

lemma refused: "enter s = Inr (0, t) \<Longrightarrow> t = s \<and> toggle s \<noteq> ON"
  using enter_Inr [of s 0 t] by (auto split: if_splits)

lemma entered_or_refused: "enter s = Inr (r, t) \<Longrightarrow> r \<in> {0, 1}"
  using enter_Inr [of s r t] by (auto split: if_splits)

lemma inside_blocks_toggle:
  assumes "enter s = Inr (1, t)"
  shows "turn_on t = Inl Blocked \<and> turn_off t = Inl Blocked"
proof -
  from enter_Inr [OF assms] have "\<not> rw_free (lock t)"
    by (auto simp: rw_free_def split: if_splits)
  then show ?thesis by (simp add: turn_on_Inl turn_off_Inl)
qed

lemma off_refuses:
  assumes off: "turn_off s = Inr t"
  shows "enter t = Inr (0, t)"
proof -
  from turn_off_Inr [OF off] have "toggle t = OFF" and "\<not> rw_writer (lock t)"
    by (auto simp: rw_free_def)
  then have "\<forall>f. enter t \<noteq> Inl f" by (simp add: enter_Inl)
  then obtain r u where "enter t = Inr (r, u)" by (cases "enter t") auto
  with enter_Inr [OF this] \<open>toggle t = OFF\<close> show ?thesis by simp
qed

lemma on_admits:
  assumes on: "turn_on s = Inr t"
  shows "\<exists>u. enter t = Inr (1, u) \<and> leave u = t"
proof -
  from turn_on_Inr [OF on] have "toggle t = ON" and "\<not> rw_writer (lock t)"
    by (auto simp: rw_free_def)
  then have "\<forall>f. enter t \<noteq> Inl f" by (simp add: enter_Inl)
  then obtain r u where "enter t = Inr (r, u)" by (cases "enter t") auto
  with enter_Inr [OF this] \<open>toggle t = ON\<close> show ?thesis by simp
qed

end

lemmas state_machine_defs =
  state_machine_enter_on_def state_machine_exit_def state_machine_enter_rec_on_def
  state_machine_rec_exit_def set_machine_rec_on_def set_machine_rec_off_def
  set_machine_on_def set_machine_off_def

interpretation rec_section: guarded_section state_machine_enter_rec_on state_machine_rec_exit
  set_machine_rec_on set_machine_rec_off rec_sem rec_toggle
  by unfold_locales
    (auto simp: state_machine_defs outcome_rules lock_rules up_read_def up_write_def rw_free_def
      Let_def split: if_splits)

interpretation set_section: guarded_section state_machine_enter_on state_machine_exit
  set_machine_on set_machine_off set_sem set_toggle
  by unfold_locales
    (auto simp: state_machine_defs outcome_rules lock_rules up_read_def up_write_def rw_free_def
      Let_def split: if_splits)

section \<open>Threads that interleave\<close>

text \<open>
  Each function is several steps: taking the semaphore, looking at or storing the toggle, giving
  the semaphore back. A thread is idle, has the semaphore of one of the two gates for reading and
  is about to look at the toggle (\<open>Testing\<close>), is inside the section, or has the semaphore for
  writing before or after its store. A thread inside the section may also go away without
  leaving it, which the callers of \<open>state_machine_enter_rec_on\<close> do on one of their
  paths; \<open>lost\<close> counts these.
\<close>

datatype gate = REC | SET

datatype pc = Idle | Testing gate | Inside gate | Storing gate TOGGLE | Stored gate

record sm_threads =
  machine :: state_machine
  pcs :: "nat \<Rightarrow> pc"
  lost :: "gate \<Rightarrow> nat"

fun gate_sem :: "gate \<Rightarrow> state_machine \<Rightarrow> rwlock" where
  "gate_sem REC m = rec_sem m"
| "gate_sem SET m = set_sem m"

fun gate_toggle :: "gate \<Rightarrow> state_machine \<Rightarrow> TOGGLE" where
  "gate_toggle REC m = rec_toggle m"
| "gate_toggle SET m = set_toggle m"

fun put_sem :: "gate \<Rightarrow> rwlock \<Rightarrow> state_machine \<Rightarrow> state_machine" where
  "put_sem REC l m = m\<lparr>rec_sem := l\<rparr>"
| "put_sem SET l m = m\<lparr>set_sem := l\<rparr>"

fun put_toggle :: "gate \<Rightarrow> TOGGLE \<Rightarrow> state_machine \<Rightarrow> state_machine" where
  "put_toggle REC v m = m\<lparr>rec_toggle := v\<rparr>"
| "put_toggle SET v m = m\<lparr>set_toggle := v\<rparr>"

definition at_pc :: "nat \<Rightarrow> pc \<Rightarrow> state_machine \<Rightarrow> sm_threads \<Rightarrow> sm_threads" where
  "at_pc i p m s = s\<lparr>machine := m, pcs := (pcs s)(i := p)\<rparr>"

inductive sm_step :: "nat \<Rightarrow> sm_threads \<Rightarrow> sm_threads \<Rightarrow> bool" for n :: nat where
  reader_lock:
    "i < n \<Longrightarrow> pcs s i = Idle \<Longrightarrow> down_read (gate_sem g (machine s)) = Inr l \<Longrightarrow>
     sm_step n s (at_pc i (Testing g) (put_sem g l (machine s)) s)"
| reader_admit:
    "i < n \<Longrightarrow> pcs s i = Testing g \<Longrightarrow> gate_toggle g (machine s) = ON \<Longrightarrow>
     sm_step n s (at_pc i (Inside g) (machine s) s)"
| reader_refuse:
    "i < n \<Longrightarrow> pcs s i = Testing g \<Longrightarrow> gate_toggle g (machine s) \<noteq> ON \<Longrightarrow>
     sm_step n s (at_pc i Idle (put_sem g (up_read (gate_sem g (machine s))) (machine s)) s)"
| reader_leave:
    "i < n \<Longrightarrow> pcs s i = Inside g \<Longrightarrow>
     sm_step n s (at_pc i Idle (put_sem g (up_read (gate_sem g (machine s))) (machine s)) s)"
| reader_lose:
    "i < n \<Longrightarrow> pcs s i = Inside g \<Longrightarrow>
     sm_step n s (at_pc i Idle (machine s) (s\<lparr>lost := (lost s)(g := Suc (lost s g))\<rparr>))"
| writer_lock:
    "i < n \<Longrightarrow> pcs s i = Idle \<Longrightarrow> down_write (gate_sem g (machine s)) = Inr l \<Longrightarrow>
     sm_step n s (at_pc i (Storing g v) (put_sem g l (machine s)) s)"
| writer_store:
    "i < n \<Longrightarrow> pcs s i = Storing g v \<Longrightarrow>
     sm_step n s (at_pc i (Stored g) (put_toggle g v (machine s)) s)"
| writer_unlock:
    "i < n \<Longrightarrow> pcs s i = Stored g \<Longrightarrow>
     sm_step n s (at_pc i Idle (put_sem g (up_write (gate_sem g (machine s))) (machine s)) s)"

inductive_cases sm_stepE: "sm_step n s t"

definition sm_start :: "rwlock \<Rightarrow> rwlock \<Rightarrow> sm_threads" where
  "sm_start junk1 junk2 =
     \<lparr>machine = setup_state_machine (bss_state_machine junk1 junk2),
      pcs = (\<lambda>_. Idle), lost = (\<lambda>_. 0)\<rparr>"

inductive sm_reachable :: "nat \<Rightarrow> sm_threads \<Rightarrow> bool" for n :: nat where
  start: "sm_reachable n (sm_start junk1 junk2)"
| step: "sm_reachable n s \<Longrightarrow> sm_step n s t \<Longrightarrow> sm_reachable n t"

lemma gate_frame [simp]:
  "gate_sem g (put_sem h l m) = (if g = h then l else gate_sem g m)"
  "gate_sem g (put_toggle h v m) = gate_sem g m"
  "gate_toggle g (put_toggle h v m) = (if g = h then v else gate_toggle g m)"
  "gate_toggle g (put_sem h l m) = gate_toggle g m"
  by (cases g; cases h; simp)+

subsection \<open>The invariant\<close>

text \<open>
  The readers of a semaphore are the threads that test or are inside, and the lost ones; it has a
  writer exactly when a thread is at a writer's program point, and then that thread is alone.
\<close>

definition reading :: "gate \<Rightarrow> pc \<Rightarrow> bool" where
  "reading g p = (p = Testing g \<or> p = Inside g)"

definition writing :: "gate \<Rightarrow> pc \<Rightarrow> bool" where
  "writing g p = (p = Stored g \<or> (\<exists>v. p = Storing g v))"

definition readers :: "nat \<Rightarrow> gate \<Rightarrow> (nat \<Rightarrow> pc) \<Rightarrow> nat set" where
  "readers n g f = {i. i < n \<and> reading g (f i)}"

definition writers :: "nat \<Rightarrow> gate \<Rightarrow> (nat \<Rightarrow> pc) \<Rightarrow> nat set" where
  "writers n g f = {i. i < n \<and> writing g (f i)}"

definition gate_inv :: "nat \<Rightarrow> gate \<Rightarrow> sm_threads \<Rightarrow> bool" where
  "gate_inv n g s =
     (rw_readers (gate_sem g (machine s)) = card (readers n g (pcs s)) + lost s g \<and>
      card (writers n g (pcs s)) = of_bool (rw_writer (gate_sem g (machine s))) \<and>
      (rw_writer (gate_sem g (machine s)) \<longrightarrow> rw_readers (gate_sem g (machine s)) = 0) \<and>
      (\<forall>i. pcs s i = Inside g \<longrightarrow> i < n \<and> gate_toggle g (machine s) = ON) \<and>
      (0 < lost s g \<longrightarrow> gate_toggle g (machine s) = ON))"

lemma reading_simps [simp]:
  "reading g Idle = False" "reading g (Testing h) = (g = h)" "reading g (Inside h) = (g = h)"
  "reading g (Storing h v) = False" "reading g (Stored h) = False"
  by (auto simp: reading_def)

lemma writing_simps [simp]:
  "writing g Idle = False" "writing g (Testing h) = False" "writing g (Inside h) = False"
  "writing g (Storing h v) = (g = h)" "writing g (Stored h) = (g = h)"
  by (auto simp: writing_def)

lemma card_upd:
  fixes P :: "pc \<Rightarrow> bool" and n :: nat
  assumes "i < n"
  shows "card {j. j < n \<and> P ((f(i := p)) j)} + of_bool (P (f i)) =
    card {j. j < n \<and> P (f j)} + of_bool (P p)"
proof -
  let ?A = "{j. j < n \<and> j \<noteq> i \<and> P (f j)}"
  have eq: "{j. j < n \<and> P (h j)} = (if P (h i) then insert i {j. j < n \<and> j \<noteq> i \<and> P (h j)}
      else {j. j < n \<and> j \<noteq> i \<and> P (h j)})" for h
    using assms by auto
  have A: "{j. j < n \<and> j \<noteq> i \<and> P ((f(i := p)) j)} = ?A" by auto
  have ins: "card (insert i ?A) = Suc (card ?A)"
    by (rule card_insert_disjoint [OF finite_subset [OF _ finite_lessThan [of n]]]) auto
  show ?thesis unfolding eq [of f] eq [of "f(i := p)"] A by (simp add: ins)
qed

lemma card_readers_upd:
  "i < n \<Longrightarrow> card (readers n g (f(i := p))) + of_bool (reading g (f i)) =
    card (readers n g f) + of_bool (reading g p)"
  unfolding readers_def by (rule card_upd)

lemma card_writers_upd:
  "i < n \<Longrightarrow> card (writers n g (f(i := p))) + of_bool (writing g (f i)) =
    card (writers n g f) + of_bool (writing g p)"
  unfolding writers_def by (rule card_upd)

lemma card_readers_pos: "i < n \<Longrightarrow> reading g (f i) \<Longrightarrow> 0 < card (readers n g f)"
  by (auto simp: card_gt_0_iff readers_def)

lemma card_writers_pos: "i < n \<Longrightarrow> writing g (f i) \<Longrightarrow> 0 < card (writers n g f)"
  by (auto simp: card_gt_0_iff writers_def)

lemma gate_inv_start: "gate_inv n g (sm_start j1 j2)"
  by (cases g) (auto simp: gate_inv_def sm_start_def readers_def writers_def bss_state_machine_def
    setup_state_machine_def rw_init_def)

lemma gate_inv_move:
  assumes "gate_inv n g s" and "i < n" and "f = (pcs s)(i := p)"
  shows "card (readers n g f) + of_bool (reading g (pcs s i)) =
      rw_readers (gate_sem g (machine s)) - lost s g + of_bool (reading g p)"
    and "card (writers n g f) + of_bool (writing g (pcs s i)) =
      of_bool (rw_writer (gate_sem g (machine s))) + of_bool (writing g p)"
  using assms card_readers_upd [OF assms(2), of g "pcs s" p] card_writers_upd [OF assms(2), of g "pcs s" p]
  by (auto simp: gate_inv_def)

lemma gate_inv_at:
  assumes "gate_inv n g s" and "i < n"
  shows "reading g (pcs s i) \<Longrightarrow> lost s g < rw_readers (gate_sem g (machine s))"
    and "writing g (pcs s i) \<Longrightarrow> rw_writer (gate_sem g (machine s))"
  using assms
    card_readers_pos [OF assms(2), of g "pcs s"] card_writers_pos [OF assms(2), of g "pcs s"]
  by (auto simp: gate_inv_def)

lemma gate_inv_step:
  assumes st: "sm_step n s t" and inv: "gate_inv n g s"
  shows "gate_inv n g t"
  using st
proof (cases rule: sm_step.cases)
  case (reader_lock i h l)
  with inv show ?thesis using gate_inv_move [OF inv reader_lock(2) refl, of "Testing h"]
      gate_inv_at [OF inv reader_lock(2)]
    by (cases "g = h") (auto simp: gate_inv_def at_pc_def down_read_Inr)
next
  case (reader_admit i h)
  with inv show ?thesis using gate_inv_move [OF inv reader_admit(2) refl, of "Inside h"]
      gate_inv_at [OF inv reader_admit(2)]
    by (cases "g = h") (auto simp: gate_inv_def at_pc_def)
next
  case (reader_refuse i h)
  with inv show ?thesis using gate_inv_move [OF inv reader_refuse(2) refl, of Idle]
      gate_inv_at [OF inv reader_refuse(2)]
    by (cases "g = h") (auto simp: gate_inv_def at_pc_def up_read_def) 
next
  case (reader_leave i h)
  with inv show ?thesis using gate_inv_move [OF inv reader_leave(2) refl, of Idle]
      gate_inv_at [OF inv reader_leave(2)]
    by (cases "g = h") (auto simp: gate_inv_def at_pc_def up_read_def) 
next
  case (reader_lose i h)
  with inv show ?thesis using gate_inv_move [OF inv reader_lose(2) refl, of Idle]
      gate_inv_at [OF inv reader_lose(2)]
    by (cases "g = h") (auto simp: gate_inv_def at_pc_def) 
next
  case (writer_lock i h l v)
  with inv show ?thesis using gate_inv_move [OF inv writer_lock(2) refl, of "Storing h v"]
      gate_inv_at [OF inv writer_lock(2)]
    by (cases "g = h") (auto simp: gate_inv_def at_pc_def down_write_Inr rw_free_def) 
next
  case (writer_store i h v)
  with inv show ?thesis using gate_inv_move [OF inv writer_store(2) refl, of "Stored h"]
      gate_inv_at [OF inv writer_store(2)]
      card_readers_pos [of _ n g "pcs s"]
    by (cases "g = h") (force simp: gate_inv_def at_pc_def)+
next
  case (writer_unlock i h)
  with inv show ?thesis using gate_inv_move [OF inv writer_unlock(2) refl, of Idle]
      gate_inv_at [OF inv writer_unlock(2)]
    by (cases "g = h") (auto simp: gate_inv_def at_pc_def up_write_def) 
qed

lemma sm_reachable_inv: "sm_reachable n s \<Longrightarrow> gate_inv n g s"
  by (induction rule: sm_reachable.induct) (auto intro: gate_inv_start gate_inv_step)

subsection \<open>A lost reader\<close>

lemma lost_mono: "sm_step n s t \<Longrightarrow> lost s g \<le> lost t g"
  by (induction rule: sm_step.induct) (auto simp: at_pc_def)

lemma lost_mono_run: "(sm_step n)\<^sup>*\<^sup>* s t \<Longrightarrow> lost s g \<le> lost t g"
  by (induction rule: rtranclp_induct) (auto dest: lost_mono [where g = g])

lemma sm_reachable_run: "(sm_step n)\<^sup>*\<^sup>* s t \<Longrightarrow> sm_reachable n s \<Longrightarrow> sm_reachable n t"
  by (induction rule: rtranclp_induct) (auto intro: sm_reachable.step)

subsection \<open>The functions as runs\<close>

lemma at_pc_at_pc [simp]: "at_pc i p m (at_pc i q k s) = at_pc i p m s"
  by (simp add: at_pc_def)

lemma at_pc_simps [simp]:
  "machine (at_pc i p m s) = m" "pcs (at_pc i p m s) = (pcs s)(i := p)"
  "lost (at_pc i p m s) = lost s"
  by (simp_all add: at_pc_def)

lemma run2: "sm_step n s t \<Longrightarrow> sm_step n t u \<Longrightarrow> (sm_step n)\<^sup>*\<^sup>* s u"
  by (simp add: converse_rtranclp_into_rtranclp)

lemma run3: "sm_step n s t \<Longrightarrow> sm_step n t u \<Longrightarrow> sm_step n u v \<Longrightarrow> (sm_step n)\<^sup>*\<^sup>* s v"
  by (simp add: converse_rtranclp_into_rtranclp)

lemma enter_run:
  assumes i: "i < n" "pcs s i = Idle"
    and lock: "down_read (gate_sem g (machine s)) = Inr l"
  shows "(sm_step n)\<^sup>*\<^sup>* s
    (if gate_toggle g (machine s) = ON then at_pc i (Inside g) (put_sem g l (machine s)) s
     else at_pc i Idle (put_sem g (up_read l) (put_sem g l (machine s))) s)"
proof (cases "gate_toggle g (machine s) = ON")
  case True
  then show ?thesis
    using run2 [OF sm_step.reader_lock [OF i lock],
        of "at_pc i (Inside g) (put_sem g l (machine s)) s"]
      sm_step.reader_admit [OF i(1), of "at_pc i (Testing g) (put_sem g l (machine s)) s" g]
    by simp
next
  case False
  then show ?thesis
    using run2 [OF sm_step.reader_lock [OF i lock],
        of "at_pc i Idle (put_sem g (up_read l) (put_sem g l (machine s))) s"]
      sm_step.reader_refuse [OF i(1), of "at_pc i (Testing g) (put_sem g l (machine s)) s" g]
    by simp
qed

lemma toggle_run:
  assumes i: "i < n" "pcs s i = Idle"
    and lock: "down_write (gate_sem g (machine s)) = Inr l"
  shows "(sm_step n)\<^sup>*\<^sup>* s
    (at_pc i Idle (put_sem g (up_write l) (put_toggle g v (put_sem g l (machine s)))) s)"
  using run3 [OF sm_step.writer_lock [OF i lock, of v],
      of "at_pc i (Stored g) (put_toggle g v (put_sem g l (machine s))) s"]
    sm_step.writer_store [OF i(1), of "at_pc i (Storing g v) (put_sem g l (machine s)) s" g v]
    sm_step.writer_unlock [OF i(1),
      of "at_pc i (Stored g) (put_toggle g v (put_sem g l (machine s))) s" g]
  by simp

section \<open>Properties\<close>

text \<open>
  C20. whatever the interleaving, while a thread is inside the section a gate guards, the toggle
  of the gate is on, the semaphore has no writer and no other thread is about to change the
  toggle. A request that \<open>state_machine_enter_rec_on\<close> let in runs with reconfiguration on
  until it leaves.
\<close>

theorem section_runs_with_toggle_on:
  assumes "sm_reachable n s" and "pcs s i = Inside g"
  shows "gate_toggle g (machine s) = ON \<and> \<not> rw_writer (gate_sem g (machine s)) \<and>
    (\<forall>j. j < n \<longrightarrow> \<not> writing g (pcs s j))"
proof -
  from assms(1) have inv: "gate_inv n g s" by (rule sm_reachable_inv)
  with assms(2) have i: "i < n" and on: "gate_toggle g (machine s) = ON"
    by (auto simp: gate_inv_def)
  with gate_inv_at [OF inv i] assms(2) inv have w: "\<not> rw_writer (gate_sem g (machine s))"
    by (auto simp: gate_inv_def)
  with gate_inv_at [OF inv] have "\<forall>j. j < n \<longrightarrow> \<not> writing g (pcs s j)" by blast
  with on w show ?thesis by blast
qed

theorem section_runs_with_toggle_on_witness:
  "gate_toggle REC (machine (at_pc 0 (Inside REC)
      (put_sem REC (rw_init\<lparr>rw_readers := 1\<rparr>) (machine (sm_start rw_init rw_init)))
      (sm_start rw_init rw_init))) = ON"
proof -
  let ?s = "sm_start rw_init rw_init"
  let ?t = "at_pc 0 (Inside REC) (put_sem REC (rw_init\<lparr>rw_readers := 1\<rparr>) (machine ?s)) ?s"
  have l: "down_read (gate_sem REC (machine ?s)) = Inr (rw_init\<lparr>rw_readers := 1\<rparr>)"
    by (simp add: sm_start_def setup_state_machine_def bss_state_machine_def down_read_def
        rw_init_def)
  have on: "gate_toggle REC (machine ?s) = ON"
    by (simp add: sm_start_def setup_state_machine_def bss_state_machine_def)
  have "(sm_step 1)\<^sup>*\<^sup>* ?s ?t"
    using enter_run [of 0 1 ?s REC, OF _ _ l] on by (simp add: sm_start_def)
  then have r: "sm_reachable 1 ?t"
    by (rule sm_reachable_run) (rule sm_reachable.start)
  have p: "pcs ?t 0 = Inside REC" by simp
  from section_runs_with_toggle_on [OF r p] show ?thesis by simp
qed

text \<open>
  C21. a thread that goes away from inside the section without leaving it pins the toggle. In every
  later state the toggle is on, and no thread is ever granted the semaphore for writing again.
\<close>

theorem lost_reader_pins_toggle:
  assumes "sm_reachable n s" and "0 < lost s g" and "(sm_step n)\<^sup>*\<^sup>* s t"
  shows "gate_toggle g (machine t) = ON \<and> down_write (gate_sem g (machine t)) = Inl Blocked"
proof -
  from assms(3,1) have "gate_inv n g t"
    by (blast intro: sm_reachable_run sm_reachable_inv)
  moreover from assms(2) lost_mono_run [OF assms(3), of g] have "0 < lost t g" by simp
  ultimately show ?thesis by (auto simp: gate_inv_def down_write_def)
qed

theorem lost_reader_pins_toggle_witness:
  "\<exists>s. sm_reachable 1 s \<and> 0 < lost s REC \<and>
     down_write (gate_sem REC (machine s)) = Inl Blocked"
proof -
  let ?s = "sm_start rw_init rw_init"
  let ?t = "at_pc 0 (Inside REC) (put_sem REC (rw_init\<lparr>rw_readers := 1\<rparr>) (machine ?s)) ?s"
  let ?u = "at_pc 0 Idle (machine ?t) (?t\<lparr>lost := (lost ?t)(REC := Suc (lost ?t REC))\<rparr>)"
  have l: "down_read (gate_sem REC (machine ?s)) = Inr (rw_init\<lparr>rw_readers := 1\<rparr>)"
    by (simp add: sm_start_def setup_state_machine_def bss_state_machine_def down_read_def
        rw_init_def)
  have on: "gate_toggle REC (machine ?s) = ON"
    by (simp add: sm_start_def setup_state_machine_def bss_state_machine_def)
  have "(sm_step 1)\<^sup>*\<^sup>* ?s ?t"
    using enter_run [of 0 1 ?s REC, OF _ _ l] on by (simp add: sm_start_def)
  moreover have "sm_step 1 ?t ?u" by (rule sm_step.reader_lose) simp_all
  ultimately have "(sm_step 1)\<^sup>*\<^sup>* ?s ?u" by (rule rtranclp.rtrancl_into_rtrancl)
  then have r: "sm_reachable 1 ?u"
    by (rule sm_reachable_run) (rule sm_reachable.start)
  have p: "0 < lost ?u REC" by simp
  from lost_reader_pins_toggle [OF r p] r p show ?thesis by blast
qed

text \<open>
  C31. the functions of the state machine, each run by one idle thread without interruption, are
  runs of the interleaved system: what is proved of every reachable state covers them.
\<close>

theorem state_machine_functions_are_runs:
  assumes "i < n" and "pcs s i = Idle"
  shows "(state_machine_enter_rec_on (machine s) = Inr (1, m) \<longrightarrow>
      (sm_step n)\<^sup>*\<^sup>* s (at_pc i (Inside REC) m s)) \<and>
    (state_machine_enter_rec_on (machine s) = Inr (0, m) \<longrightarrow>
      (sm_step n)\<^sup>*\<^sup>* s (at_pc i Idle m s)) \<and>
    (state_machine_enter_on (machine s) = Inr (1, m) \<longrightarrow>
      (sm_step n)\<^sup>*\<^sup>* s (at_pc i (Inside SET) m s)) \<and>
    (state_machine_enter_on (machine s) = Inr (0, m) \<longrightarrow>
      (sm_step n)\<^sup>*\<^sup>* s (at_pc i Idle m s)) \<and>
    (Inr m \<in> {set_machine_rec_on (machine s), set_machine_rec_off (machine s),
        set_machine_on (machine s), set_machine_off (machine s)} \<longrightarrow>
      (sm_step n)\<^sup>*\<^sup>* s (at_pc i Idle m s))"
  using enter_run [OF assms, of REC] enter_run [OF assms, of SET] toggle_run [OF assms, of REC]
    toggle_run [OF assms, of SET]
  by (auto simp: state_machine_defs outcome_rules Let_def eq_commute [of "Inr m"] split: if_splits)

theorem state_machine_functions_are_runs_witness:
  "\<exists>m. set_machine_rec_off (machine (sm_start rw_init rw_init)) = Inr m \<and>
     (sm_step 1)\<^sup>*\<^sup>* (sm_start rw_init rw_init) (at_pc 0 Idle m (sm_start rw_init rw_init))"
proof -
  let ?s = "sm_start rw_init rw_init"
  let ?m = "setup_state_machine (bss_state_machine rw_init rw_init)\<lparr>rec_toggle := OFF\<rparr>"
  have m: "set_machine_rec_off (machine ?s) = Inr ?m"
    by (simp add: set_machine_rec_off_def sm_start_def setup_state_machine_def
        bss_state_machine_def down_write_def up_write_def rw_init_def)
  have h: "(0::nat) < 1" "pcs ?s 0 = Idle" by (simp_all add: sm_start_def)
  from state_machine_functions_are_runs [OF h, of ?m] m show ?thesis by auto
qed

end
