(* ===== verification/Path_Tokens.thy ===== *)
theory Path_Tokens
  imports KLRM_Prelude
begin

text \<open>
  Cutting a path into its components (\<open>process_path\<close> of \<open>path_store/path_store.c\<close>). The
  code overwrites every slash of the buffer with NUL and writes the offset behind each slash into
  the global array \<open>argIdxs\<close>; the components are then the C strings at these offsets. The main
  lemma shows that what the loops leave behind is the list of components that splitting the path at
  its slashes gives, and says exactly which paths are refused.
\<close>

section \<open>The code\<close>

definition ARGS_SIZE :: nat where
  "ARGS_SIZE = 512"

definition UINT_MAX :: nat where
  "UINT_MAX = 4294967295"

text \<open>
  The first loop, from index \<open>i\<close>, with \<open>j\<close> offsets written so far. Its result is the
  buffer, the array and the value of \<open>j\<close>, or \<open>UINT_MAX\<close> for the early return.
\<close>

function scan_slashes ::
  "nat \<Rightarrow> nat \<Rightarrow> nat \<Rightarrow> char list \<Rightarrow> nat list \<Rightarrow> char list \<times> nat list \<times> nat" where
  "scan_slashes len i j path idx =
     (if i < len then
        if path ! i = SLASH then
          let path = path[i := NUL] in
          if j = ARGS_SIZE then (path, idx, UINT_MAX)
          else if i \<noteq> len - 1 then scan_slashes len (Suc i) (Suc j) path (idx[j := i + 1])
          else scan_slashes len (Suc i) j path idx
        else scan_slashes len (Suc i) j path idx
      else (path, idx, j))"
  by pat_completeness auto
termination
  by (relation "measure (\<lambda>(len, i, j, path, idx). len - i)") auto

declare scan_slashes.simps [simp del]

text \<open>The second loop: does one of the strings at these offsets name the directory or its parent?\<close>

primrec any_dots :: "char list \<Rightarrow> nat list \<Rightarrow> bool outcome" where
  "any_dots path [] = Inr False"
| "any_dots path (off # offs) =
     bind_out (str_at path off) (\<lambda>s.
       if s = ''.'' \<or> s = ''..'' then Inr True else any_dots path offs)"

definition process_path ::
  "char list \<Rightarrow> nat list \<Rightarrow> (char list \<times> nat list \<times> nat) outcome" where
  "process_path path argIdxs =
     (if \<not> terminated path then Inl Bad_Access
      else
        let len = strlen path in
        if path ! 0 \<noteq> SLASH then Inr (path, argIdxs, UINT_MAX)
        else
          let (path, argIdxs, j) = scan_slashes len 0 0 path argIdxs in
          if j = UINT_MAX then Inr (path, argIdxs, UINT_MAX)
          else bind_out (any_dots path (take j argIdxs)) (\<lambda>dots.
            Inr (path, argIdxs, if dots then UINT_MAX else j)))"

section \<open>The reference: splitting at the slashes\<close>

fun split_slash :: "string \<Rightarrow> string list" where
  "split_slash [] = [[]]"
| "split_slash (c # cs) =
     (if c = SLASH then [] # split_slash cs
      else case split_slash cs of [] \<Rightarrow> [[c]] | w # ws \<Rightarrow> (c # w) # ws)"

text \<open>The components of an absolute path: a slash at the end opens no further component.\<close>

definition path_components :: "string \<Rightarrow> string list" where
  "path_components s =
     (let ws = split_slash (tl s) in if last ws = [] then butlast ws else ws)"

definition dotted :: "string list \<Rightarrow> bool" where
  "dotted ws = (''.'' \<in> set ws \<or> ''..'' \<in> set ws)"

definition path_accepted :: "string \<Rightarrow> bool" where
  "path_accepted s =
     (s \<noteq> [] \<and> hd s = SLASH \<and> count_list s SLASH \<le> ARGS_SIZE \<and> \<not> dotted (path_components s))"

section \<open>The offsets of the slashes\<close>

definition slash_pos :: "string \<Rightarrow> nat list" where
  "slash_pos s = filter (\<lambda>i. s ! i = SLASH) [0..<length s]"

definition token_at :: "string \<Rightarrow> nat \<Rightarrow> string" where
  "token_at s p = takeWhile (\<lambda>c. c \<noteq> SLASH) (drop (Suc p) s)"

text \<open>The offsets \<open>process_path\<close> writes for a path: behind each slash, but for a slash at its end.\<close>

definition own_offsets :: "string \<Rightarrow> nat list" where
  "own_offsets s = map Suc (filter (\<lambda>p. p \<noteq> length s - 1) (slash_pos s))"

definition cut_slashes :: "string \<Rightarrow> string" where
  "cut_slashes s = map (\<lambda>c. if c = SLASH then NUL else c) s"

lemma split_slash_ne [simp]: "split_slash s \<noteq> []"
  by (induction s) (auto split: list.splits)

lemma slash_pos_Cons:
  "slash_pos (c # cs) = (if c = SLASH then [0] else []) @ map Suc (slash_pos cs)"
proof -
  have "[0..<length (c # cs)] = 0 # map Suc [0..<length cs]"
    by (simp add: upt_conv_Cons map_Suc_upt del: upt_Suc)
  then show ?thesis by (simp add: slash_pos_def filter_map comp_def del: upt_Suc)
qed

lemma token_at_Cons [simp]:
  "token_at (c # cs) (Suc p) = token_at cs p"
  "token_at (c # cs) 0 = takeWhile (\<lambda>c. c \<noteq> SLASH) cs"
  by (simp_all add: token_at_def)

lemma split_slash_tokens:
  "split_slash s = takeWhile (\<lambda>c. c \<noteq> SLASH) s # map (token_at s) (slash_pos s)"
  by (induction s) (auto simp: slash_pos_Cons comp_def slash_pos_def [of "[]"])

lemma split_slash_Nil: "split_slash s = [[]] \<longleftrightarrow> s = []"
  by (cases s) (auto split: list.splits)

lemma last_split_slash: "last (split_slash s) = [] \<longleftrightarrow> s = [] \<or> last s = SLASH"
  by (induction s) (auto simp: split_slash_Nil split: list.splits)

lemma length_slash_pos: "length (slash_pos s) = count_list s SLASH"
  by (induction s) (auto simp: slash_pos_Cons slash_pos_def [of "[]"])

lemma slash_pos_split_last:
  assumes "s \<noteq> []"
  shows "slash_pos s = filter (\<lambda>i. i \<noteq> length s - 1) (slash_pos s) @
    (if last s = SLASH then [length s - 1] else [])"
proof -
  have up: "[0..<length s] = [0..<length s - 1] @ [length s - 1]"
    using assms by (cases s) simp_all
  have "filter (\<lambda>i. i \<noteq> length s - 1) (slash_pos s) =
      filter (\<lambda>i. s ! i = SLASH) [0..<length s - 1]"
    unfolding slash_pos_def up by (auto simp: filter_empty_conv intro!: filter_cong)
  moreover have "s ! (length s - 1) = last s" using assms by (simp add: last_conv_nth)
  ultimately show ?thesis unfolding slash_pos_def up by simp
qed

lemma path_components_tokens:
  assumes "s = SLASH # t"
  shows "map (token_at s) (filter (\<lambda>i. i \<noteq> length s - 1) (slash_pos s)) = path_components s"
proof -
  let ?f = "filter (\<lambda>i. i \<noteq> length s - 1) (slash_pos s)"
  have all: "map (token_at s) (slash_pos s) = split_slash t"
    using assms by (simp add: slash_pos_Cons comp_def split_slash_tokens)
  have last: "last (split_slash t) = [] \<longleftrightarrow> last s = SLASH"
    using assms by (simp add: last_split_slash)
  have "s \<noteq> []" using assms by simp
  note sp = slash_pos_split_last [OF this]
  show ?thesis
  proof (cases "last s = SLASH")
    case True
    then have "map (token_at s) (slash_pos s) =
        map (token_at s) ?f @ [token_at s (length s - 1)]" by (subst sp) simp
    with all have "map (token_at s) ?f = butlast (split_slash t)" by (metis butlast_snoc)
    with True last assms show ?thesis by (simp add: path_components_def)
  next
    case False
    then have "slash_pos s = ?f" by (subst sp) simp
    with all False last assms show ?thesis by (simp add: path_components_def)
  qed
qed

section \<open>What the loops leave behind\<close>

lemma take_Suc_update: "j < length xs \<Longrightarrow> take (Suc j) (xs[j := v]) = take j xs @ [v]"
  by (simp add: take_Suc_conv_app_nth)

lemma cut_nth [simp]: "i < length s \<Longrightarrow> cut_slashes s ! i = (if s ! i = SLASH then NUL else s ! i)"
  by (simp add: cut_slashes_def)

lemma length_cut [simp]: "length (cut_slashes s) = length s"
  by (simp add: cut_slashes_def)

lemma cut_step:
  assumes "i < length s"
  shows "(cut_slashes (take i s) @ drop i s @ r) ! i = s ! i"
    and "s ! i = SLASH \<Longrightarrow>
      (cut_slashes (take i s) @ drop i s @ r)[i := NUL] = cut_slashes (take (Suc i) s) @ drop (Suc i) s @ r"
    and "s ! i \<noteq> SLASH \<Longrightarrow>
      cut_slashes (take i s) @ drop i s @ r = cut_slashes (take (Suc i) s) @ drop (Suc i) s @ r"
  using assms
  by (auto simp: nth_append cut_slashes_def take_Suc_conv_app_nth list_update_append Cons_nth_drop_Suc
      [symmetric] min_absorb2)

text \<open>The array after a scan that wrote the offsets \<open>qs\<close> from index \<open>j\<close> on.\<close>

definition scanned :: "nat list \<Rightarrow> nat \<Rightarrow> nat list \<Rightarrow> nat list \<Rightarrow> nat \<Rightarrow> bool" where
  "scanned qs j idx idx' k =
     (k = j + length qs \<and> take k idx' = take j idx @ map Suc qs \<and> drop k idx' = drop k idx)"

lemma scanned_Nil: "scanned [] j idx idx j"
  by (simp add: scanned_def)

lemma scanned_Cons:
  "scanned qs (Suc j) (idx[j := Suc q]) idx' k \<Longrightarrow> j < length idx \<Longrightarrow> scanned (q # qs) j idx idx' k"
  unfolding scanned_def by (auto simp: take_Suc_update)

lemma scan_slashes_result:
  assumes "i \<le> length s" and "j \<le> ARGS_SIZE" and "length idx = ARGS_SIZE"
    and "scan_slashes (length s) i j (cut_slashes (take i s) @ drop i s @ r) idx = (b, idx', k)"
  defines "ps \<equiv> filter (\<lambda>p. s ! p = SLASH) [i..<length s]"
  defines "qs \<equiv> filter (\<lambda>p. p \<noteq> length s - 1) ps"
  shows "if j + length ps \<le> ARGS_SIZE
    then b = cut_slashes s @ r \<and> length idx' = ARGS_SIZE \<and> scanned qs j idx idx' k
    else k = UINT_MAX \<and> length idx' = ARGS_SIZE"
  using assms(1-4) unfolding ps_def qs_def
proof (induction "length s - i" arbitrary: i j idx)
  case 0
  then show ?case by (auto simp: scan_slashes.simps scanned_Nil)
next
  case (Suc m)
  then have i: "i < length s" by simp
  have up: "[i..<length s] = i # [Suc i..<length s]" using i by (rule upt_conv_Cons)
  note IH = Suc.hyps(1) [of "Suc i"]
  note st = cut_step [OF i, of r]
  show ?case
  proof (cases "s ! i = SLASH")
    case False
    with Suc.prems(4) st(3) have e:
      "scan_slashes (length s) i j (cut_slashes (take (Suc i) s) @ drop (Suc i) s @ r) idx = (b, idx', k)"
      by simp
    from st(1) st(3) [OF False] have "(cut_slashes (take (Suc i) s) @ drop (Suc i) s @ r) ! i = s ! i"
      by simp
    with e i False have
      "scan_slashes (length s) (Suc i) j (cut_slashes (take (Suc i) s) @ drop (Suc i) s @ r) idx = (b, idx', k)"
      by (subst (asm) scan_slashes.simps) simp
    note rec = this
    have same: "filter (\<lambda>p. s ! p = SLASH) [i..<length s] =
        filter (\<lambda>p. s ! p = SLASH) [Suc i..<length s]" using False by (simp add: up)
    show ?thesis unfolding same
      by (rule IH [OF _ _ Suc.prems(2,3) rec]) (use Suc.hyps(2) i in auto)
  next
    case slash: True
    show ?thesis
    proof (cases "j = ARGS_SIZE")
      case True
      with Suc.prems(4) st(1,2) slash i Suc.prems show ?thesis
        by (subst (asm) scan_slashes.simps) (auto simp: up)
    next
      case j: False
      show ?thesis
      proof (cases "i = length s - 1")
        case True
        with Suc.prems(4) st slash i j have
          "scan_slashes (length s) (Suc i) j (cut_slashes (take (Suc i) s) @ drop (Suc i) s @ r) idx = (b, idx', k)"
          by (subst (asm) scan_slashes.simps) simp
        note rec = this
        have "Suc i = length s" using True i by simp
        with rec have "b = cut_slashes s @ r \<and> idx' = idx \<and> k = j"
          by (simp add: scan_slashes.simps)
        moreover have sing: "filter (\<lambda>p. s ! p = SLASH) [i..<length s] = [i]"
          using \<open>Suc i = length s\<close> slash by (simp add: up)
        ultimately show ?thesis
          unfolding sing using Suc.prems(2,3) True j by (auto simp: scanned_Nil)
      next
        case False
        with Suc.prems(4) st slash i j have
          "scan_slashes (length s) (Suc i) (Suc j) (cut_slashes (take (Suc i) s) @ drop (Suc i) s @ r)
             (idx[j := Suc i]) = (b, idx', k)"
          by (subst (asm) scan_slashes.simps) simp
        with IH [of "Suc j" "idx[j := Suc i]"] Suc.hyps(2) Suc.prems i slash False j show ?thesis
          by (auto simp: up intro: scanned_Cons)
      qed
    qed
  qed
qed

text \<open>The string at any offset of the cut path: up to the next slash.\<close>

definition token_from :: "string \<Rightarrow> nat \<Rightarrow> string" where
  "token_from s off = takeWhile (\<lambda>c. c \<noteq> SLASH) (drop off s)"

lemma str_at_token_from:
  assumes "off \<le> length s" and "NUL \<notin> set s"
  shows "str_at (cut_slashes s @ NUL # r) off = Inr (token_from s off)"
proof -
  have "c_str (cut_slashes u @ NUL # r) = takeWhile (\<lambda>c. c \<noteq> SLASH) u" if "NUL \<notin> set u" for u
    using that by (induction u) (auto simp: c_str_def cut_slashes_def)
  moreover have "NUL \<notin> set (drop off s)" using assms(2) by (meson in_set_dropD)
  moreover have "drop off (cut_slashes s @ NUL # r) = cut_slashes (drop off s) @ NUL # r"
    using assms(1) by (simp add: cut_slashes_def drop_map)
  ultimately show ?thesis by (simp add: str_at_def token_from_def)
qed

text \<open>The string at an offset the scan wrote is the component behind that slash.\<close>

lemma str_at_token:
  assumes "p < length s" and "NUL \<notin> set s"
  shows "str_at (cut_slashes s @ NUL # r) (Suc p) = Inr (token_at s p)"
  using assms by (simp add: str_at_token_from token_from_def token_at_def)

lemma any_dots_strs:
  assumes "\<forall>off \<in> set offs. str_at b off = Inr (f off)"
  shows "any_dots b offs = Inr (dotted (map f offs))"
  using assms by (induction offs) (auto simp: dotted_def)

text \<open>
  The tokens of a run of \<open>process_path\<close>: the buffer and the array hold the strings of
  \<open>ws\<close> at the first \<open>length ws\<close> offsets.
\<close>

definition holds_tokens :: "char list \<Rightarrow> nat list \<Rightarrow> string list \<Rightarrow> bool" where
  "holds_tokens b idx ws =
     (length ws \<le> length idx \<and> (\<forall>k < length ws. str_at b (idx ! k) = Inr (ws ! k)))"

lemma process_path_unfold:
  assumes s: "NUL \<notin> set s" "s = SLASH # t" and len: "length idx = ARGS_SIZE"
    and scan: "scan_slashes (length s) 0 0 (s @ NUL # r) idx = (b, idx', k)"
  shows "process_path (s @ NUL # r) idx =
    (if k = UINT_MAX then Inr (b, idx', UINT_MAX)
     else bind_out (any_dots b (take k idx')) (\<lambda>dots. Inr (b, idx', if dots then UINT_MAX else k)))"
proof -
  have "(s @ NUL # r) ! 0 = SLASH" using s by simp
  moreover have "strlen (s @ NUL # r) = length s" using s(1) by (rule strlen_append_NUL)
  ultimately show ?thesis using scan by (simp add: process_path_def)
qed

lemma process_path_slash:
  assumes s: "NUL \<notin> set s" "s = SLASH # t" and len: "length idx = ARGS_SIZE"
  obtains b idx' k where "process_path (s @ NUL # r) idx = Inr (b, idx', k)"
    and "length idx' = ARGS_SIZE"
    and "path_accepted s \<Longrightarrow> k = length (path_components s) \<and> k \<le> ARGS_SIZE \<and>
      holds_tokens b idx' (path_components s) \<and>
      b = cut_slashes s @ NUL # r \<and>
      idx' ! 0 = (if path_components s = [] then idx ! 0 else 1) \<and>
      idx' = own_offsets s @ drop (length (own_offsets s)) idx"
    and "\<not> path_accepted s \<Longrightarrow> k = UINT_MAX"
proof -
  obtain b idx' k where scan: "scan_slashes (length s) 0 0 (s @ NUL # r) idx = (b, idx', k)"
    using prod_cases3 by blast
  let ?qs = "filter (\<lambda>p. p \<noteq> length s - 1) (slash_pos s)"
  have toks: "map (token_at s) ?qs = path_components s"
    using s(2) by (rule path_components_tokens)
  note run = process_path_unfold [OF s len scan]
  have scan0: "scan_slashes (length s) 0 0 (cut_slashes (take 0 s) @ drop 0 s @ NUL # r) idx = (b, idx', k)"
    using scan by (simp add: cut_slashes_def)
  have res: "if length (slash_pos s) \<le> ARGS_SIZE
    then b = cut_slashes s @ NUL # r \<and> length idx' = ARGS_SIZE \<and> scanned ?qs 0 idx idx' k
    else k = UINT_MAX \<and> length idx' = ARGS_SIZE"
    using scan_slashes_result [OF le0 le0 len scan0, folded slash_pos_def]
    unfolding add_0 .
  show thesis
  proof (cases "length (slash_pos s) \<le> ARGS_SIZE")
    case False
    with res run have "process_path (s @ NUL # r) idx = Inr (b, idx', UINT_MAX)" by simp
    with False res show thesis
      by (intro that [of b idx' UINT_MAX]) (auto simp: path_accepted_def length_slash_pos)
  next
    case True
    from True res have "b = cut_slashes s @ NUL # r \<and> length idx' = ARGS_SIZE \<and>
      scanned ?qs 0 idx idx' k" by (simp only: if_True)
    then have b: "b = cut_slashes s @ NUL # r" and l: "length idx' = ARGS_SIZE"
      and k: "k = length ?qs" and tk: "take k idx' = map Suc ?qs" and dr: "drop k idx' = drop k idx"
      unfolding scanned_def add_0 take_0 append_Nil by blast+
    have kc: "k = length (path_components s)" using k toks by (metis length_map)
    have kA: "k \<le> ARGS_SIZE" using True k by (meson le_trans length_filter_le)
    have strs: "str_at b (Suc p) = Inr (token_at s p)" if "p \<in> set ?qs" for p
      using that s(1) unfolding b by (intro str_at_token) (auto simp: slash_pos_def)
    have ad: "any_dots b (take k idx') = Inr (dotted (path_components s))"
      unfolding tk toks [symmetric]
      by (subst any_dots_strs [where f = "\<lambda>off. token_at s (off - 1)"])
        (use strs in \<open>auto simp: comp_def\<close>)
    have "holds_tokens b idx' (path_components s)"
      unfolding holds_tokens_def
    proof (intro conjI allI impI)
      show "length (path_components s) \<le> length idx'" using kc kA l by simp
      fix m assume m: "m < length (path_components s)"
      with kc have "idx' ! m = take k idx' ! m" by simp
      also have "\<dots> = Suc (?qs ! m)" using m kc k unfolding tk by simp
      finally show "str_at b (idx' ! m) = Inr (path_components s ! m)"
        using strs [of "?qs ! m"] m kc k toks by (metis nth_map nth_mem)
    qed
    moreover have "idx' ! 0 = (if path_components s = [] then idx ! 0 else 1)"
    proof (cases "path_components s = []")
      case True
      with kc dr show ?thesis by simp
    next
      case False
      then have "0 < k" using kc by simp
      moreover from this k obtain q where "?qs ! 0 = q" and "?qs \<noteq> []" by auto
      moreover have "hd ?qs = 0"
        using s(2) False by (cases t) (auto simp: slash_pos_Cons path_components_def)
      ultimately show ?thesis using tk k False
        by (metis One_nat_def hd_conv_nth length_greater_0_conv nth_map nth_take)
    qed
    moreover have "idx' = own_offsets s @ drop (length (own_offsets s)) idx"
      using append_take_drop_id [of k idx', unfolded tk dr] by (simp only: own_offsets_def length_map k)
    moreover have "k \<noteq> UINT_MAX" using kA by (simp add: ARGS_SIZE_def UINT_MAX_def)
    ultimately show thesis using run ad kc kA l b True s(2)
      by (intro that [of b idx' "if dotted (path_components s) then UINT_MAX else k"])
        (auto simp: path_accepted_def length_slash_pos)
  qed
qed

text \<open>A path that does not begin with a slash is refused, and the array keeps its contents.\<close>

lemma process_path_relative:
  assumes "terminated b" and "c_str b = [] \<or> hd (c_str b) \<noteq> SLASH"
  shows "process_path b idx = Inr (b, idx, UINT_MAX)"
proof -
  from assms(1) obtain r where "b = c_str b @ NUL # r" by (rule terminated_split)
  then have "b ! 0 = (if c_str b = [] then NUL else hd (c_str b))"
    by (metis append_Nil hd_append2 hd_conv_nth list.discI list.sel(1) Nil_is_append_conv)
  with assms show ?thesis by (auto simp: process_path_def)
qed

text \<open>
  The exact effect on a path that is accepted: its slashes are cut, its offsets are written in front, and
  the array keeps what lies behind them.
\<close>

lemma length_own_offsets:
  assumes "s = SLASH # t"
  shows "length (own_offsets s) = length (path_components s)"
  using path_components_tokens [OF assms] by (metis length_map own_offsets_def)

lemma process_path_exact:
  assumes "NUL \<notin> set s" and "path_accepted s" and "length idx = ARGS_SIZE"
  shows "process_path (s @ NUL # r) idx =
    Inr (cut_slashes s @ NUL # r, own_offsets s @ drop (length (own_offsets s)) idx, length (own_offsets s))"
proof -
  obtain u where u: "s = SLASH # u" using assms(2) by (cases s) (auto simp: path_accepted_def)
  show ?thesis
    by (rule process_path_slash [OF assms(1) u assms(3), of r])
      (use assms(2) length_own_offsets [OF u] in auto)
qed

lemma own_offsets_tokens:
  assumes "s = SLASH # t"
  shows "map (token_from s) (own_offsets s) = path_components s"
  using path_components_tokens [OF assms] by (simp add: own_offsets_def token_from_def token_at_def [abs_def] comp_def)

text \<open>
  Every run of \<open>process_path\<close> on a terminated buffer returns. It gives the number of components
  and leaves them in place for the paths it accepts, and \<open>UINT_MAX\<close> for all others. The
  array keeps its length, and its first offset is the old one or 1.
\<close>

lemma process_path_cases:
  assumes t: "terminated b" and len: "length idx = ARGS_SIZE"
  obtains b' idx' k where "process_path b idx = Inr (b', idx', k)"
    and "length idx' = ARGS_SIZE"
    and "path_accepted (c_str b) \<Longrightarrow> k = length (path_components (c_str b)) \<and> k \<le> ARGS_SIZE \<and>
      holds_tokens b' idx' (path_components (c_str b)) \<and>
      (path_components (c_str b) = [] \<longrightarrow> (\<exists>r. b' = NUL # NUL # r) \<and> idx' ! 0 = idx ! 0) \<and>
      (path_components (c_str b) \<noteq> [] \<longrightarrow> idx' ! 0 = 1)"
    and "\<not> path_accepted (c_str b) \<Longrightarrow> k = UINT_MAX"
proof (cases "c_str b = [] \<or> hd (c_str b) \<noteq> SLASH")
  case True
  with t process_path_relative [OF t True] show thesis
    by (intro that [of b idx UINT_MAX]) (auto simp: len path_accepted_def)
next
  case False
  then obtain u where u: "c_str b = SLASH # u" by (cases "c_str b") auto
  obtain r where b: "b = c_str b @ NUL # r" using t by (rule terminated_split)
  obtain b' idx' k where run: "process_path (c_str b @ NUL # r) idx = Inr (b', idx', k)"
    and l: "length idx' = ARGS_SIZE"
    and acc: "path_accepted (c_str b) \<Longrightarrow> k = length (path_components (c_str b)) \<and> k \<le> ARGS_SIZE \<and>
      holds_tokens b' idx' (path_components (c_str b)) \<and>
      b' = cut_slashes (c_str b) @ NUL # r \<and>
      idx' ! 0 = (if path_components (c_str b) = [] then idx ! 0 else 1) \<and>
      idx' = own_offsets (c_str b) @ drop (length (own_offsets (c_str b))) idx"
    and rej: "\<not> path_accepted (c_str b) \<Longrightarrow> k = UINT_MAX"
    using process_path_slash [OF c_str_no_NUL u len, of r] by blast
  have root: "u = []" if "path_components (c_str b) = []"
    using that u split_slash_Nil [of u]
    by (cases u) (auto simp: path_components_def butlast_conv_take Let_def split: if_splits list.splits)
  have "\<exists>r. b' = NUL # NUL # r"
    if "path_accepted (c_str b)" "path_components (c_str b) = []"
  proof -
    have c: "c_str b = [SLASH]" using u root [OF that(2)] by simp
    then have "b' = [NUL] @ NUL # r" using acc [OF that(1)] by (simp add: cut_slashes_def)
    then show ?thesis by simp
  qed
  with run b l acc rej show thesis
    by (intro that [of b' idx' k]) (auto split: if_splits)
qed

lemma components_few:
  assumes "path_accepted p"
  shows "length (path_components p) \<le> ARGS_SIZE"
proof -
  have len: "length (split_slash s) = Suc (count_list s SLASH)" for s
    by (induction s) (auto split: list.splits)
  obtain s where p: "p = SLASH # s" using assms by (cases p) (auto simp: path_accepted_def)
  then have "Suc (count_list s SLASH) \<le> ARGS_SIZE" using assms by (simp add: path_accepted_def)
  then show ?thesis using len [of s] by (auto simp: path_components_def p Let_def)
qed

section \<open>Joining components back\<close>

definition join_path :: "string list \<Rightarrow> string" where
  "join_path ws = concat (map (\<lambda>w. SLASH # w) ws)"

lemma split_slash_word: "SLASH \<notin> set w \<Longrightarrow> split_slash w = [w]"
  by (induction w) auto

lemma split_slash_append:
  "SLASH \<notin> set w \<Longrightarrow> split_slash (w @ SLASH # u) = w # split_slash u"
  by (induction w) auto

lemma split_slash_join:
  "\<forall>w \<in> set (v # ws). SLASH \<notin> set w \<Longrightarrow> split_slash (v @ join_path ws) = v # ws"
proof (induction ws arbitrary: v)
  case Nil
  then show ?case by (simp add: join_path_def split_slash_word)
next
  case (Cons w ws)
  have "split_slash (v @ join_path (w # ws)) = v # split_slash (w @ join_path ws)"
    using Cons.prems by (simp add: join_path_def split_slash_append)
  with Cons show ?case by simp
qed

lemma path_components_join:
  assumes "\<forall>w \<in> set ws. SLASH \<notin> set w" and "ws \<noteq> []" and "last ws \<noteq> []"
  shows "path_components (join_path ws) = ws"
proof -
  from assms(2) obtain v vs where "ws = v # vs" by (cases ws) auto
  moreover from this have "tl (join_path ws) = v @ join_path vs" by (simp add: join_path_def)
  ultimately show ?thesis
    using split_slash_join [of v vs] assms by (simp add: path_components_def)
qed

lemma count_join_path:
  "\<forall>w \<in> set ws. SLASH \<notin> set w \<Longrightarrow> count_list (join_path ws) SLASH = length ws"
  by (induction ws) (simp_all add: join_path_def)

lemma join_path_ne: "ws \<noteq> [] \<Longrightarrow> join_path ws \<noteq> [] \<and> hd (join_path ws) = SLASH"
  by (cases ws) (auto simp: join_path_def)

lemma NUL_join_path: "NUL \<in> set (join_path ws) \<longleftrightarrow> (\<exists>w \<in> set ws. NUL \<in> set w)"
  by (induction ws) (auto simp: join_path_def)

section \<open>Properties\<close>

text \<open>
  C24. on every absolute path with at most 512 slashes and no component \<open>.\<close> or
  \<open>..\<close>, \<open>process_path\<close> returns the number of its components, and the C strings at the
  offsets it has written are these components, in order. The components are what splitting the
  path at its slashes gives; a slash at the end opens none.
\<close>

theorem process_path_splits:
  assumes "terminated b" and "length idx = ARGS_SIZE" and "path_accepted (c_str b)"
  shows "\<exists>b' idx'. process_path b idx = Inr (b', idx', length (path_components (c_str b))) \<and>
    length (path_components (c_str b)) \<le> ARGS_SIZE \<and> length idx' = ARGS_SIZE \<and>
    (\<forall>k < length (path_components (c_str b)).
       str_at b' (idx' ! k) = Inr (path_components (c_str b) ! k))"
  by (rule process_path_cases [OF assms(1,2)]) (use assms(3) in \<open>auto simp: holds_tokens_def\<close>)

theorem process_path_splits_witness:
  "\<exists>b' idx'. process_path (''/etc/passwd'' @ [NUL]) (replicate 512 0) = Inr (b', idx', 2) \<and>
     str_at b' (idx' ! 0) = Inr ''etc'' \<and> str_at b' (idx' ! 1) = Inr ''passwd''"
proof -
  let ?b = "''/etc/passwd'' @ [NUL]"
  have c: "c_str ?b = ''/etc/passwd''" by (simp add: c_str_def)
  have p: "path_components ''/etc/passwd'' = [''etc'', ''passwd'']"
    by (simp add: path_components_def)
  have a: "path_accepted ''/etc/passwd''"
    by (simp add: path_accepted_def p dotted_def ARGS_SIZE_def)
  from process_path_splits [of ?b "replicate 512 0", unfolded c p, OF _ _ a]
  obtain b' idx' where "process_path ?b (replicate 512 0) = Inr (b', idx', 2)"
    and "\<forall>k < 2. str_at b' (idx' ! k) = Inr ([''etc'', ''passwd''] ! k)"
    by (auto simp: terminated_def ARGS_SIZE_def)
  then have "str_at b' (idx' ! 0) = Inr ''etc''" and "str_at b' (idx' ! 1) = Inr ''passwd''"
    by (auto dest: spec [where x = 0] spec [where x = 1])
  with \<open>process_path ?b (replicate 512 0) = Inr (b', idx', 2)\<close> show ?thesis by blast
qed

text \<open>
  Every other path in a terminated buffer is refused: a relative or empty one, one with more
  than 512 slashes, one with a component \<open>.\<close> or \<open>..\<close>. The call returns
  \<open>UINT_MAX\<close>, which no number of components reaches.
\<close>

theorem process_path_refuses:
  assumes "terminated b" and "length idx = ARGS_SIZE" and "\<not> path_accepted (c_str b)"
  shows "\<exists>b' idx'. process_path b idx = Inr (b', idx', UINT_MAX)"
  by (rule process_path_cases [OF assms(1,2)]) (use assms(3) in auto)

theorem process_path_refuses_witness:
  "\<exists>b' idx'. process_path (''/etc/../root'' @ [NUL]) (replicate 512 0) = Inr (b', idx', UINT_MAX)"
proof -
  let ?b = "''/etc/../root'' @ [NUL]"
  have c: "c_str ?b = ''/etc/../root''" by (simp add: c_str_def)
  have "\<not> path_accepted ''/etc/../root''"
    by (simp add: path_accepted_def path_components_def dotted_def)
  with process_path_refuses [of ?b "replicate 512 0", unfolded c] show ?thesis
    by (simp add: terminated_def ARGS_SIZE_def)
qed

text \<open>
  Joining at most 512 components with slashes and running \<open>process_path\<close> on the result
  gives the components back.
\<close>

theorem process_path_join:
  assumes "ws \<noteq> []" and "length ws \<le> ARGS_SIZE" and "last ws \<noteq> []" and "\<not> dotted ws"
    and "\<forall>w \<in> set ws. SLASH \<notin> set w \<and> NUL \<notin> set w" and "length idx = ARGS_SIZE"
  shows "\<exists>b' idx'. process_path (join_path ws @ NUL # rest) idx = Inr (b', idx', length ws) \<and>
    (\<forall>k < length ws. str_at b' (idx' ! k) = Inr (ws ! k))"
proof -
  let ?b = "join_path ws @ NUL # rest"
  have c: "c_str ?b = join_path ws" using assms(5) by (simp add: NUL_join_path)
  have p: "path_components (join_path ws) = ws" using assms by (simp add: path_components_join)
  have acc: "path_accepted (c_str ?b)"
    unfolding c using assms join_path_ne [of ws]
    by (simp add: path_accepted_def p count_join_path)
  show ?thesis
  proof (rule process_path_cases [OF terminated_append assms(6), of "join_path ws" rest])
    fix b' idx' k
    assume "process_path ?b idx = Inr (b', idx', k)"
      and "path_accepted (c_str ?b) \<Longrightarrow> k = length (path_components (c_str ?b)) \<and> k \<le> ARGS_SIZE \<and>
        holds_tokens b' idx' (path_components (c_str ?b)) \<and>
        (path_components (c_str ?b) = [] \<longrightarrow> (\<exists>r. b' = NUL # NUL # r) \<and> idx' ! 0 = idx ! 0) \<and>
        (path_components (c_str ?b) \<noteq> [] \<longrightarrow> idx' ! 0 = 1)"
    with acc show ?thesis by (auto simp: c p holds_tokens_def)
  qed
qed

theorem process_path_join_witness:
  "\<exists>b' idx'. process_path (join_path [''a'', ''b''] @ NUL # ''junk'') (replicate 512 0) =
       Inr (b', idx', 2)"
proof -
  have "\<exists>b' idx'. process_path (join_path [''a'', ''b''] @ NUL # ''junk'') (replicate 512 0) =
       Inr (b', idx', length [''a'', ''b'']) \<and>
     (\<forall>k < length [''a'', ''b'']. str_at b' (idx' ! k) = Inr ([''a'', ''b''] ! k))"
    by (rule process_path_join) (simp_all add: ARGS_SIZE_def dotted_def)
  then show ?thesis by auto
qed

end
