(* ===== verification/Path_Tree.thy ===== *)
theory Path_Tree
  imports Path_Tokens
begin

text \<open>
  The tree of \<open>store_entry\<close> objects of \<open>path_store/path_store.c\<close>, kept as a heap: a map
  from addresses to entries. The ring of the children of an entry is the list of their addresses in
  the order \<open>list_for_each\<close> meets them, and the ring \<open>allocations\<close> through all entries
  is a list as well; \<open>parent\<close> is a pointer. The word \<open>children_num\<close> counts the
  children in its low 63 bits and marks in its top bit that the path of the entry was itself added.

  The theory translates the search macro, the loop that adds the missing entries, and the climb
  that frees the entries no path needs. The map \<open>walk\<close> from name lists to entries says what
  each of them does to the tree.
\<close>

section \<open>Entries and their rings\<close>

type_synonym addr = nat

record store_entry =
  se_parent :: "addr option"
  se_dir_name :: string
  se_children :: "addr list"
  se_children_num :: "64 word"

type_synonym entry_heap = "addr \<rightharpoonup> store_entry"

record path_tree =
  pt_heap :: entry_heap
  pt_root :: addr
  pt_allocations :: "addr list"

definition DIR_NAME_SIZE :: nat where
  "DIR_NAME_SIZE = 1024"

definition EXPLICITED_PATH_MASK :: "64 word" where
  "EXPLICITED_PATH_MASK = 0x8000000000000000"

text \<open>\<open>memset\<close> to zero, an empty ring of children.\<close>

definition init_store_entry :: store_entry where
  "init_store_entry = \<lparr>se_parent = None, se_dir_name = '''', se_children = [], se_children_num = 0\<rparr>"

definition explicited :: "store_entry \<Rightarrow> bool" where
  "explicited e = (se_children_num e AND EXPLICITED_PATH_MASK \<noteq> 0)"

definition child_count :: "store_entry \<Rightarrow> 64 word" where
  "child_count e = se_children_num e AND NOT EXPLICITED_PATH_MASK"

section \<open>The search\<close>

text \<open>
  One \<open>list_for_each\<close> over a ring of children: the first whose name is the token. Every
  turn reads the name of the child and the token behind \<open>argIdxs[deepness]\<close>.
\<close>

fun scan_children ::
  "entry_heap \<Rightarrow> char list \<Rightarrow> nat list \<Rightarrow> nat \<Rightarrow> addr list \<Rightarrow> addr option outcome" where
  "scan_children h examinated idx deepness [] = Inr None"
| "scan_children h examinated idx deepness (c # cs) =
     (case h c of None \<Rightarrow> Inl Bad_Access
      | Some child \<Rightarrow>
          if length idx \<le> deepness then Inl Bad_Access
          else bind_out (str_at examinated (idx ! deepness)) (\<lambda>token.
            if se_dir_name child = token then Inr (Some c)
            else scan_children h examinated idx deepness cs))"

text \<open>
  The macro \<open>PATH_SEARCH_LOOP\<close>: from the entry whose ring is \<open>curr_entry\<close>, with
  \<open>deepness\<close> components matched. The result is where it stops.
\<close>

function path_search_loop ::
  "entry_heap \<Rightarrow> char list \<Rightarrow> nat list \<Rightarrow> nat \<Rightarrow> addr \<Rightarrow> nat \<Rightarrow> (addr \<times> nat) outcome" where
  "path_search_loop h examinated idx j cur deepness =
     (case h cur of None \<Rightarrow> Inl Bad_Access
      | Some entry \<Rightarrow>
          (case scan_children h examinated idx deepness (se_children entry) of
             Inl f \<Rightarrow> Inl f
           | Inr None \<Rightarrow> Inr (cur, deepness)
           | Inr (Some c) \<Rightarrow>
               if length idx \<le> deepness then Inl Bad_Access
               else if Suc deepness \<noteq> j then path_search_loop h examinated idx j c (Suc deepness)
               else Inr (c, Suc deepness)))"
  by pat_completeness auto
termination
  by (relation "measure (\<lambda>(h, examinated, idx, j, cur, deepness). length idx - deepness)") auto

declare path_search_loop.simps [simp del]

section \<open>Adding and freeing entries\<close>

text \<open>
  The slab gives an address for a new entry, or none; it sees the addresses in use. The name is
  copied without its terminator into the zeroed array of 1024 bytes: a longer name runs over the
  pointers behind it, and one of exactly 1024 bytes is left without a terminator.
\<close>

definition add_child ::
  "(addr list \<Rightarrow> addr option) \<Rightarrow> string \<Rightarrow> addr \<Rightarrow> path_tree \<Rightarrow> path_tree outcome" where
  "add_child slab token cur t =
     (case slab (pt_allocations t) of None \<Rightarrow> Inl Bad_Access
      | Some a \<Rightarrow>
          if DIR_NAME_SIZE \<le> length token then Inl Bad_Access
          else
            let newChild = init_store_entry\<lparr>se_dir_name := token\<rparr> in
            case pt_heap t cur of None \<Rightarrow> Inl Bad_Access
            | Some actualCurrent \<Rightarrow>
                Inr (t\<lparr>pt_heap := (pt_heap t)
                         (a \<mapsto> newChild\<lparr>se_parent := Some cur\<rparr>,
                          cur \<mapsto> actualCurrent\<lparr>se_children := a # se_children actualCurrent,
                            se_children_num := se_children_num actualCurrent + 1\<rparr>),
                       pt_allocations := a # pt_allocations t\<rparr>))"

text \<open>
  The body of \<open>path_store_add\<close> from \<open>LOOP_ADD\<close> on: search, and as long as a component
  is missing create its entry and go back to the search. \<open>Inr (Inl t)\<close> is the early return for
  an empty component. The number of rounds is the first argument; 513 are enough, because every
  round after the first goes one component deeper.
\<close>

fun add_loop ::
  "nat \<Rightarrow> (addr list \<Rightarrow> addr option) \<Rightarrow> char list \<Rightarrow> nat list \<Rightarrow> nat \<Rightarrow> addr \<Rightarrow> nat \<Rightarrow>
   path_tree \<Rightarrow> (path_tree + addr \<times> path_tree) outcome" where
  "add_loop 0 slab examinated idx j cur deepness t = Inl Runaway"
| "add_loop (Suc rounds) slab examinated idx j cur deepness t =
     bind_out (path_search_loop (pt_heap t) examinated idx j cur deepness) (\<lambda>(cur, deepness).
       if deepness \<noteq> j then
         if length idx \<le> deepness then Inl Bad_Access
         else bind_out (str_at examinated (idx ! deepness)) (\<lambda>token.
           if length token = 0 then Inr (Inl t)
           else bind_out (add_child slab token cur t) (\<lambda>t.
             add_loop rounds slab examinated idx j cur deepness t))
       else Inr (Inr (cur, t)))"

definition set_explicited :: "addr \<Rightarrow> path_tree \<Rightarrow> path_tree outcome" where
  "set_explicited a t =
     (case pt_heap t a of None \<Rightarrow> Inl Bad_Access
      | Some e \<Rightarrow> Inr (t\<lparr>pt_heap := (pt_heap t)
          (a \<mapsto> e\<lparr>se_children_num := se_children_num e OR EXPLICITED_PATH_MASK\<rparr>)\<rparr>))"

definition clear_explicited :: "addr \<Rightarrow> path_tree \<Rightarrow> path_tree outcome" where
  "clear_explicited a t =
     (case pt_heap t a of None \<Rightarrow> Inl Bad_Access
      | Some e \<Rightarrow> Inr (t\<lparr>pt_heap := (pt_heap t)
          (a \<mapsto> e\<lparr>se_children_num := se_children_num e AND NOT EXPLICITED_PATH_MASK\<rparr>)\<rparr>))"

text \<open>
  Freeing one entry: count it out of its parent, unlink it from the ring of the parent and from
  \<open>allocations\<close>, give it back to the slab.
\<close>

definition free_child :: "addr \<Rightarrow> addr \<Rightarrow> path_tree \<Rightarrow> path_tree outcome" where
  "free_child a p t =
     (case pt_heap t p of None \<Rightarrow> Inl Bad_Access
      | Some parent \<Rightarrow>
          Inr (t\<lparr>pt_heap := (pt_heap t)
                   (p \<mapsto> parent\<lparr>se_children_num := se_children_num parent - 1,
                      se_children := remove1 a (se_children parent)\<rparr>,
                    a := None),
                 pt_allocations := remove1 a (pt_allocations t)\<rparr>))"

text \<open>The climb of \<open>path_store_rm\<close>: up from an entry, freeing what nothing needs.\<close>

fun climb :: "nat \<Rightarrow> addr \<Rightarrow> path_tree \<Rightarrow> path_tree outcome" where
  "climb 0 a t = Inl Runaway"
| "climb (Suc rounds) a t =
     (case pt_heap t a of None \<Rightarrow> Inl Bad_Access
      | Some e \<Rightarrow>
          if a = pt_root t \<or> child_count e \<noteq> 0 \<or> explicited e then Inr t
          else
            (case se_parent e of None \<Rightarrow> Inl Bad_Access
             | Some p \<Rightarrow> bind_out (free_child a p t) (\<lambda>t. climb rounds p t)))"

end
