(* ===== verification/Path_Tree_Walk.thy ===== *)
theory Path_Tree_Walk
  imports Path_Tree
begin

text \<open>
  The well-formedness of the heap of entries, the map from component lists to entries, and what
  the operations of the tree do to both.

  The pointers of an entry are read through two projections: \<open>link\<close> (its parent and its name)
  and \<open>kids\<close> (its ring of children). The invariant says that the rings and the parent pointers
  agree, that siblings have different names, that every entry hangs below the root, and that the
  count words are right.
\<close>

section \<open>The count word\<close>

definition count_word :: "bool \<Rightarrow> nat \<Rightarrow> 64 word" where
  "count_word f k = (if f then EXPLICITED_PATH_MASK else 0) + word_of_nat k"

definition max_children :: nat where
  "max_children = 2 ^ 63"

lemma bit_MASK: "bit EXPLICITED_PATH_MASK n \<longleftrightarrow> n = 63"
proof -
  have m: "EXPLICITED_PATH_MASK = 2 ^ 63"
    by (simp add: EXPLICITED_PATH_MASK_def)
  show ?thesis unfolding m bit_exp_iff by auto
qed

lemma unat_small: "k < max_children \<Longrightarrow> unat (word_of_nat k :: 64 word) = k"
  by (simp add: unat_of_nat max_children_def)

lemma bit_small:
  assumes "k < max_children" "63 \<le> n"
  shows "\<not> bit (word_of_nat k :: 64 word) n"
proof
  assume "bit (word_of_nat k :: 64 word) n"
  then have "bit (unat (word_of_nat k :: 64 word)) n" by (simp add: bit_unsigned_iff)
  then have "odd (k div 2 ^ n)" by (simp add: unat_small assms(1) bit_iff_odd)
  moreover have "(2::nat) ^ 63 \<le> 2 ^ n" using assms(2) by (rule power_increasing) simp
  with assms(1) have "k < 2 ^ n" unfolding max_children_def by (rule less_le_trans)
  ultimately show False by simp
qed

lemma count_word_or: "k < max_children \<Longrightarrow>
  count_word f k = (if f then EXPLICITED_PATH_MASK else 0) OR word_of_nat k"
  unfolding count_word_def
  by (rule disjunctive_add) (auto simp: bit_MASK dest: bit_small)

lemma count_word_ops:
  assumes "k < max_children"
  shows "count_word f k AND EXPLICITED_PATH_MASK = (if f then EXPLICITED_PATH_MASK else 0)"
    and "count_word f k AND NOT EXPLICITED_PATH_MASK = word_of_nat k"
    and "count_word f k OR EXPLICITED_PATH_MASK = count_word True k"
    and "count_word f k + 1 = count_word f (Suc k)"
    and "0 < k \<Longrightarrow> count_word f k - 1 = count_word f (k - 1)"
proof -
  show "count_word f k AND EXPLICITED_PATH_MASK = (if f then EXPLICITED_PATH_MASK else 0)"
    unfolding count_word_or [OF assms]
    by (rule bit_word_eqI) (use bit_small [OF assms] in \<open>auto simp: bit_simps bit_MASK\<close>)
  show "count_word f k AND NOT EXPLICITED_PATH_MASK = word_of_nat k"
    unfolding count_word_or [OF assms]
    by (rule bit_word_eqI) (use bit_small [OF assms] in \<open>auto simp: bit_simps bit_MASK\<close>)
  show "count_word f k OR EXPLICITED_PATH_MASK = count_word True k"
    unfolding count_word_or [OF assms]
    by (rule bit_word_eqI) (auto simp: bit_simps bit_MASK)
  show "count_word f k + 1 = count_word f (Suc k)"
    by (simp add: count_word_def)
  show "count_word f k - 1 = count_word f (k - 1)" if "0 < k"
    using that by (cases k) (simp_all add: count_word_def)
qed

lemma MASK_ne_0 [simp]: "EXPLICITED_PATH_MASK \<noteq> 0"
  by (simp add: EXPLICITED_PATH_MASK_def)

lemma word_of_nat_eq_0: "k < max_children \<Longrightarrow> (word_of_nat k :: 64 word) = 0 \<longleftrightarrow> k = 0"
  using unat_small [of k] by auto

section \<open>Projections and the walk\<close>

definition link :: "entry_heap \<Rightarrow> addr \<Rightarrow> (addr option \<times> string) option" where
  "link h a = map_option (\<lambda>e. (se_parent e, se_dir_name e)) (h a)"

definition kids :: "entry_heap \<Rightarrow> addr \<Rightarrow> addr list" where
  "kids h a = (case h a of None \<Rightarrow> [] | Some e \<Rightarrow> se_children e)"

definition has_name :: "entry_heap \<Rightarrow> string \<Rightarrow> addr \<Rightarrow> bool" where
  "has_name h n c = (case h c of None \<Rightarrow> False | Some e \<Rightarrow> se_dir_name e = n)"

definition child_named :: "entry_heap \<Rightarrow> addr \<Rightarrow> string \<Rightarrow> addr option" where
  "child_named h a n = List.find (has_name h n) (kids h a)"

primrec walk :: "entry_heap \<Rightarrow> addr \<Rightarrow> string list \<Rightarrow> addr option" where
  "walk h a [] = Some a"
| "walk h a (n # ns) = (case child_named h a n of None \<Rightarrow> None | Some c \<Rightarrow> walk h c ns)"

lemma walk_append:
  "walk h a (ns @ ms) = (case walk h a ns of None \<Rightarrow> None | Some b \<Rightarrow> walk h b ms)"
  by (induction ns arbitrary: a) (auto split: option.splits)

lemma walk_snoc:
  "walk h a (ns @ [n]) = (case walk h a ns of None \<Rightarrow> None | Some b \<Rightarrow> child_named h b n)"
  by (auto simp: walk_append split: option.splits)

definition slab_addr_ok :: "addr \<Rightarrow> bool" where
  "slab_addr_ok a = (2048 dvd a \<and> a < 2 ^ 64)"

text \<open>
  What the slab cache of the entries promises (objects of 2048 bytes, aligned to 2048): the address
  it gives is not that of an entry in use, and lies on such a boundary of the address space.
\<close>

definition slab_sound :: "(addr list \<Rightarrow> addr option) \<Rightarrow> bool" where
  "slab_sound slab = (\<forall>used a. slab used = Some a \<longrightarrow> a \<notin> set used \<and> slab_addr_ok a)"

definition heap_ok :: "path_tree \<Rightarrow> bool" where
  "heap_ok t =
    (let h = pt_heap t; r = pt_root t in
      (\<exists>n. link h r = Some (None, n)) \<and>
      (\<forall>a n. link h a = Some (None, n) \<longrightarrow> a = r) \<and>
      dom h = set (pt_allocations t) \<and> distinct (pt_allocations t) \<and>
      (\<forall>a. distinct (kids h a)) \<and>
      (\<forall>a c. c \<in> set (kids h a) \<longleftrightarrow> (\<exists>n. link h c = Some (Some a, n))) \<and>
      (\<forall>a c d n. link h c = Some (Some a, n) \<longrightarrow> link h d = Some (Some a, n) \<longrightarrow> c = d) \<and>
      (\<forall>a c n. link h c = Some (Some a, n) \<longrightarrow> n \<noteq> []) \<and>
      (\<forall>a e. h a = Some e \<longrightarrow> (\<exists>f. se_children_num e = count_word f (length (se_children e)))) \<and>
      (\<forall>a e. h a = Some e \<longrightarrow> (\<exists>ps. walk h r ps = Some a)) \<and>
      (\<forall>a e. h a = Some e \<longrightarrow> slab_addr_ok a))"

lemma heap_okD:
  assumes "heap_ok t"
  shows "\<exists>n. link (pt_heap t) (pt_root t) = Some (None, n)"
    and "link (pt_heap t) a = Some (None, n) \<Longrightarrow> a = pt_root t"
    and "dom (pt_heap t) = set (pt_allocations t)"
    and "distinct (pt_allocations t)"
    and "distinct (kids (pt_heap t) a)"
    and "c \<in> set (kids (pt_heap t) a) \<longleftrightarrow> (\<exists>n. link (pt_heap t) c = Some (Some a, n))"
    and "link (pt_heap t) c = Some (Some a, n) \<Longrightarrow> link (pt_heap t) d = Some (Some a, n) \<Longrightarrow> c = d"
    and "link (pt_heap t) c = Some (Some a, n) \<Longrightarrow> n \<noteq> []"
    and "pt_heap t a = Some e \<Longrightarrow> \<exists>f. se_children_num e = count_word f (length (se_children e))"
    and "pt_heap t a = Some e \<Longrightarrow> \<exists>ps. walk (pt_heap t) (pt_root t) ps = Some a"
    and "pt_heap t a = Some e \<Longrightarrow> slab_addr_ok a"
  using assms unfolding heap_ok_def Let_def by - (elim conjE; blast)+

lemma heap_okI:
  assumes "pt_heap t = h" "pt_root t = r" "pt_allocations t = used"
    and "link h r = Some (None, rn)"
    and "\<And>a n. link h a = Some (None, n) \<Longrightarrow> a = r"
    and "dom h = set used" and "distinct used"
    and "\<And>a. distinct (kids h a)"
    and "\<And>a c. c \<in> set (kids h a) \<longleftrightarrow> (\<exists>n. link h c = Some (Some a, n))"
    and "\<And>a c d n. link h c = Some (Some a, n) \<Longrightarrow> link h d = Some (Some a, n) \<Longrightarrow> c = d"
    and "\<And>a c n. link h c = Some (Some a, n) \<Longrightarrow> n \<noteq> []"
    and "\<And>a e. h a = Some e \<Longrightarrow> \<exists>f. se_children_num e = count_word f (length (se_children e))"
    and "\<And>a e. h a = Some e \<Longrightarrow> \<exists>ps. walk h r ps = Some a"
    and "\<And>a e. h a = Some e \<Longrightarrow> slab_addr_ok a"
  shows "heap_ok t"
  unfolding heap_ok_def Let_def assms(1-3)
  by (intro conjI allI impI) (use assms(4-) in blast)+

lemma link_Some_dom: "link h a = Some x \<Longrightarrow> a \<in> dom h"
  by (auto simp: link_def)

lemma kids_mem_dom: "c \<in> set (kids h a) \<Longrightarrow> a \<in> dom h"
  by (cases "h a") (auto simp: kids_def)

lemma child_named_link:
  assumes "heap_ok t"
  shows "child_named (pt_heap t) a n = Some c \<longleftrightarrow> link (pt_heap t) c = Some (Some a, n)"
proof
  let ?h = "pt_heap t"
  assume "child_named ?h a n = Some c"
  then have "c \<in> set (kids ?h a)" and "has_name ?h n c"
    by (auto simp: child_named_def find_Some_iff)
  with heap_okD(6) [OF assms] obtain m where "link ?h c = Some (Some a, m)" by blast
  with \<open>has_name ?h n c\<close> show "link ?h c = Some (Some a, n)"
    by (auto simp: has_name_def link_def)
next
  let ?h = "pt_heap t"
  assume l: "link ?h c = Some (Some a, n)"
  then have c: "c \<in> set (kids ?h a)" using heap_okD(6) [OF assms] by blast
  have "has_name ?h n c" using l by (auto simp: has_name_def link_def)
  with c obtain d where d: "child_named ?h a n = Some d"
    unfolding child_named_def by (metis find_None_iff option.exhaust)
  then have "d \<in> set (kids ?h a)" and "has_name ?h n d"
    by (auto simp: child_named_def find_Some_iff)
  with heap_okD(6) [OF assms] have "link ?h d = Some (Some a, n)"
    by (auto simp: has_name_def link_def)
  with l d show "child_named ?h a n = Some c" using heap_okD(7) [OF assms] by blast
qed

lemma walk_dom:
  assumes "heap_ok t" and "walk (pt_heap t) (pt_root t) ps = Some a"
  shows "a \<in> dom (pt_heap t)"
proof (cases ps rule: rev_cases)
  case Nil
  with assms show ?thesis using heap_okD(1) [OF assms(1)] by (auto dest: link_Some_dom)
next
  case (snoc qs n)
  with assms show ?thesis
    by (auto simp: walk_snoc child_named_link dest: link_Some_dom split: option.splits)
qed

lemma walk_snoc_link:
  assumes "heap_ok t"
  shows "walk (pt_heap t) (pt_root t) (ps @ [n]) = Some a \<longleftrightarrow>
    (\<exists>p. walk (pt_heap t) (pt_root t) ps = Some p \<and> link (pt_heap t) a = Some (Some p, n))"
  by (auto simp: walk_snoc child_named_link [OF assms] split: option.splits)

lemma walk_inj:
  assumes ok: "heap_ok t"
    and "walk (pt_heap t) (pt_root t) ps = Some a" "walk (pt_heap t) (pt_root t) qs = Some a"
  shows "ps = qs"
  using assms(2,3)
proof (induction ps arbitrary: qs a rule: rev_induct)
  case Nil
  then have "a = pt_root t" by simp
  with Nil.prems(2) heap_okD(1) [OF ok] show ?case
    by (cases qs rule: rev_cases) (auto simp: walk_snoc_link [OF ok])
next
  case (snoc n ps)
  then obtain p where p: "walk (pt_heap t) (pt_root t) ps = Some p"
    and l: "link (pt_heap t) a = Some (Some p, n)" by (auto simp: walk_snoc_link [OF ok])
  then have "a \<noteq> pt_root t" using heap_okD(1) [OF ok] by auto
  with snoc.prems(2) obtain qs' m where qs: "qs = qs' @ [m]"
    by (cases qs rule: rev_cases) auto
  with snoc.prems(2) l have "walk (pt_heap t) (pt_root t) qs' = Some p" and "m = n"
    by (auto simp: walk_snoc_link [OF ok])
  with snoc.IH [OF p] qs show ?case by simp
qed

text \<open>There is room for the count: aligned addresses are fewer than a count word can count.\<close>

lemma allocations_bound:
  assumes "heap_ok t"
  shows "length (pt_allocations t) \<le> 2 ^ 53"
proof -
  have "set (pt_allocations t) \<subseteq> (\<lambda>k. 2048 * k) ` {..< 2 ^ 53}"
  proof
    fix a assume "a \<in> set (pt_allocations t)"
    then obtain e where "pt_heap t a = Some e" using heap_okD(3) [OF assms] by auto
    from heap_okD(11) [OF assms this] have "2048 dvd a" and "a < 2 ^ 64"
      by (simp_all add: slab_addr_ok_def)
    then show "a \<in> (\<lambda>k. 2048 * k) ` {..< 2 ^ 53}" by (auto elim!: dvdE)
  qed
  then have "card (set (pt_allocations t)) \<le> card ((\<lambda>k. 2048 * k) ` {..< (2::nat) ^ 53})"
    by (rule card_mono [rotated]) simp
  also have "\<dots> \<le> 2 ^ 53" by (rule card_image_le [THEN le_trans]) simp_all
  finally show ?thesis using distinct_card [OF heap_okD(4) [OF assms]] by simp
qed

lemma kids_bound:
  assumes "heap_ok t"
  shows "length (kids (pt_heap t) a) \<le> 2 ^ 53"
proof -
  have "set (kids (pt_heap t) a) \<subseteq> set (pt_allocations t)"
    using heap_okD(3,6) [OF assms] by (fastforce dest: link_Some_dom)
  then have "card (set (kids (pt_heap t) a)) \<le> card (set (pt_allocations t))"
    by (rule card_mono [rotated]) simp
  with allocations_bound [OF assms] show ?thesis
    by (simp add: distinct_card heap_okD(4,5) [OF assms])
qed

lemma kids_small:
  "heap_ok t \<Longrightarrow> pt_heap t a = Some e \<Longrightarrow> Suc (length (se_children e)) < max_children"
  using kids_bound [of t a] by (simp add: kids_def max_children_def)

section \<open>Adding a child\<close>

lemma has_name_link: "has_name h n c \<longleftrightarrow> (\<exists>p. link h c = Some (p, n))"
  by (auto simp: has_name_def link_def split: option.splits)

definition with_child :: "addr \<Rightarrow> string \<Rightarrow> addr \<Rightarrow> store_entry \<Rightarrow> entry_heap \<Rightarrow> entry_heap" where
  "with_child a token cur e h =
     h(a \<mapsto> (init_store_entry\<lparr>se_dir_name := token\<rparr>)\<lparr>se_parent := Some cur\<rparr>,
       cur \<mapsto> e\<lparr>se_children := a # se_children e, se_children_num := se_children_num e + 1\<rparr>)"

lemma add_child_Inr:
  assumes "add_child slab token cur t = Inr t'"
  obtains a e where "slab (pt_allocations t) = Some a" and "pt_heap t cur = Some e"
    and "length token < DIR_NAME_SIZE"
    and "t' = t\<lparr>pt_heap := with_child a token cur e (pt_heap t),
      pt_allocations := a # pt_allocations t\<rparr>"
  using assms by (auto simp: add_child_def with_child_def Let_def split: option.splits if_splits)

lemma with_child_link:
  assumes "h cur = Some e" and "a \<noteq> cur"
  shows "link (with_child a token cur e h) x = (if x = a then Some (Some cur, token) else link h x)"
  using assms by (auto simp: link_def with_child_def init_store_entry_def)

lemma with_child_kids:
  assumes "h cur = Some e" and "a \<noteq> cur"
  shows "kids (with_child a token cur e h) x =
    (if x = a then [] else if x = cur then a # kids h cur else kids h x)"
  using assms by (auto simp: kids_def with_child_def init_store_entry_def)

lemma with_child_named:
  assumes "h cur = Some e" and "a \<noteq> cur" and "\<forall>b. a \<notin> set (kids h b)"
  shows "child_named (with_child a token cur e h) b n =
    (if b = a then None else if b = cur \<and> n = token then Some a else child_named h b n)"
proof -
  have same: "List.find (has_name (with_child a token cur e h) n) (kids h x) =
      List.find (has_name h n) (kids h x)" for x
    using assms by (intro find_cong refl) (auto simp: has_name_link with_child_link)
  have "has_name (with_child a token cur e h) n a \<longleftrightarrow> n = token"
    using assms by (auto simp: has_name_link with_child_link)
  then show ?thesis
    using assms same by (auto simp: child_named_def with_child_kids)
qed

lemma with_child_walk:
  assumes ok: "heap_ok t" and cur: "walk (pt_heap t) (pt_root t) pc = Some cur"
    and e: "pt_heap t cur = Some e" and fresh: "a \<notin> dom (pt_heap t)"
    and none: "child_named (pt_heap t) cur token = None"
  shows "walk (with_child a token cur e (pt_heap t)) (pt_root t) =
    (walk (pt_heap t) (pt_root t))(pc @ [token] \<mapsto> a)"
proof
  let ?h = "pt_heap t" and ?h' = "with_child a token cur e (pt_heap t)" and ?r = "pt_root t"
  have ne: "a \<noteq> cur" using e fresh by auto
  have nk: "\<forall>b. a \<notin> set (kids ?h b)"
    using heap_okD(6) [OF ok] fresh by (auto dest: link_Some_dom)
  note named = with_child_named [where h = ?h and cur = cur and token = token, OF e ne nk]
  fix ps
  show "walk ?h' ?r ps = ((walk ?h ?r)(pc @ [token] \<mapsto> a)) ps"
  proof (induction ps rule: rev_induct)
    case Nil
    show ?case by simp
  next
    case (snoc n ps)
    have below: "walk ?h ?r (pc @ [token]) = None" using cur none by (simp add: walk_snoc)
    show ?case
    proof (cases "walk ?h ?r ps")
      case None
      then show ?thesis using snoc cur below
        by (auto simp: walk_snoc named walk_append split: option.splits if_splits)
    next
      case (Some b)
      with below have "ps \<noteq> pc @ [token]" by auto
      moreover have "b \<noteq> a" using walk_dom [OF ok Some] fresh by auto
      moreover have "b = cur \<longleftrightarrow> ps = pc" using walk_inj [OF ok] Some cur by auto
      ultimately show ?thesis using snoc Some by (auto simp: walk_snoc named)
    qed
  qed
qed

lemma heap_ok_add_child:
  assumes ok: "heap_ok t" and slab: "slab_sound slab"
    and cur: "walk (pt_heap t) (pt_root t) pc = Some cur"
    and none: "child_named (pt_heap t) cur token = None" and token: "token \<noteq> []"
    and add: "add_child slab token cur t = Inr t'"
  obtains a e where "a \<notin> dom (pt_heap t)" and "pt_heap t cur = Some e"
    and "pt_heap t' = with_child a token cur e (pt_heap t)" and "pt_root t' = pt_root t"
    and "pt_allocations t' = a # pt_allocations t"
    and "walk (pt_heap t') (pt_root t') = (walk (pt_heap t) (pt_root t))(pc @ [token] \<mapsto> a)"
    and "heap_ok t'"
proof -
  from add obtain a e where a: "slab (pt_allocations t) = Some a" and e: "pt_heap t cur = Some e"
    and t': "t' = t\<lparr>pt_heap := with_child a token cur e (pt_heap t),
      pt_allocations := a # pt_allocations t\<rparr>"
    by (rule add_child_Inr)
  let ?h = "pt_heap t" and ?h' = "with_child a token cur e (pt_heap t)" and ?r = "pt_root t"
  from a slab have fresh: "a \<notin> dom ?h" and aok: "slab_addr_ok a"
    using heap_okD(3) [OF ok] by (auto simp: slab_sound_def)
  from e fresh have ne: "a \<noteq> cur" by auto
  note link' = with_child_link [where h = ?h and cur = cur, OF e ne, of token]
  note kids' = with_child_kids [where h = ?h and cur = cur, OF e ne, of token]
  note walk' = with_child_walk [OF ok cur e fresh none]
  note D = heap_okD [OF ok]
  have linka: "link ?h a = None" using fresh by (auto simp: link_def)
  have nolink: "\<nexists>n. link ?h c = Some (Some a, n)" for c
    using D(6) [of c a] fresh by (auto simp: kids_def split: option.splits)
  have notok: "link ?h c \<noteq> Some (Some cur, token)" for c
    using none child_named_link [OF ok, of cur token c] by auto
  obtain rn where rn: "link ?h ?r = Some (None, rn)" using D(1) by blast
  have "heap_ok t'"
  proof (rule heap_okI [where h = ?h' and r = ?r and used = "a # pt_allocations t"])
    show "pt_heap t' = ?h'" "pt_root t' = ?r" "pt_allocations t' = a # pt_allocations t"
      by (simp_all add: t')
    show "link ?h' ?r = Some (None, rn)" using rn linka by (auto simp: link')
    show "b = ?r" if "link ?h' b = Some (None, n)" for b n
      using that D(2) by (auto simp: link' split: if_splits)
    show "dom ?h' = set (a # pt_allocations t)"
      using D(3) e by (auto simp: with_child_def)
    show "distinct (a # pt_allocations t)" using D(3,4) fresh by auto
    show "distinct (kids ?h' b)" for b
      using D(5) D(6) [of a cur] linka by (auto simp: kids')
    show "(c \<in> set (kids ?h' b)) = (\<exists>n. link ?h' c = Some (Some b, n))" for b c
      using D(6) [of c b] nolink linka ne by (auto simp: kids' link')
    show "c = d" if "link ?h' c = Some (Some b, n)" "link ?h' d = Some (Some b, n)" for b c d n
      using that D(7) notok by (auto simp: link' split: if_splits)
    show "n \<noteq> []" if "link ?h' c = Some (Some b, n)" for b c n
      using that D(8) token by (auto simp: link' split: if_splits)
    show "\<exists>f. se_children_num x = count_word f (length (se_children x))" if "?h' b = Some x" for b x
    proof -
      have k: "length (se_children e) < max_children" using kids_small [OF ok e] by simp
      obtain f where f: "se_children_num e = count_word f (length (se_children e))"
        using D(9) [OF e] by blast
      consider "b = a" | "b = cur" | "b \<noteq> a" "b \<noteq> cur" by blast
      then show ?thesis
      proof cases
        case 1
        then have "se_children_num x = count_word False (length (se_children x))"
          using that ne by (auto simp: with_child_def init_store_entry_def count_word_def)
        then show ?thesis ..
      next
        case 2
        then have "se_children_num x = count_word f (length (se_children x))"
          using that f count_word_ops(4) [OF k, of f] by (auto simp: with_child_def)
        then show ?thesis ..
      next
        case 3
        then show ?thesis using that D(9) by (simp add: with_child_def)
      qed
    qed
    show "\<exists>ps. walk ?h' ?r ps = Some b" if "?h' b = Some x" for b x
    proof (cases "b = a")
      case True
      then show ?thesis unfolding walk' by auto
    next
      case False
      with that e obtain y where "?h b = Some y" by (auto simp: with_child_def split: if_splits)
      from D(10) [OF this] obtain ps where ps: "walk ?h ?r ps = Some b" by blast
      have "ps \<noteq> pc @ [token]" using ps cur none by (auto simp: walk_snoc)
      with ps show ?thesis unfolding walk' by auto
    qed
    show "slab_addr_ok b" if "?h' b = Some x" for b x
      using that D(11) aok e by (auto simp: with_child_def split: if_splits)
  qed
  with fresh e t' walk' show thesis by (intro that [of a e]) auto
qed

section \<open>Changing the mark of an entry\<close>

lemma walk_same:
  assumes "\<And>x. link h' x = link h x" and "\<And>x. kids h' x = kids h x"
  shows "walk h' = walk h"
proof -
  have "has_name h' = has_name h" by (intro ext) (auto simp: has_name_link assms(1))
  then have "child_named h' = child_named h" by (intro ext) (simp add: child_named_def assms(2))
  then have "walk h' a ps = walk h a ps" for a ps
    by (induction ps arbitrary: a) (auto split: option.splits)
  then show ?thesis by (intro ext)
qed

definition with_num :: "addr \<Rightarrow> 64 word \<Rightarrow> path_tree \<Rightarrow> path_tree" where
  "with_num a w t =
     t\<lparr>pt_heap := (pt_heap t)(a \<mapsto> (the (pt_heap t a))\<lparr>se_children_num := w\<rparr>)\<rparr>"

lemma with_num_simps:
  assumes "pt_heap t a = Some e"
  shows "pt_root (with_num a w t) = pt_root t"
    and "pt_allocations (with_num a w t) = pt_allocations t"
    and "link (pt_heap (with_num a w t)) x = link (pt_heap t) x"
    and "kids (pt_heap (with_num a w t)) x = kids (pt_heap t) x"
    and "walk (pt_heap (with_num a w t)) = walk (pt_heap t)"
    and "pt_heap (with_num a w t) = (pt_heap t)(a \<mapsto> e\<lparr>se_children_num := w\<rparr>)"
proof -
  show "link (pt_heap (with_num a w t)) x = link (pt_heap t) x"
    "kids (pt_heap (with_num a w t)) x = kids (pt_heap t) x" for x
    using assms by (auto simp: with_num_def link_def kids_def)
  then show "walk (pt_heap (with_num a w t)) = walk (pt_heap t)" by (rule walk_same)
qed (use assms in \<open>simp_all add: with_num_def\<close>)

lemma heap_ok_with_num:
  assumes ok: "heap_ok t" and e: "pt_heap t a = Some e"
    and w: "w = count_word f (length (se_children e))"
  shows "heap_ok (with_num a w t)"
proof -
  note S = with_num_simps [OF e, of w] and D = heap_okD [OF ok]
  obtain rn where "link (pt_heap t) (pt_root t) = Some (None, rn)" using D(1) by blast
  note rn = this
  show ?thesis
  proof (rule heap_okI [OF refl refl refl, of _ rn], unfold S(1-5))
    show "dom (pt_heap (with_num a w t)) = set (pt_allocations t)"
      using D(3) e by (auto simp: S(6))
    show "\<exists>f. se_children_num x = count_word f (length (se_children x))"
      if "pt_heap (with_num a w t) b = Some x" for b x
    proof (cases "b = a")
      case True
      with that have "se_children_num x = count_word f (length (se_children x))"
        unfolding S(6) using w by auto
      then show ?thesis ..
    next
      case False
      with that D(9) show ?thesis unfolding S(6) by simp
    qed
    show "\<exists>ps. walk (pt_heap t) (pt_root t) ps = Some b"
      if "pt_heap (with_num a w t) b = Some x" for b x
      using that D(10) e by (auto simp: S(6) split: if_splits)
    show "slab_addr_ok b"
      if "pt_heap (with_num a w t) b = Some x" for b x
      using that D(11) e by (auto simp: S(6) split: if_splits)
  qed (rule rn D(4) D(5) D(6) | erule D(2) D(8) | erule (1) D(7))+
qed

lemma explicited_word:
  assumes "heap_ok t" and "pt_heap t a = Some e"
  obtains "se_children_num e = count_word (explicited e) (length (se_children e))"
    and "child_count e = 0 \<longleftrightarrow> se_children e = []"
proof -
  from heap_okD(9) [OF assms] obtain f
    where f: "se_children_num e = count_word f (length (se_children e))" by blast
  have k: "length (se_children e) < max_children" using kids_small [OF assms] by simp
  have "explicited e = f" by (simp add: explicited_def f count_word_ops(1) [OF k])
  moreover have "child_count e = 0 \<longleftrightarrow> se_children e = []"
    by (simp add: child_count_def f count_word_ops(2) [OF k] word_of_nat_eq_0 [OF k])
  ultimately show thesis using f by (intro that) simp_all
qed

lemma set_explicited_eq:
  assumes "heap_ok t" and "pt_heap t a = Some e"
  shows "set_explicited a t = Inr (with_num a (count_word True (length (se_children e))) t)"
proof -
  have k: "length (se_children e) < max_children" using kids_small [OF assms] by simp
  from assms show ?thesis
    by (rule explicited_word) (simp add: set_explicited_def with_num_def assms(2) count_word_ops(3) [OF k])
qed

lemma count_word_False: "count_word False k = word_of_nat k"
  by (simp add: count_word_def)

lemma clear_explicited_eq:
  assumes "heap_ok t" and "pt_heap t a = Some e"
  shows "clear_explicited a t = Inr (with_num a (count_word False (length (se_children e))) t)"
proof -
  have k: "length (se_children e) < max_children" using kids_small [OF assms] by simp
  from assms show ?thesis
    by (rule explicited_word)
      (simp add: clear_explicited_def with_num_def assms(2) count_word_ops(2) [OF k] count_word_False)
qed

section \<open>Freeing a childless entry\<close>

definition without_child :: "addr \<Rightarrow> addr \<Rightarrow> store_entry \<Rightarrow> entry_heap \<Rightarrow> entry_heap" where
  "without_child a p e h =
     h(p \<mapsto> e\<lparr>se_children_num := se_children_num e - 1, se_children := remove1 a (se_children e)\<rparr>,
       a := None)"

lemma without_child_link:
  assumes "h p = Some e"
  shows "link (without_child a p e h) x = (if x = a then None else link h x)"
  using assms by (auto simp: link_def without_child_def)

lemma without_child_kids:
  assumes "h p = Some e"
  shows "kids (without_child a p e h) x =
    (if x = a then [] else if x = p then remove1 a (kids h p) else kids h x)"
  using assms by (auto simp: kids_def without_child_def)

lemma find_remove1:
  assumes "distinct xs" "\<not> P a"
  shows "List.find P (remove1 a xs) = List.find P xs"
  using assms by (induction xs) auto

lemma without_child_named:
  assumes ok: "heap_ok t" and l: "link (pt_heap t) a = Some (Some p, n)"
    and p: "pt_heap t p = Some e" and leaf: "kids (pt_heap t) a = []"
  shows "child_named (without_child a p e (pt_heap t)) b m =
    (if b = p \<and> m = n then None else child_named (pt_heap t) b m)"
proof -
  let ?h = "pt_heap t" and ?h' = "without_child a p e (pt_heap t)"
  have ap: "a \<in> set (kids ?h p)" using heap_okD(6) [OF ok] l by blast
  then have ne: "a \<noteq> p" using leaf by auto
  have hn: "has_name ?h' m c \<longleftrightarrow> c \<noteq> a \<and> has_name ?h m c" for c
    by (auto simp: has_name_link without_child_link [where h = ?h, OF p])
  have own: "a \<in> set (kids ?h b) \<Longrightarrow> b = p" for b
    using heap_okD(6) [OF ok] l by auto
  have find': "List.find (has_name ?h' m) xs = List.find (has_name ?h m) xs"
    if "a \<notin> set xs" for xs using that by (intro find_cong refl) (auto simp: hn)
  have dist: "distinct (kids ?h p)" by (rule heap_okD(5) [OF ok])
  have rem: "List.find (has_name ?h' m) (remove1 a (kids ?h p)) =
      List.find (has_name ?h m) (remove1 a (kids ?h p))"
    by (rule find') (simp add: dist)
  show ?thesis
  proof (cases "b = p")
    case False
    then have "a \<notin> set (kids ?h b)" using own [of b] by blast
    with False leaf show ?thesis
      by (auto simp: child_named_def without_child_kids [where h = ?h, OF p] find')
  next
    case True
    show ?thesis
    proof (cases "m = n")
      case False
      then have "\<not> has_name ?h m a" using l by (auto simp: has_name_link)
      with True False rem show ?thesis
        by (simp add: child_named_def without_child_kids [where h = ?h, OF p] ne [symmetric]
            find_remove1 [OF dist])
    next
      case m: True
      have "\<not> has_name ?h m c" if "c \<in> set (remove1 a (kids ?h p))" for c
      proof
        assume "has_name ?h m c"
        moreover from that dist have "c \<in> set (kids ?h p)" and "c \<noteq> a" by auto
        ultimately have "link ?h c = Some (Some p, n)"
          using heap_okD(6) [OF ok, of c p] m by (auto simp: has_name_link)
        with heap_okD(7) [OF ok this l] \<open>c \<noteq> a\<close> show False by simp
      qed
      then have "List.find (has_name ?h m) (remove1 a (kids ?h p)) = None"
        by (simp add: find_None_iff del: set_remove1_eq)
      with True m rem show ?thesis
        by (simp add: child_named_def without_child_kids [where h = ?h, OF p] ne [symmetric])
    qed
  qed
qed

lemma without_child_walk:
  assumes ok: "heap_ok t" and a: "walk (pt_heap t) (pt_root t) (q @ [n]) = Some a"
    and l: "link (pt_heap t) a = Some (Some p, n)"
    and p: "pt_heap t p = Some e" and leaf: "kids (pt_heap t) a = []"
  shows "walk (without_child a p e (pt_heap t)) (pt_root t) =
    (walk (pt_heap t) (pt_root t))(q @ [n] := None)"
proof
  let ?h = "pt_heap t" and ?r = "pt_root t"
  have q: "walk ?h ?r q = Some p" using a l by (auto simp: walk_snoc_link [OF ok])
  note named = without_child_named [OF ok l p leaf]
  fix ps
  show "walk (without_child a p e ?h) ?r ps = ((walk ?h ?r)(q @ [n] := None)) ps"
  proof (induction ps rule: rev_induct)
    case Nil
    show ?case by simp
  next
    case (snoc m ps)
    have below: "walk ?h ?r ((q @ [n]) @ [m]) = None"
      unfolding walk_snoc [of _ _ "q @ [n]"] a using leaf by (simp add: child_named_def)
    show ?case
    proof (cases "ps = q @ [n]")
      case True
      then have "walk (without_child a p e ?h) ?r ps = None" using snoc by simp
      then have "walk (without_child a p e ?h) ?r (ps @ [m]) = None" unfolding walk_snoc by simp
      with below True show ?thesis by simp
    next
      case False
      with snoc have s: "walk (without_child a p e ?h) ?r ps = walk ?h ?r ps" by simp
      show ?thesis
      proof (cases "walk ?h ?r ps")
        case None
        then show ?thesis by (simp add: walk_snoc s)
      next
        case (Some b)
        have "b = p \<longleftrightarrow> ps = q" using walk_inj [OF ok] Some q by auto
        with Some show ?thesis by (auto simp: walk_snoc s named)
      qed
    qed
  qed
qed

end
