(* ===== verification/Path_Tree_Ops.thy ===== *)
theory Path_Tree_Ops
  imports Path_Tree_Walk
begin

text \<open>
  What the operations of \<open>path_store/path_store.c\<close> do to the tree of entries, in terms of its
  map \<open>walk\<close> from name lists to entries: where the search stops, which entries the loop of
  \<open>path_store_add\<close> creates and which ones the climb of \<open>path_store_rm\<close> frees. The
  contents of the tree are the set \<open>explicit_paths\<close> of the name lists whose entry is marked;
  in a \<open>pruned\<close> tree they determine which entries there are.
\<close>

section \<open>Freeing a childless entry keeps the tree\<close>

lemma heap_ok_free_child:
  assumes ok: "heap_ok t" and a: "walk (pt_heap t) (pt_root t) (q @ [n]) = Some a"
    and l: "link (pt_heap t) a = Some (Some p, n)" and leaf: "kids (pt_heap t) a = []"
  obtains e t' where "pt_heap t p = Some e" and "free_child a p t = Inr t'"
    and "pt_heap t' = without_child a p e (pt_heap t)" and "pt_root t' = pt_root t"
    and "pt_allocations t' = remove1 a (pt_allocations t)"
    and "walk (pt_heap t') (pt_root t') = (walk (pt_heap t) (pt_root t))(q @ [n] := None)"
    and "heap_ok t'"
proof -
  let ?h = "pt_heap t" and ?r = "pt_root t"
  note D = heap_okD [OF ok]
  have ap: "a \<in> set (kids ?h p)" using D(6) l by blast
  then have ne: "a \<noteq> p" using leaf by auto
  from ap obtain e where p: "?h p = Some e" by (auto dest: kids_mem_dom)
  let ?h' = "without_child a p e ?h"
  define t' where "t' = t\<lparr>pt_heap := ?h', pt_allocations := remove1 a (pt_allocations t)\<rparr>"
  note link' = without_child_link [where h = ?h and p = p, OF p]
  note kids' = without_child_kids [where h = ?h and p = p, OF p]
  note walk' = without_child_walk [OF ok a l p leaf]
  have aroot: "a \<noteq> ?r" using l D(1) by auto
  obtain rn where rn: "link ?h ?r = Some (None, rn)" using D(1) by blast
  have dom': "dom ?h' = dom ?h - {a}"
    using p ne by (auto simp: without_child_def)
  have "heap_ok t'"
  proof (rule heap_okI [where h = ?h' and r = ?r and used = "remove1 a (pt_allocations t)"])
    show "pt_heap t' = ?h'" "pt_root t' = ?r" "pt_allocations t' = remove1 a (pt_allocations t)"
      by (simp_all add: t'_def)
    show "link ?h' ?r = Some (None, rn)" using rn aroot by (simp add: link')
    show "b = ?r" if "link ?h' b = Some (None, m)" for b m
      using that D(2) by (auto simp: link' split: if_splits)
    show "dom ?h' = set (remove1 a (pt_allocations t))"
      using D(3,4) by (simp add: dom')
    show "distinct (remove1 a (pt_allocations t))" using D(4) by simp
    show "distinct (kids ?h' b)" for b using D(5) by (simp add: kids')
    show "(c \<in> set (kids ?h' b)) = (\<exists>m. link ?h' c = Some (Some b, m))" for b c
    proof (cases "b = a")
      case True
      have "c \<notin> set (kids ?h a)" using leaf by simp
      with D(6) [of c a] True show ?thesis by (auto simp: kids' link')
    next
      case False
      have "a \<in> set (kids ?h b) \<Longrightarrow> b = p" using D(6) [of a b] l by auto
      with False D(6) [of c b] D(5) [of p] show ?thesis by (auto simp: kids' link')
    qed
    show "c = d" if "link ?h' c = Some (Some b, m)" "link ?h' d = Some (Some b, m)" for b c d m
      using that D(7) by (auto simp: link' split: if_splits)
    show "m \<noteq> []" if "link ?h' c = Some (Some b, m)" for b c m
      using that D(8) by (auto simp: link' split: if_splits)
    show "\<exists>f. se_children_num x = count_word f (length (se_children x))" if "?h' b = Some x" for b x
    proof (cases "b = p")
      case True
      obtain f where f: "se_children_num e = count_word f (length (se_children e))"
        using D(9) [OF p] by blast
      have k: "length (se_children e) < max_children" using kids_small [OF ok p] by simp
      have mem: "a \<in> set (se_children e)" using ap p by (simp add: kids_def)
      then have "0 < length (se_children e)" by (cases "se_children e") auto
      with f count_word_ops(5) [OF k, of f] that True ne mem
      have "se_children_num x = count_word f (length (se_children x))"
        by (auto simp: without_child_def length_remove1 split: if_splits)
      then show ?thesis ..
    next
      case False
      with that D(9) show ?thesis by (auto simp: without_child_def split: if_splits)
    qed
    show "\<exists>ps. walk ?h' ?r ps = Some b" if "?h' b = Some x" for b x
    proof -
      from that have "b \<in> dom ?h'" by blast
      then have "b \<noteq> a" and "b \<in> dom ?h" by (simp_all add: dom')
      then obtain ps where ps: "walk ?h ?r ps = Some b" using D(10) by blast
      with a \<open>b \<noteq> a\<close> have "ps \<noteq> q @ [n]" by auto
      with ps show ?thesis unfolding walk' by auto
    qed
    show "slab_addr_ok b" if "?h' b = Some x" for b x
    proof -
      from that have "b \<in> dom ?h'" by blast
      then have "b \<in> dom ?h" by (simp add: dom')
      with D(11) show ?thesis by blast
    qed
  qed
  moreover have "free_child a p t = Inr t'"
    by (simp add: free_child_def p t'_def without_child_def)
  ultimately show thesis using p walk' by (intro that [of e t']) (simp_all add: t'_def)
qed

section \<open>The search\<close>

text \<open>
  Where the search stops: at the entry of the longest beginning of the tokens that is in the tree.
\<close>

definition stops_at :: "path_tree \<Rightarrow> string list \<Rightarrow> addr \<Rightarrow> nat \<Rightarrow> bool" where
  "stops_at t ts cur d =
     (d \<le> length ts \<and> walk (pt_heap t) (pt_root t) (take d ts) = Some cur \<and>
      (d < length ts \<longrightarrow> child_named (pt_heap t) cur (ts ! d) = None))"

lemma scan_children_find:
  assumes "\<forall>c \<in> set cs. c \<in> dom h" and "d < length idx" and "str_at b (idx ! d) = Inr s"
  shows "scan_children h b idx d cs = Inr (List.find (has_name h s) cs)"
  using assms by (induction cs) (auto simp: has_name_def)

lemma kids_dom: "heap_ok t \<Longrightarrow> c \<in> set (kids (pt_heap t) a) \<Longrightarrow> c \<in> dom (pt_heap t)"
  using heap_okD(6) [of t c a] by (auto dest: link_Some_dom)

lemma scan_children_named:
  assumes ok: "heap_ok t" and e: "pt_heap t a = Some e" and "d < length idx"
    and "str_at b (idx ! d) = Inr s"
  shows "scan_children (pt_heap t) b idx d (se_children e) = Inr (child_named (pt_heap t) a s)"
proof -
  have k: "kids (pt_heap t) a = se_children e" using e by (simp add: kids_def)
  have "\<forall>c \<in> set (se_children e). c \<in> dom (pt_heap t)"
    using kids_dom [OF ok, of _ a] by (auto simp: k)
  with assms show ?thesis by (simp add: scan_children_find child_named_def k)
qed

lemma path_search_loop_stops:
  assumes ok: "heap_ok t" and toks: "holds_tokens b idx ts"
    and d: "d < length ts" and w: "walk (pt_heap t) (pt_root t) (take d ts) = Some a"
  shows "\<exists>cur d'. path_search_loop (pt_heap t) b idx (length ts) a d = Inr (cur, d') \<and>
    d \<le> d' \<and> stops_at t ts cur d'"
  using d w
proof (induction "length ts - d" arbitrary: d a)
  case 0
  then show ?case by simp
next
  case (Suc m)
  obtain e where e: "pt_heap t a = Some e" using walk_dom [OF ok Suc.prems(2)] by auto
  have di: "d < length idx" and s: "str_at b (idx ! d) = Inr (ts ! d)"
    using toks Suc.prems(1) by (auto simp: holds_tokens_def)
  note scan = scan_children_named [OF ok e di s]
  have tk: "take (Suc d) ts = take d ts @ [ts ! d]"
    using Suc.prems(1) by (rule take_Suc_conv_app_nth)
  show ?case
  proof (cases "child_named (pt_heap t) a (ts ! d)")
    case None
    then show ?thesis using Suc.prems e scan
      by (subst path_search_loop.simps) (simp add: stops_at_def)
  next
    case (Some c)
    then have wc: "walk (pt_heap t) (pt_root t) (take (Suc d) ts) = Some c"
      unfolding tk by (simp add: walk_snoc Suc.prems(2))
    show ?thesis
    proof (cases "Suc d = length ts")
      case True
      then show ?thesis using e scan Some di wc
        by (subst path_search_loop.simps) (simp add: stops_at_def)
    next
      case False
      with Suc.prems(1) have "Suc d < length ts" by simp
      moreover have "m = length ts - Suc d" using Suc.hyps(2) by simp
      ultimately obtain cur d' where
        "path_search_loop (pt_heap t) b idx (length ts) c (Suc d) = Inr (cur, d')"
        and "Suc d \<le> d'" and "stops_at t ts cur d'" using Suc.hyps(1) wc by blast
      then show ?thesis using e scan Some di False
        by (subst path_search_loop.simps) auto
    qed
  qed
qed
text \<open>
  For the root path no component is written, and the macro compares with whatever offset the array
  holds from the last path. The offset is 0 or 1, where the cut buffer holds an empty string, and no
  child has an empty name.
\<close>

lemma path_search_loop_root:
  assumes ok: "heap_ok t" and idx: "idx ! 0 \<le> 1" "idx \<noteq> []"
  shows "path_search_loop (pt_heap t) (NUL # NUL # r) idx 0 (pt_root t) 0 = Inr (pt_root t, 0)"
proof -
  obtain e where e: "pt_heap t (pt_root t) = Some e"
    using heap_okD(1) [OF ok] by (auto simp: link_def)
  have s: "str_at (NUL # NUL # r) (idx ! 0) = Inr []"
    using idx(1) by (cases "idx ! 0") (auto simp: str_at_def terminated_def c_str_def)
  have "child_named (pt_heap t) (pt_root t) [] = None"
    using child_named_link [OF ok] heap_okD(8) [OF ok] by (metis option.exhaust)
  with e scan_children_named [OF ok e _ s] idx(2) show ?thesis
    by (subst path_search_loop.simps) simp
qed

lemma path_search_stops:
  assumes ok: "heap_ok t" and toks: "holds_tokens b idx ts"
    and root: "ts = [] \<Longrightarrow> (\<exists>r. b = NUL # NUL # r) \<and> idx ! 0 \<le> 1 \<and> idx \<noteq> []"
  shows "\<exists>cur d. path_search_loop (pt_heap t) b idx (length ts) (pt_root t) 0 = Inr (cur, d) \<and>
    stops_at t ts cur d"
proof (cases "ts = []")
  case True
  with root path_search_loop_root [OF ok] show ?thesis by (auto simp: stops_at_def)
next
  case False
  with path_search_loop_stops [OF ok toks, of 0 "pt_root t"] show ?thesis by auto
qed

lemma stops_at_unique:
  assumes "stops_at t ts cur d" and "stops_at t ts cur' d'"
  shows "cur' = cur \<and> d' = d"
proof -
  have *: False if "stops_at t ts c k" "stops_at t ts c' k'" "k < k'" for c c' k k'
  proof -
    from that have k: "k < length ts" and w: "walk (pt_heap t) (pt_root t) (take (Suc k) ts) = None"
      by (auto simp: stops_at_def take_Suc_conv_app_nth walk_snoc)
    have eq: "take k' ts = take (Suc k) ts @ drop (Suc k) (take k' ts)"
      using that(3) by (metis append_take_drop_id min.absorb1 Suc_leI take_take)
    have "walk (pt_heap t) (pt_root t) (take k' ts) = None"
      by (subst eq) (simp only: walk_append w option.case)
    with that(2) show False by (simp add: stops_at_def)
  qed
  from * [OF assms] * [OF assms(2,1)] have "d = d'" by (cases d d' rule: linorder_cases) auto
  with assms show ?thesis by (simp add: stops_at_def)
qed


section \<open>The contents of the tree\<close>

definition marked :: "entry_heap \<Rightarrow> addr \<Rightarrow> bool" where
  "marked h a = (case h a of None \<Rightarrow> False | Some e \<Rightarrow> explicited e)"

definition present :: "path_tree \<Rightarrow> string list set" where
  "present t = dom (walk (pt_heap t) (pt_root t))"

definition explicit_paths :: "path_tree \<Rightarrow> string list set" where
  "explicit_paths t = {ps. \<exists>a. walk (pt_heap t) (pt_root t) ps = Some a \<and> marked (pt_heap t) a}"

text \<open>Every childless entry is the root, one of \<open>except\<close>, or marked.\<close>

definition pruned_but :: "addr set \<Rightarrow> path_tree \<Rightarrow> bool" where
  "pruned_but X t =
     (\<forall>a \<in> dom (pt_heap t). kids (pt_heap t) a = [] \<longrightarrow>
        a = pt_root t \<or> a \<in> X \<or> marked (pt_heap t) a)"

abbreviation pruned :: "path_tree \<Rightarrow> bool" where
  "pruned t \<equiv> pruned_but {} t"

lemma explicit_present: "explicit_paths t \<subseteq> present t"
  by (auto simp: explicit_paths_def present_def)

lemma present_prefix: "ps @ qs \<in> present t \<Longrightarrow> ps \<in> present t"
  by (auto simp: present_def walk_append split: option.splits)

lemma present_Nil [simp]: "[] \<in> present t"
  by (simp add: present_def dom_def)

lemma finite_present:
  assumes "heap_ok t"
  shows "finite (present t)"
proof (rule finite_imageD)
  let ?w = "walk (pt_heap t) (pt_root t)"
  have "(the \<circ> ?w) ` present t \<subseteq> set (pt_allocations t)"
    using heap_okD(3) [OF assms] walk_dom [OF assms] by (auto simp: present_def)
  then show "finite ((the \<circ> ?w) ` present t)" by (rule finite_subset) simp
  show "inj_on (the \<circ> ?w) (present t)"
    by (rule inj_onI) (auto simp: present_def intro: walk_inj [OF assms])
qed

text \<open>The depth of an entry is smaller than the number of entries.\<close>

lemma depth_bound:
  assumes ok: "heap_ok t" and w: "walk (pt_heap t) (pt_root t) ps = Some a"
  shows "length ps < length (pt_allocations t)"
proof -
  let ?w = "\<lambda>k. the (walk (pt_heap t) (pt_root t) (take k ps))"
  have ex: "\<exists>b. walk (pt_heap t) (pt_root t) (take k ps) = Some b" for k
    using present_prefix [of "take k ps" "drop k ps" t] w by (auto simp: present_def)
  have "?w ` {..length ps} \<subseteq> set (pt_allocations t)"
  proof
    fix x assume "x \<in> ?w ` {..length ps}"
    then obtain k where "x = ?w k" by blast
    with ex [of k] have "walk (pt_heap t) (pt_root t) (take k ps) = Some x" by auto
    with walk_dom [OF ok] heap_okD(3) [OF ok] show "x \<in> set (pt_allocations t)" by auto
  qed
  moreover have "inj_on ?w {..length ps}"
  proof (rule inj_onI)
    fix i j assume ij: "i \<in> {..length ps}" "j \<in> {..length ps}" "?w i = ?w j"
    with ex [of i] ex [of j] walk_inj [OF ok] have "take i ps = take j ps" by fastforce
    then have "length (take i ps) = length (take j ps)" by simp
    with ij show "i = j" by simp
  qed
  ultimately have "card {..length ps} \<le> card (set (pt_allocations t))"
    by (intro card_inj_on_le) auto
  with card_length [of "pt_allocations t"] show ?thesis by simp
qed

text \<open>In a pruned tree the entries are the root and the beginnings of the marked paths.\<close>

lemma pruned_present:
  assumes ok: "heap_ok t" and pr: "pruned t"
  shows "present t = insert [] {ps. \<exists>qs. ps @ qs \<in> explicit_paths t}"
proof
  show "insert [] {ps. \<exists>qs. ps @ qs \<in> explicit_paths t} \<subseteq> present t"
    using explicit_present present_prefix present_Nil by blast
  show "present t \<subseteq> insert [] {ps. \<exists>qs. ps @ qs \<in> explicit_paths t}"
  proof
    fix ps assume "ps \<in> present t"
    show "ps \<in> insert [] {ps. \<exists>qs. ps @ qs \<in> explicit_paths t}"
    proof (cases "ps = []")
      case ne: False
      let ?Q = "{rs \<in> present t. \<exists>qs. rs = ps @ qs}"
      have fin: "finite ?Q" and ne': "?Q \<noteq> {}"
        using finite_present [OF ok] \<open>ps \<in> present t\<close> by auto
      have "Max (length ` ?Q) \<in> length ` ?Q" using fin ne' by (intro Max_in) auto
      then obtain rs where rs: "rs \<in> ?Q" and m: "Max (length ` ?Q) = length rs" by blast
      have longest: "length xs \<le> length rs" if "xs \<in> ?Q" for xs
        using Max_ge [of "length ` ?Q" "length xs"] fin that m by auto
      from rs obtain qs a where a: "walk (pt_heap t) (pt_root t) rs = Some a" and q: "rs = ps @ qs"
        by (auto simp: present_def)
      have leaf: "kids (pt_heap t) a = []"
      proof (rule ccontr)
        assume "kids (pt_heap t) a \<noteq> []"
        then obtain c where "c \<in> set (kids (pt_heap t) a)" by (cases "kids (pt_heap t) a") auto
        then obtain n where "link (pt_heap t) c = Some (Some a, n)" using heap_okD(6) [OF ok] by blast
        with a have "rs @ [n] \<in> present t" by (auto simp: present_def walk_snoc_link [OF ok])
        with q longest [of "rs @ [n]"] show False by auto
      qed
      have "a \<noteq> pt_root t" using walk_inj [OF ok a, of "[]"] ne q by auto
      with pr leaf walk_dom [OF ok a] have "marked (pt_heap t) a" by (auto simp: pruned_but_def)
      with a have "rs \<in> explicit_paths t" by (auto simp: explicit_paths_def)
      with q show ?thesis by auto
    qed simp
  qed
qed


text \<open>There are as many entries as there are beginnings of protected paths.\<close>

lemma entries_count:
  assumes ok: "heap_ok t"
  shows "length (pt_allocations t) = card (present t)"
proof -
  let ?w = "the \<circ> walk (pt_heap t) (pt_root t)"
  have "?w ` present t = set (pt_allocations t)"
  proof
    show "?w ` present t \<subseteq> set (pt_allocations t)"
      using heap_okD(3) [OF ok] walk_dom [OF ok] by (auto simp: present_def)
    show "set (pt_allocations t) \<subseteq> ?w ` present t"
    proof
      fix a assume "a \<in> set (pt_allocations t)"
      then obtain e where "pt_heap t a = Some e" using heap_okD(3) [OF ok] by auto
      then obtain ps where "walk (pt_heap t) (pt_root t) ps = Some a" using heap_okD(10) [OF ok] by blast
      then show "a \<in> ?w ` present t" by (force simp: present_def)
    qed
  qed
  moreover have "inj_on ?w (present t)"
    by (rule inj_onI) (auto simp: present_def intro: walk_inj [OF ok])
  ultimately have "card (set (pt_allocations t)) = card (present t)" by (metis card_image)
  with heap_okD(4) [OF ok] show ?thesis by (simp add: distinct_card)
qed

lemma entries_grow_sub:
  assumes "heap_ok t" "pruned t" "heap_ok t'" "pruned t'" and ex: "explicit_paths t' \<subseteq> insert ts (explicit_paths t)"
  shows "length (pt_allocations t') \<le> length (pt_allocations t) + length ts"
proof -
  have "present t' \<subseteq> present t \<union> (\<lambda>k. take k ts) ` {1..length ts}"
  proof
    fix ps assume p: "ps \<in> present t'"
    show "ps \<in> present t \<union> (\<lambda>k. take k ts) ` {1..length ts}"
    proof (cases "ps \<in> present t")
      case False
      then have "ps \<noteq> []" by auto
      moreover obtain qs where "ts = ps @ qs"
        using p False ex unfolding pruned_present [OF assms(1,2)] pruned_present [OF assms(3,4)] by blast
      ultimately have "ps = take (length ps) ts" "length ps \<in> {1..length ts}" by (cases ps; simp)+
      then show ?thesis by blast
    qed simp
  qed
  then have "card (present t') \<le> card (present t \<union> (\<lambda>k. take k ts) ` {1..length ts})"
    using finite_present [OF assms(1)] by (intro card_mono) auto
  also have "\<dots> \<le> card (present t) + card ((\<lambda>k. take k ts) ` {1..length ts})" by (rule card_Un_le)
  also have "\<dots> \<le> card (present t) + length ts" using card_image_le [of "{1..length ts}" "\<lambda>k. take k ts"] by simp
  finally show ?thesis by (simp add: entries_count assms)
qed


section \<open>What the loop of \<open>path_store_add\<close> does\<close>

text \<open>The slab has an object left as long as fewer than \<open>n\<close> are in use.\<close>

definition slab_roomy :: "nat \<Rightarrow> (addr list \<Rightarrow> addr option) \<Rightarrow> bool" where
  "slab_roomy n slab = (\<forall>used. length used < n \<longrightarrow> slab used \<noteq> None)"

text \<open>The tree \<open>t'\<close> is \<open>t\<close> with unmarked entries for \<open>ps\<close> and its beginnings.\<close>

definition grown :: "path_tree \<Rightarrow> string list \<Rightarrow> addr \<Rightarrow> path_tree \<Rightarrow> bool" where
  "grown t ps a t' =
     (heap_ok t' \<and> pt_root t' = pt_root t \<and>
      walk (pt_heap t') (pt_root t') ps = Some a \<and>
      present t' = present t \<union> (\<lambda>k. take k ps) ` {..length ps} \<and>
      explicit_paths t' = explicit_paths t \<and> pruned_but {a} t')"

lemma marked_with_child:
  assumes ok: "heap_ok t" and e: "pt_heap t cur = Some e" and fresh: "a \<notin> dom (pt_heap t)"
  shows "marked (with_child a token cur e (pt_heap t)) x \<longleftrightarrow> marked (pt_heap t) x"
proof -
  have ne: "a \<noteq> cur" using e fresh by auto
  obtain f where f: "se_children_num e = count_word f (length (se_children e))"
    using heap_okD(9) [OF ok e] by blast
  have k: "Suc (length (se_children e)) < max_children" using kids_small [OF ok e] .
  then have "explicited (e\<lparr>se_children := a # se_children e, se_children_num := se_children_num e + 1\<rparr>)
    \<longleftrightarrow> explicited e"
    using count_word_ops(1,4) [of "length (se_children e)" f] count_word_ops(1) [OF k, of f]
    by (simp add: explicited_def f del: count_word_def split del: if_split)
  with ne e fresh show ?thesis
    by (auto simp: marked_def with_child_def init_store_entry_def explicited_def split: option.splits)
qed


text \<open>One turn: the missing component after the stop gets an entry, and the search stops there.\<close>

lemma grow_step:
  assumes ok: "heap_ok t" and slab: "slab_sound slab" and st: "stops_at t ts cur d"
    and d: "d < length ts" and token: "ts ! d \<noteq> []" and pr: "pruned_but {cur} t"
    and add: "add_child slab (ts ! d) cur t = Inr t'"
  obtains a where "grown t (take (Suc d) ts) a t'" and "stops_at t' ts a (Suc d)"
    and "length (pt_allocations t') = Suc (length (pt_allocations t))"
    and "walk (pt_heap t') (pt_root t') (take d ts) = Some cur"
proof -
  have w: "walk (pt_heap t) (pt_root t) (take d ts) = Some cur"
    and none: "child_named (pt_heap t) cur (ts ! d) = None"
    using st d by (auto simp: stops_at_def)
  have tk: "take (Suc d) ts = take d ts @ [ts ! d]" using d by (rule take_Suc_conv_app_nth)
  obtain a e where fresh: "a \<notin> dom (pt_heap t)" and e: "pt_heap t cur = Some e"
    and h: "pt_heap t' = with_child a (ts ! d) cur e (pt_heap t)" and r: "pt_root t' = pt_root t"
    and al: "pt_allocations t' = a # pt_allocations t"
    and w': "walk (pt_heap t') (pt_root t') =
      (walk (pt_heap t) (pt_root t))(take d ts @ [ts ! d] \<mapsto> a)"
    and ok': "heap_ok t'"
    by (rule heap_ok_add_child [OF ok slab w none token add])
  have at: "walk (pt_heap t') (pt_root t') (take (Suc d) ts) = Some a" by (simp add: w' tk)
  have nokids: "kids (pt_heap t') a = []"
    using fresh e by (auto simp: h with_child_def kids_def init_store_entry_def)
  have pre: "take k ts \<in> present t" if "k \<le> d" for k
  proof -
    have "take d ts = take k ts @ drop k (take d ts)" using that by (metis append_take_drop_id min.absorb1 take_take)
    with w present_prefix [of "take k ts" "drop k (take d ts)" t] show ?thesis
      by (auto simp: present_def)
  qed
  have "present t' = insert (take (Suc d) ts) (present t)"
    by (auto simp: present_def w' tk)
  moreover have "(\<lambda>k. take k (take (Suc d) ts)) ` {..length (take (Suc d) ts)} =
    (\<lambda>k. take k ts) ` {..Suc d}"
    using d by (intro image_cong) auto
  ultimately have present': "present t' = present t \<union>
    (\<lambda>k. take k (take (Suc d) ts)) ` {..length (take (Suc d) ts)}"
    using pre by (auto simp: atMost_Suc)
  have "\<not> marked (pt_heap t) a" using fresh by (auto simp: marked_def)
  moreover have "take (Suc d) ts \<notin> present t"
    by (simp add: present_def tk walk_snoc w none dom_def)
  ultimately have ex': "explicit_paths t' = explicit_paths t"
    unfolding explicit_paths_def h marked_with_child [OF ok e fresh]
    using h w' by (auto simp: tk present_def)
  have "pruned_but {a} t'"
    unfolding pruned_but_def h marked_with_child [OF ok e fresh]
  proof (intro ballI impI)
    fix x assume x: "x \<in> dom (with_child a (ts ! d) cur e (pt_heap t))"
      and k: "kids (with_child a (ts ! d) cur e (pt_heap t)) x = []"
    from k have "x \<noteq> cur" by (auto simp: with_child_def kids_def)
    with x k pr show "x = pt_root t' \<or> x \<in> {a} \<or> marked (pt_heap t) x"
      by (cases "x = a") (auto simp: pruned_but_def r with_child_def kids_def)
  qed
  with ok' r at present' ex' have "grown t (take (Suc d) ts) a t'" by (simp add: grown_def)
  moreover have "stops_at t' ts a (Suc d)"
    using at d nokids by (simp add: stops_at_def child_named_def)
  moreover have "walk (pt_heap t') (pt_root t') (take d ts) = Some cur" using w by (simp add: w')
  ultimately show thesis using al by (intro that) simp_all
qed


lemma grown_refl:
  assumes "heap_ok t" and w: "walk (pt_heap t) (pt_root t) ps = Some a" and "pruned_but {a} t"
  shows "grown t ps a t"
proof -
  have "take k ps \<in> present t" for k
    using present_prefix [of "take k ps" "drop k ps" t] w by (auto simp: present_def)
  with assms show ?thesis by (auto simp: grown_def)
qed

lemma grown_trans:
  assumes "grown t (take k ps) a t1" and "grown t1 ps b t2"
  shows "grown t ps b t2"
proof -
  have "(\<lambda>i. take i (take k ps)) ` {..length (take k ps)} \<subseteq> (\<lambda>i. take i ps) ` {..length ps}"
    by auto
  with assms show ?thesis unfolding grown_def by auto
qed

lemma walk_no_empty:
  assumes "heap_ok t" and "walk (pt_heap t) (pt_root t) ps = Some a"
  shows "[] \<notin> set ps"
  using assms(2)
  by (induction ps arbitrary: a rule: rev_induct)
    (auto simp: walk_snoc_link [OF assms(1)] dest: heap_okD(8) [OF assms(1)])

lemma takeWhile_ne_append:
  "[] \<notin> set xs \<Longrightarrow> takeWhile (\<lambda>w. w \<noteq> []) (xs @ ys) = xs @ takeWhile (\<lambda>w. w \<noteq> []) ys"
  by (induction xs) auto

lemma add_loop_grows:
  assumes slab: "slab_sound slab" and toks: "holds_tokens b idx ts"
    and short: "\<forall>w \<in> set ts. length w < DIR_NAME_SIZE" and roomy: "slab_roomy n slab"
    and "heap_ok t" and "stops_at t ts cur d" and "pruned_but {cur} t"
    and "path_search_loop (pt_heap t) b idx (length ts) c k = Inr (cur, d)"
    and "length (pt_allocations t) + (length ts - d) \<le> n"
    and "length ts - d < rounds"
  shows "\<exists>a t'. grown t (takeWhile (\<lambda>w. w \<noteq> []) ts) a t' \<and>
    add_loop rounds slab b idx (length ts) c k t =
      Inr (if [] \<in> set ts then Inl t' else Inr (a, t'))"
  using assms(5-)
proof (induction rounds arbitrary: t cur d c k)
  case 0
  then show ?case by simp
next
  case (Suc rounds)
  note ok = Suc.prems(1) and st = Suc.prems(2) and pr = Suc.prems(3) and search = Suc.prems(4)
  have dl: "d \<le> length ts" and w: "walk (pt_heap t) (pt_root t) (take d ts) = Some cur"
    using st by (auto simp: stops_at_def)
  have ne: "[] \<notin> set (take d ts)" using walk_no_empty [OF ok w] .
  note refl = grown_refl [OF ok w pr]
  show ?case
  proof (cases "d = length ts")
    case True
    have tw: "takeWhile (\<lambda>w. w \<noteq> []) ts = ts" using ne True by (auto simp: takeWhile_eq_all_conv)
    show ?thesis unfolding tw using True ne refl search by auto
  next
    case False
    with dl have d: "d < length ts" by simp
    then have di: "d < length idx" and s: "str_at b (idx ! d) = Inr (ts ! d)"
      using toks by (auto simp: holds_tokens_def)
    have split: "ts = take d ts @ ts ! d # drop (Suc d) ts" using d by (rule id_take_nth_drop)
    show ?thesis
    proof (cases "ts ! d = []")
      case True
      have "takeWhile (\<lambda>w. w \<noteq> []) ts = take d ts"
        using ne True by (subst split) (simp add: takeWhile_ne_append)
      moreover have "[] \<in> set ts" using d True by (metis nth_mem)
      ultimately show ?thesis using refl search d di s True by auto
    next
      case token: False
      have "length (ts ! d) < DIR_NAME_SIZE" using short d by simp
      moreover have "length (pt_allocations t) < n" using Suc.prems(5) d by simp
      then obtain a where "slab (pt_allocations t) = Some a" using roomy by (auto simp: slab_roomy_def)
      moreover obtain e where "pt_heap t cur = Some e" using walk_dom [OF ok w] by auto
      ultimately obtain t1 where add: "add_child slab (ts ! d) cur t = Inr t1"
        by (auto simp: add_child_def Let_def)
      obtain a1 where g: "grown t (take (Suc d) ts) a1 t1" and st1: "stops_at t1 ts a1 (Suc d)"
        and len1: "length (pt_allocations t1) = Suc (length (pt_allocations t))"
        and w1: "walk (pt_heap t1) (pt_root t1) (take d ts) = Some cur"
        by (rule grow_step [OF ok slab st d token pr add])
      from g have ok1: "heap_ok t1" and pr1: "pruned_but {a1} t1" by (simp_all add: grown_def)
      obtain x y where "path_search_loop (pt_heap t1) b idx (length ts) cur d = Inr (x, y)"
        and "stops_at t1 ts x y"
        using path_search_loop_stops [OF ok1 toks d w1] by auto
      with stops_at_unique [OF st1] have search1:
        "path_search_loop (pt_heap t1) b idx (length ts) cur d = Inr (a1, Suc d)" by auto
      have "length (pt_allocations t1) + (length ts - Suc d) \<le> n" and "length ts - Suc d < rounds"
        using Suc.prems(5,6) d unfolding len1 by linarith+
      from Suc.IH [OF ok1 st1 pr1 search1 this]
      obtain a2 t2 where g2: "grown t1 (takeWhile (\<lambda>w. w \<noteq> []) ts) a2 t2" and
        run: "add_loop rounds slab b idx (length ts) cur d t1 =
          Inr (if [] \<in> set ts then Inl t2 else Inr (a2, t2))" by blast
      have "take (Suc d) ts = take (Suc d) (takeWhile (\<lambda>w. w \<noteq> []) ts)"
      proof -
        have "takeWhile (\<lambda>w. w \<noteq> []) ts = take d ts @ ts ! d # takeWhile (\<lambda>w. w \<noteq> []) (drop (Suc d) ts)"
          using ne token by (subst split) (simp add: takeWhile_ne_append)
        then show ?thesis using d by (simp add: take_Suc_conv_app_nth)
      qed
      with g have "grown t (take (Suc d) (takeWhile (\<lambda>w. w \<noteq> []) ts)) a1 t1" by simp
      from grown_trans [OF this g2] run search d di s token add show ?thesis by auto
    qed
  qed
qed


section \<open>Marking, unmarking and the climb of \<open>path_store_rm\<close>\<close>

lemma marked_with_num:
  assumes "pt_heap t a = Some e"
  shows "marked (pt_heap (with_num a w t)) x \<longleftrightarrow>
    (if x = a then w AND EXPLICITED_PATH_MASK \<noteq> 0 else marked (pt_heap t) x)"
  using assms by (auto simp: marked_def with_num_def explicited_def)

text \<open>The two writes to the mark of an entry.\<close>

lemma mark_entry:
  assumes ok: "heap_ok t" and w: "walk (pt_heap t) (pt_root t) ps = Some a"
  obtains t' where "set_explicited a t = Inr t'" and "heap_ok t'" and "pt_root t' = pt_root t"
    and "pt_allocations t' = pt_allocations t"
    and "present t' = present t" and "explicit_paths t' = insert ps (explicit_paths t)"
    and "pruned_but {a} t \<Longrightarrow> pruned t'"
proof -
  obtain e where e: "pt_heap t a = Some e" using walk_dom [OF ok w] by auto
  let ?w = "count_word True (length (se_children e))"
  have k: "length (se_children e) < max_children" using kids_small [OF ok e] by simp
  note S = with_num_simps [OF e, of ?w]
  have m: "marked (pt_heap (with_num a ?w t)) x \<longleftrightarrow> x = a \<or> marked (pt_heap t) x" for x
    by (simp add: marked_with_num [OF e] count_word_ops(1) [OF k])
  show thesis
  proof (rule that [OF set_explicited_eq [OF ok e]])
    show "heap_ok (with_num a ?w t)" by (rule heap_ok_with_num [OF ok e refl])
    show "present (with_num a ?w t) = present t" by (simp only: present_def S(1,5))
    show "explicit_paths (with_num a ?w t) = insert ps (explicit_paths t)"
    proof (intro set_eqI)
      fix qs
      have "walk (pt_heap t) (pt_root t) qs = Some a \<longleftrightarrow> qs = ps" using w walk_inj [OF ok _ w] by blast
      then show "qs \<in> explicit_paths (with_num a ?w t) \<longleftrightarrow> qs \<in> insert ps (explicit_paths t)"
        unfolding explicit_paths_def S(1,5) m by (cases "walk (pt_heap t) (pt_root t) qs") auto
    qed
    show "pruned (with_num a ?w t)" if "pruned_but {a} t"
      using that e unfolding pruned_but_def S(1,4) m by (auto simp: S(6))
  qed (simp_all add: S)
qed

lemma unmark_entry:
  assumes ok: "heap_ok t" and w: "walk (pt_heap t) (pt_root t) ps = Some a"
  obtains t' where "clear_explicited a t = Inr t'" and "heap_ok t'" and "pt_root t' = pt_root t"
    and "pt_allocations t' = pt_allocations t"
    and "walk (pt_heap t') = walk (pt_heap t)" and "kids (pt_heap t') = kids (pt_heap t)"
    and "explicit_paths t' = explicit_paths t - {ps}"
    and "pruned t \<Longrightarrow> pruned_but {a} t'"
proof -
  obtain e where e: "pt_heap t a = Some e" using walk_dom [OF ok w] by auto
  let ?w = "count_word False (length (se_children e))"
  have k: "length (se_children e) < max_children" using kids_small [OF ok e] by simp
  note S = with_num_simps [OF e, of ?w]
  have m: "marked (pt_heap (with_num a ?w t)) x \<longleftrightarrow> x \<noteq> a \<and> marked (pt_heap t) x" for x
    by (simp add: marked_with_num [OF e] count_word_ops(1) [OF k])
  show thesis
  proof (rule that [OF clear_explicited_eq [OF ok e]])
    show "heap_ok (with_num a ?w t)" by (rule heap_ok_with_num [OF ok e refl])
    show "explicit_paths (with_num a ?w t) = explicit_paths t - {ps}"
    proof (intro set_eqI)
      fix qs
      have "walk (pt_heap t) (pt_root t) qs = Some a \<longleftrightarrow> qs = ps" using w walk_inj [OF ok _ w] by blast
      then show "qs \<in> explicit_paths (with_num a ?w t) \<longleftrightarrow> qs \<in> explicit_paths t - {ps}"
        unfolding explicit_paths_def S(1,5) m by (cases "walk (pt_heap t) (pt_root t) qs") auto
    qed
    show "pruned_but {a} (with_num a ?w t)" if "pruned t"
      using that e unfolding pruned_but_def S(1,4) m by (auto simp: S(6))
    show "kids (pt_heap (with_num a ?w t)) = kids (pt_heap t)" by (intro ext) (simp only: S(4))
  qed (simp_all only: S(1,2,5))
qed

lemma marked_without_child:
  assumes ok: "heap_ok t" and e: "pt_heap t p = Some e" and a: "a \<in> set (se_children e)"
  shows "marked (without_child a p e (pt_heap t)) x \<longleftrightarrow> x \<noteq> a \<and> marked (pt_heap t) x"
proof -
  obtain f where f: "se_children_num e = count_word f (length (se_children e))"
    using heap_okD(9) [OF ok e] by blast
  have k: "length (se_children e) < max_children" using kids_small [OF ok e] by simp
  have pos: "0 < length (se_children e)" using a by (cases "se_children e") auto
  then have k': "length (se_children e) - 1 < max_children" using k by simp
  have "explicited (e\<lparr>se_children_num := se_children_num e - 1, se_children := remove1 a (se_children e)\<rparr>)
    \<longleftrightarrow> explicited e"
    using count_word_ops(1) [OF k, of f] count_word_ops(1) [OF k', of f] count_word_ops(5) [OF k pos, of f]
    by (simp add: explicited_def f split del: if_split)
  with e show ?thesis
    by (auto simp: marked_def without_child_def split: option.splits)
qed

lemma climb_prunes:
  assumes "heap_ok t" and "walk (pt_heap t) (pt_root t) ps = Some a" and "pruned_but {a} t"
    and "length ps < rounds"
  shows "\<exists>t'. climb rounds a t = Inr t' \<and> heap_ok t' \<and> pt_root t' = pt_root t \<and> pruned t' \<and>
    explicit_paths t' = explicit_paths t"
  using assms
proof (induction rounds arbitrary: t ps a)
  case 0
  then show ?case by simp
next
  case (Suc rounds)
  note ok = Suc.prems(1) and w = Suc.prems(2) and pr = Suc.prems(3)
  obtain e where e: "pt_heap t a = Some e" using walk_dom [OF ok w] by auto
  have cc: "child_count e = 0 \<longleftrightarrow> se_children e = []" using ok e by (rule explicited_word)
  have m: "marked (pt_heap t) a \<longleftrightarrow> explicited e" by (simp add: marked_def e)
  have kd: "kids (pt_heap t) a = se_children e" by (simp add: kids_def e)
  show ?case
  proof (cases "a = pt_root t \<or> child_count e \<noteq> 0 \<or> explicited e")
    case True
    then have "pruned t" using pr cc m kd by (auto simp: pruned_but_def)
    with True ok e show ?thesis by simp
  next
    case False
    then have leaf: "kids (pt_heap t) a = []" and root: "a \<noteq> pt_root t" and um: "\<not> marked (pt_heap t) a"
      using cc m kd by auto
    obtain q n where ps: "ps = q @ [n]" using root w by (cases ps rule: rev_cases) auto
    obtain p where wp: "walk (pt_heap t) (pt_root t) q = Some p"
      and l: "link (pt_heap t) a = Some (Some p, n)"
      using w unfolding ps walk_snoc_link [OF ok] by blast
    then have par: "se_parent e = Some p" by (simp add: link_def e)
    obtain e' t1 where e': "pt_heap t p = Some e'" and f: "free_child a p t = Inr t1"
      and h: "pt_heap t1 = without_child a p e' (pt_heap t)" and r: "pt_root t1 = pt_root t"
      and w1: "walk (pt_heap t1) (pt_root t1) = (walk (pt_heap t) (pt_root t))(q @ [n] := None)"
      and ok1: "heap_ok t1"
      by (rule heap_ok_free_child [OF ok w [unfolded ps] l leaf])
    have "a \<in> set (kids (pt_heap t) p)" using heap_okD(6) [OF ok] l by blast
    then have mem: "a \<in> set (se_children e')" by (simp add: kids_def e')
    note m1 = marked_without_child [OF ok e' mem]
    have "explicit_paths t1 = explicit_paths t"
    proof (intro set_eqI)
      fix qs
      have "walk (pt_heap t) (pt_root t) qs = Some a \<longleftrightarrow> qs = ps" using w walk_inj [OF ok _ w] by blast
      moreover have "walk (without_child a p e' (pt_heap t)) (pt_root t1) qs =
        (if qs = ps then None else walk (pt_heap t) (pt_root t) qs)"
        using w1 by (simp add: h ps)
      ultimately show "qs \<in> explicit_paths t1 \<longleftrightarrow> qs \<in> explicit_paths t"
        unfolding explicit_paths_def h m1 using um
        by (cases "walk (pt_heap t) (pt_root t) qs") auto
    qed
    moreover have "pruned_but {p} t1"
      unfolding pruned_but_def h m1 r
    proof (intro ballI impI)
      fix x assume x: "x \<in> dom (without_child a p e' (pt_heap t))"
        and k: "kids (without_child a p e' (pt_heap t)) x = []"
      from x e' have xa: "x \<noteq> a" "x \<in> dom (pt_heap t)"
        by (auto simp: without_child_def split: if_splits)
      show "x = pt_root t \<or> x \<in> {p} \<or> x \<noteq> a \<and> marked (pt_heap t) x"
        using k xa pr by (cases "x = p") (auto simp: without_child_kids [where h = "pt_heap t" and p = p, OF e'] pruned_but_def)
    qed
    moreover have "walk (pt_heap t1) (pt_root t1) q = Some p" using w1 wp by simp
    ultimately show ?thesis using Suc.IH [OF ok1, of q p] Suc.prems(4) ps False e par f r by auto
  qed
qed

end
