(* ===== verification/Visit_Pass.thy ===== *)
theory Visit_Pass
  imports Main
begin

text \<open>
  The interface between a walk over a graph and the registry of what it visits. The registry promises
  that a visit either takes a node, using up one of finitely many credits, or skips it because it has
  none left; the walk, a worklist over the successors of what was taken, then ends and has reached
  everything. The walks of \<open>path_store/store_iterate.c\<close> are such worklists, with
  \<open>insert_inode_ht\<close> as the visit.
\<close>

section \<open>The worklist\<close>

text \<open>Visiting the members of a list: the state afterwards and those that were taken.\<close>

fun visit_all :: "('k \<Rightarrow> 's \<Rightarrow> 's \<times> int) \<Rightarrow> ('d \<Rightarrow> 'k) \<Rightarrow> 'd list \<Rightarrow> 's \<Rightarrow> 's \<times> 'd list" where
  "visit_all visit key [] s = (s, [])"
| "visit_all visit key (d # ds) s =
     (let (s, r) = visit (key d) s; (s, taken) = visit_all visit key ds s in
      (s, if r \<noteq> - 1 then d # taken else taken))"

fun worklist ::
  "nat \<Rightarrow> ('k \<Rightarrow> 's \<Rightarrow> 's \<times> int) \<Rightarrow> ('d \<Rightarrow> 'k) \<Rightarrow> ('d \<Rightarrow> 'd list) \<Rightarrow> 'd \<Rightarrow> 'd list \<Rightarrow> 's \<Rightarrow> 's option" where
  "worklist 0 visit key succs d stack s = None"
| "worklist (Suc n) visit key succs d stack s =
     (let (s, taken) = visit_all visit key (succs d) s in
      case rev taken @ stack of
        [] \<Rightarrow> Some s
      | e # stack \<Rightarrow> worklist n visit key succs e stack s)"

lemma visit_all_subset: "visit_all visit key ds s = (s', taken) \<Longrightarrow> set taken \<subseteq> set ds"
  by (induction ds arbitrary: s taken) (fastforce split: prod.splits if_splits)+

definition reach :: "('d \<Rightarrow> 'd list) \<Rightarrow> 'd \<Rightarrow> 'd set" where
  "reach succs d = {e. (d, e) \<in> {(x, y). y \<in> set (succs x)}\<^sup>*}"

lemma reach_refl: "d \<in> reach succs d"
  by (simp add: reach_def)

lemma reach_step: "e \<in> reach succs d \<Longrightarrow> f \<in> set (succs e) \<Longrightarrow> f \<in> reach succs d"
  by (auto simp: reach_def intro: rtrancl_into_rtrancl)

lemma reach_subset:
  assumes "d \<in> X" and "\<forall>x \<in> X. set (succs x) \<subseteq> X"
  shows "reach succs d \<subseteq> X"
proof
  fix e assume "e \<in> reach succs d"
  then have "(d, e) \<in> {(x, y). y \<in> set (succs x)}\<^sup>*" by (simp add: reach_def)
  then show "e \<in> X" by induction (use assms in auto)
qed

section \<open>The contract of a visit\<close>

locale visit_pass =
  fixes ok :: "'s \<Rightarrow> bool" and good :: "'k \<Rightarrow> bool"
    and visit :: "'k \<Rightarrow> 's \<Rightarrow> 's \<times> int"
    and credit :: "'s \<Rightarrow> 'k \<Rightarrow> nat" and known :: "'s \<Rightarrow> 'k set"
  assumes visit_ok: "ok s \<Longrightarrow> good k \<Longrightarrow> visit k s = (s', r) \<Longrightarrow> ok s'"
    and visit_skip: "ok s \<Longrightarrow> good k \<Longrightarrow> visit k s = (s', - 1) \<Longrightarrow>
      credit s k = 0 \<and> credit s' = credit s \<and> known s' = known s"
    and visit_take: "ok s \<Longrightarrow> good k \<Longrightarrow> visit k s = (s', r) \<Longrightarrow> r \<noteq> - 1 \<Longrightarrow>
      0 < credit s k \<and> credit s' = (credit s)(k := credit s k - 1) \<and> known s' = insert k (known s)"
begin

definition total :: "'k set \<Rightarrow> 's \<Rightarrow> nat" where
  "total K s = (\<Sum>k \<in> K. credit s k)"

text \<open>The nodes that lost a credit since \<open>s0\<close>.\<close>

definition touched :: "'s \<Rightarrow> 's \<Rightarrow> 'k set" where
  "touched s0 s = {k. credit s k < credit s0 k}"

lemma total_take:
  assumes "finite K" and "k \<in> K" and "0 < credit s k" and "credit s' = (credit s)(k := credit s k - 1)"
  shows "Suc (total K s') = total K s"
  using assms by (simp add: total_def sum.remove)

lemma visit_cases:
  assumes "ok s" and "good k" and "visit k s = (s', r)"
  shows "ok s'" and "\<forall>x. credit s' x \<le> credit s x" and "known s \<subseteq> known s'"
    and "finite K \<Longrightarrow> k \<in> K \<Longrightarrow> total K s' + (if r = - 1 then 0 else 1) = total K s"
    and "credit s k \<le> credit s0 k \<Longrightarrow> 0 < credit s0 k \<Longrightarrow> k \<in> touched s0 s'"
    and "x \<in> touched s0 s' \<Longrightarrow> x \<in> touched s0 s \<or> x = k \<and> r \<noteq> - 1"
    and "touched s0 s \<subseteq> known s \<Longrightarrow> touched s0 s' \<subseteq> known s'"
proof -
  consider "r = - 1" "credit s k = 0" "credit s' = credit s" "known s' = known s"
    | "r \<noteq> - 1" "0 < credit s k" "credit s' = (credit s)(k := credit s k - 1)"
      "known s' = insert k (known s)"
  proof (cases "r = - 1")
    case True
    with assms(3) visit_skip [OF assms(1,2), of s'] that(1) show thesis by blast
  next
    case False
    with visit_take [OF assms] that(2) show thesis by blast
  qed
  note cases = this
  show "ok s'" using assms by (rule visit_ok)
  show "\<forall>x. credit s' x \<le> credit s x" by (cases rule: cases) auto
  show "known s \<subseteq> known s'" by (cases rule: cases) auto
  show "total K s' + (if r = - 1 then 0 else 1) = total K s" if "finite K" "k \<in> K"
    using total_take [OF that, of s s'] by (cases rule: cases) (auto simp: total_def)
  show "k \<in> touched s0 s'" if "credit s k \<le> credit s0 k" "0 < credit s0 k"
    using that by (cases rule: cases) (auto simp: touched_def)
  show "x \<in> touched s0 s \<or> x = k \<and> r \<noteq> - 1" if "x \<in> touched s0 s'"
    using that by (cases rule: cases) (auto simp: touched_def split: if_splits)
  show "touched s0 s' \<subseteq> known s'" if "touched s0 s \<subseteq> known s"
    using that by (cases rule: cases) (auto simp: touched_def split: if_splits)
qed

lemma visit_all_cases:
  assumes "ok s" and "\<forall>d \<in> set ds. good (key d) \<and> key d \<in> K \<and> 0 < credit s0 (key d)"
    and "finite K" and "\<forall>x. credit s x \<le> credit s0 x" and "touched s0 s \<subseteq> known s"
    and "visit_all visit key ds s = (s', taken)"
  shows "ok s' \<and> (\<forall>x. credit s' x \<le> credit s x) \<and> total K s' + length taken = total K s \<and>
    touched s0 s \<subseteq> touched s0 s' \<and> key ` set ds \<subseteq> touched s0 s' \<and>
    touched s0 s' \<subseteq> touched s0 s \<union> key ` set taken \<and> set taken \<subseteq> set ds \<and> touched s0 s' \<subseteq> known s'"
  using assms
proof (induction ds arbitrary: s taken)
  case Nil
  then show ?case by auto
next
  case (Cons d ds)
  obtain s1 r where v: "visit (key d) s = (s1, r)" by fastforce
  obtain taken1 where va: "visit_all visit key ds s1 = (s', taken1)"
    and t: "taken = (if r \<noteq> - 1 then d # taken1 else taken1)"
    using Cons.prems(6) v by (auto split: prod.splits)
  have g: "good (key d)" "key d \<in> K" "0 < credit s0 (key d)" using Cons.prems(2) by auto
  note V = visit_cases [OF Cons.prems(1) g(1) v]
  have le: "\<forall>x. credit s1 x \<le> credit s0 x" using V(2) Cons.prems(4) le_trans by blast
  have "ok s1" by (rule V(1))
  note IH = Cons.IH [OF this _ Cons.prems(3) le V(7) [OF Cons.prems(5)] va]
  have A: "ok s' \<and> (\<forall>x. credit s' x \<le> credit s1 x) \<and> total K s' + length taken1 = total K s1 \<and>
    touched s0 s1 \<subseteq> touched s0 s' \<and> key ` set ds \<subseteq> touched s0 s' \<and>
    touched s0 s' \<subseteq> touched s0 s1 \<union> key ` set taken1 \<and> set taken1 \<subseteq> set ds \<and> touched s0 s' \<subseteq> known s'"
    using IH Cons.prems(2) by simp
  have m: "touched s0 s \<subseteq> touched s0 s1" using V(2) by (auto simp: touched_def intro: le_less_trans)
  have kd: "key d \<in> touched s0 s1" using V(5) [of s0] Cons.prems(4) g(3) by blast
  have new: "touched s0 s1 \<subseteq> touched s0 s \<union> (if r = - 1 then {} else {key d})"
    using V(6) [of _ s0] by (cases "r = - 1") auto
  have dec: "credit s' x \<le> credit s x" for x
    using A V(2) by (meson le_trans)
  have tot: "total K s' + length taken = total K s"
    using A V(4) [OF Cons.prems(3) g(2)] t by (simp split: if_splits)
  have "key ` set (d # ds) \<subseteq> touched s0 s'" using A kd by auto
  moreover have "touched s0 s' \<subseteq> touched s0 s \<union> key ` set taken"
    using A new unfolding t by (cases "r = - 1") auto
  moreover have "set taken \<subseteq> set (d # ds)" using A unfolding t by (cases "r = - 1") auto
  moreover have "touched s0 s \<subseteq> touched s0 s'" using A m by blast
  ultimately show ?case using A dec tot by blast
qed

text \<open>
  The walk ends and reaches everything: every member of \<open>W\<close>, which holds the stack and is closed
  under successors, has a credit to start with, and members with the same key have successors with
  the same keys.
\<close>

lemma worklist_ends:
  assumes fin: "finite K"
    and W: "\<forall>d \<in> W. good (key d) \<and> key d \<in> K \<and> 0 < credit s0 (key d) \<and> set (succs d) \<subseteq> W"
    and "ok s" and "insert d (set stack) \<subseteq> W"
    and "\<forall>x. credit s x \<le> credit s0 x" and "touched s0 s \<subseteq> known s"
    and "touched s0 s \<subseteq> key ` (Done \<union> insert d (set stack))"
    and "insert (key d) (key ` set stack) \<subseteq> touched s0 s" and "Done \<subseteq> W"
    and "\<forall>e \<in> Done. key ` set (succs e) \<subseteq> touched s0 s"
    and "total K s + length stack < n"
  shows "\<exists>s' Done'. worklist n visit key succs d stack s = Some s' \<and> ok s' \<and>
    touched s0 s \<subseteq> touched s0 s' \<and> touched s0 s' \<subseteq> known s' \<and> Done' \<subseteq> W \<and>
    touched s0 s' \<subseteq> key ` Done' \<and> (\<forall>e \<in> Done'. key ` set (succs e) \<subseteq> touched s0 s')"
  using assms(3-)
proof (induction n arbitrary: d stack s Done)
  case 0
  then show ?case by simp
next
  case (Suc n)
  obtain s1 taken where va: "visit_all visit key (succs d) s = (s1, taken)" by fastforce
  have dW: "d \<in> W" using Suc.prems(2) by simp
  have sW: "\<forall>c \<in> set (succs d). good (key c) \<and> key c \<in> K \<and> 0 < credit s0 (key c)" and sub: "set (succs d) \<subseteq> W"
    using W dW by blast+
  from visit_all_cases [OF Suc.prems(1) sW fin Suc.prems(3,4) va]
  have A: "ok s1" "\<forall>x. credit s1 x \<le> credit s x" "total K s1 + length taken = total K s"
    "touched s0 s \<subseteq> touched s0 s1" "key ` set (succs d) \<subseteq> touched s0 s1"
    "touched s0 s1 \<subseteq> touched s0 s \<union> key ` set taken" "set taken \<subseteq> set (succs d)" "touched s0 s1 \<subseteq> known s1"
    by blast+
  let ?Done = "insert d Done"
  have le: "\<forall>x. credit s1 x \<le> credit s0 x" using A(2) Suc.prems(3) le_trans by blast
  have cover: "touched s0 s1 \<subseteq> key ` (?Done \<union> set (rev taken @ stack))"
    using A(6) Suc.prems(5) by auto
  have done': "\<forall>e \<in> ?Done. key ` set (succs e) \<subseteq> touched s0 s1"
    using Suc.prems(8) A(4,5) by blast
  have keys: "key ` set (rev taken @ stack) \<subseteq> touched s0 s1"
    using A(4,5,7) Suc.prems(6) by auto
  have DW: "?Done \<subseteq> W" using Suc.prems(7) dW by simp
  show ?case
  proof (cases "rev taken @ stack")
    case Nil
    then have "worklist (Suc n) visit key succs d stack s = Some s1" by (simp add: va)
    with A(1,4,8) DW cover done' Nil show ?thesis by (metis append_Nil2 image_empty set_empty sup_bot.right_neutral list.set(1))
  next
    case (Cons e rest)
    have "length (rev taken @ stack) = Suc (length rest)" using Cons by simp
    then have fuel: "total K s1 + length rest < n" using A(3) Suc.prems(9) by simp
    have sW': "insert e (set rest) \<subseteq> W"
      using A(7) sub Suc.prems(2) arg_cong [OF Cons, of set] by auto
    have c': "touched s0 s1 \<subseteq> key ` (?Done \<union> insert e (set rest))"
      using cover unfolding Cons by simp
    have k': "insert (key e) (key ` set rest) \<subseteq> touched s0 s1" using keys unfolding Cons by simp
    from Suc.IH [OF A(1) sW' le A(8) c' k' DW done' fuel] Cons va A(4) show ?thesis
      by (simp add: subset_trans) (meson subset_trans)
  qed
qed

text \<open>What a walk makes known is what it could reach, and it forgets nothing.\<close>

lemma visit_known:
  assumes "ok s" and "good k" and "visit k s = (s', r)"
  shows "known s \<subseteq> known s'" and "known s' \<subseteq> insert k (known s)"
  using visit_cases(3) [OF assms] visit_skip [OF assms(1,2), of s'] visit_take [OF assms] assms(3)
  by (cases "r = - 1"; auto)+

lemma visit_all_known:
  assumes "ok s" and "\<forall>d \<in> set ds. good (key d)" and "visit_all visit key ds s = (s', taken)"
  shows "ok s' \<and> known s \<subseteq> known s' \<and> known s' \<subseteq> known s \<union> key ` set ds \<and> set taken \<subseteq> set ds"
  using assms
proof (induction ds arbitrary: s taken)
  case (Cons d ds)
  obtain s1 r where v: "visit (key d) s = (s1, r)" by fastforce
  obtain taken1 where va: "visit_all visit key ds s1 = (s', taken1)"
    and t: "set taken \<subseteq> insert d (set taken1)"
    using Cons.prems(3) v by (auto split: prod.splits if_splits)
  have g: "good (key d)" "\<forall>d \<in> set ds. good (key d)" using Cons.prems(2) by auto
  from Cons.IH [OF visit_ok [OF Cons.prems(1) g(1) v] g(2) va] visit_known [OF Cons.prems(1) g(1) v] t
  show ?case by auto
qed simp

lemma worklist_known:
  assumes W: "\<forall>d \<in> W. good (key d) \<and> set (succs d) \<subseteq> W" and "ok s" and "insert d (set stack) \<subseteq> W"
    and "worklist n visit key succs d stack s = Some s'"
  shows "known s \<subseteq> known s' \<and> known s' \<subseteq> known s \<union> key ` W"
  using assms(2-)
proof (induction n arbitrary: d stack s)
  case (Suc n)
  obtain s1 taken where va: "visit_all visit key (succs d) s = (s1, taken)" by fastforce
  have sub: "set (succs d) \<subseteq> W" and "\<forall>c \<in> set (succs d). good (key c)" using W Suc.prems(2) by auto
  with visit_all_known [OF Suc.prems(1) _ va] image_mono [OF sub, of key]
  have A: "ok s1" "known s \<subseteq> known s1" "known s1 \<subseteq> known s \<union> key ` W" "set taken \<subseteq> W" by blast+
  show ?case
  proof (cases "rev taken @ stack")
    case Nil
    then show ?thesis using Suc.prems(3) va A(2,3) by simp
  next
    case (Cons e rest)
    have "insert e (set rest) = set taken \<union> set stack" using arg_cong [OF Cons, of set] by simp
    then have eW: "insert e (set rest) \<subseteq> W" using A(4) Suc.prems(2) by simp
    have "worklist n visit key succs e rest s1 = Some s'" using Suc.prems(3) va Cons by simp
    from Suc.IH [OF A(1) eW this] A(2,3) show ?thesis by (auto simp only: Un_iff subset_iff)
  qed
qed simp

theorem worklist_reaches:
  assumes fin: "finite (key ` reach succs d)"
    and good: "\<forall>e \<in> reach succs d. good (key e) \<and> 0 < credit s0 (key e)"
    and same: "\<forall>e \<in> reach succs d. \<forall>f \<in> reach succs d. key e = key f \<longrightarrow>
      key ` set (succs e) = key ` set (succs f)"
    and start: "ok s0" "visit (key d) s0 = (s, r)" "r \<noteq> - 1"
    and fuel: "total (key ` reach succs d) s0 \<le> n"
  shows "\<exists>s'. worklist n visit key succs d [] s = Some s' \<and> ok s' \<and> known s' = known s0 \<union> key ` reach succs d"
proof -
  let ?W = "reach succs d" and ?K = "key ` reach succs d"
  have dW: "d \<in> ?W" by (rule reach_refl)
  have gd: "good (key d)" using good dW by blast
  note V = visit_cases [OF start(1) gd start(2)]
  have t0: "touched s0 s0 = {}" by (simp add: touched_def)
  have W: "\<forall>e \<in> ?W. good (key e) \<and> key e \<in> ?K \<and> 0 < credit s0 (key e) \<and> set (succs e) \<subseteq> ?W"
    using good by (auto intro: reach_step)
  have tk: "key d \<in> touched s0 s" using V(5) [of s0] good dW by simp
  have "touched s0 s \<subseteq> key ` ({} \<union> insert d (set []))" using V(6) [of _ s0] t0 by auto
  moreover have "total ?K s + length ([] :: 'd list) < n"
    using V(4) [OF fin] dW start(3) fuel by simp
  moreover have "insert (key d) (key ` set []) \<subseteq> touched s0 s" using tk by simp
  moreover have "touched s0 s \<subseteq> known s" using V(7) [of s0] t0 by simp
  moreover have "insert d (set []) \<subseteq> ?W" using dW by simp
  ultimately obtain s' Done' where run: "worklist n visit key succs d [] s = Some s'" "ok s'"
    and t: "touched s0 s \<subseteq> touched s0 s'" "touched s0 s' \<subseteq> known s'" "Done' \<subseteq> ?W"
      "touched s0 s' \<subseteq> key ` Done'" "\<forall>e \<in> Done'. key ` set (succs e) \<subseteq> touched s0 s'"
    using worklist_ends [OF fin W V(1), of d "[]" "{}" n] V(2) by auto
  have "key e \<in> touched s0 s'" if "(d, e) \<in> {(x, y). y \<in> set (succs x)}\<^sup>*" for e
    using that
  proof induction
    case base
    then show ?case using tk t(1) by blast
  next
    case (step x y)
    have "x \<in> ?W" using step.hyps(1) by (simp add: reach_def)
    obtain z where z: "z \<in> Done'" "key z = key x" using step.IH t(4) by force
    with same \<open>x \<in> ?W\<close> t(3) have "key ` set (succs z) = key ` set (succs x)" by blast
    moreover have "key ` set (succs z) \<subseteq> touched s0 s'" using t(5) z(1) by blast
    moreover have "y \<in> set (succs x)" using step.hyps(2) by simp
    ultimately show ?case by blast
  qed
  then have "key ` ?W \<subseteq> known s'" using t(2) by (auto simp: reach_def)
  moreover have "known s \<subseteq> known s' \<and> known s' \<subseteq> known s \<union> key ` ?W"
    using worklist_known [OF _ V(1) _ run(1), of ?W] W dW by auto
  moreover have "known s0 \<subseteq> known s" "known s \<subseteq> insert (key d) (known s0)"
    using visit_known [OF start(1) gd start(2)] by blast+
  moreover have "key d \<in> key ` ?W" using dW by blast
  ultimately have "known s' = known s0 \<union> key ` ?W" by blast
  with run show ?thesis by blast
qed

end

end
