(* ===== verification/Inode_Store.thy ===== *)
theory Inode_Store
  imports KLRM_Prelude Visit_Pass "HOL-Library.Multiset"
begin

text \<open>
  The registry of protected inodes, \<open>path_store/inode_store.c\<close>: a list \<open>fs_stores\<close> of
  tables, one per device, each with a hash table of 100 rings of nodes. A node counts how many
  protected paths reach its inode and carries the stamp of the last pass that visited it; the stamp
  is compared with the global \<open>nonce\<close>, so that one pass does not count a node twice.

  The nodes and tables come from two slab caches. What an allocation yields is a parameter
  \<open>memory\<close>: the n-th allocation gives nothing, or an object whose bytes are whatever the slab
  left there. The registry is a partial map from devices and inode numbers to nodes, \<open>node_of\<close>,
  and the lemmas say what each operation does to it.
\<close>

section \<open>Tables and nodes\<close>

definition HASH_TABLE_SIZE :: nat where
  "HASH_TABLE_SIZE = 100"

record inode_ht =
  num :: "32 word"
  refCount :: "64 word"
  stamp :: "64 word"

record store_fs =
  numbers :: "32 word"
  inodes :: "inode_ht list list"

type_synonym memory = "nat \<Rightarrow> 64 word option"

text \<open>The globals of the registry, and the number of allocations made so far.\<close>

record inode_store =
  fs_stores :: "store_fs list"
  nonce :: "64 word"
  clock :: nat

definition hash_index :: "64 word \<Rightarrow> nat" where
  "hash_index inode = unat inode mod HASH_TABLE_SIZE"

section \<open>Counting an inode in\<close>

text \<open>
  The walk of \<open>inode_allocate\<close> over one ring: a match that this pass has not seen is counted
  and stamped (1), one that it has seen is left (-1); no match at all is \<open>None\<close>. The 32-bit
  number of the node is compared with the 64-bit inode number.
\<close>

fun visit_node :: "64 word \<Rightarrow> 64 word \<Rightarrow> inode_ht list \<Rightarrow> (inode_ht list \<times> int) option" where
  "visit_node now inode [] = None"
| "visit_node now inode (node # peers) =
     (if ucast (num node) = inode then
        if stamp node < now
        then Some (node\<lparr>refCount := refCount node + 1, stamp := now\<rparr> # peers, 1)
        else Some (node # peers, - 1)
      else map_option (\<lambda>(ring, r). (node # ring, r)) (visit_node now inode peers))"

text \<open>The reference count of a new node is what the slab left in it, plus one; its stamp is 0.\<close>

definition inode_allocate ::
  "memory \<Rightarrow> 64 word \<Rightarrow> nat \<Rightarrow> store_fs \<Rightarrow> 64 word \<Rightarrow> store_fs \<times> nat \<times> int" where
  "inode_allocate mem now clk store inode =
     (let i = hash_index inode; ring = inodes store ! i in
      case visit_node now inode ring of
        Some (ring, r) \<Rightarrow> (store\<lparr>inodes := (inodes store)[i := ring]\<rparr>, clk, r)
      | None \<Rightarrow>
          (case mem clk of
             None \<Rightarrow> (store, Suc clk, 0)
           | Some junk \<Rightarrow>
               let node = \<lparr>num = ucast inode, refCount = junk + 1, stamp = 0\<rparr> in
               (store\<lparr>inodes := (inodes store)[i := node # ring]\<rparr>, Suc clk, 1)))"

definition new_table :: "32 word \<Rightarrow> store_fs" where
  "new_table table = \<lparr>numbers = table, inodes = replicate HASH_TABLE_SIZE []\<rparr>"

text \<open>The walk over \<open>fs_stores\<close>: the first table of the device takes the inode.\<close>

fun insert_in_tables ::
  "memory \<Rightarrow> 64 word \<Rightarrow> nat \<Rightarrow> 32 word \<Rightarrow> 64 word \<Rightarrow> store_fs list \<Rightarrow>
   (store_fs list \<times> nat \<times> int) option" where
  "insert_in_tables mem now clk table inode [] = None"
| "insert_in_tables mem now clk table inode (store # stores) =
     (if numbers store = table then
        let (store, clk, r) = inode_allocate mem now clk store inode in Some (store # stores, clk, r)
      else map_option (\<lambda>(stores, clk, r). (store # stores, clk, r))
             (insert_in_tables mem now clk table inode stores))"

definition insert_inode_ht ::
  "memory \<Rightarrow> 32 word \<Rightarrow> 64 word \<Rightarrow> inode_store \<Rightarrow> inode_store \<times> int" where
  "insert_inode_ht mem table inode s =
     (case insert_in_tables mem (nonce s) (clock s) table inode (fs_stores s) of
        Some (stores, clk, r) \<Rightarrow> (s\<lparr>fs_stores := stores, clock := clk\<rparr>, r)
      | None \<Rightarrow>
          (case mem (clock s) of
             None \<Rightarrow> (s\<lparr>clock := Suc (clock s)\<rparr>, 0)
           | Some _ \<Rightarrow>
               let (store, clk, r) =
                 inode_allocate mem (nonce s) (Suc (clock s)) (new_table table) inode in
               (s\<lparr>fs_stores := store # fs_stores s, clock := clk\<rparr>, r)))"

section \<open>Counting an inode out\<close>

text \<open>
  The inner walk of \<open>rm_inode_ht\<close>: a match that this pass has not seen is counted out and
  stamped, and unlinked and freed by \<open>inode_deallocate\<close> when its count is 0 (1); one that it
  has seen is left (-1).
\<close>

definition inode_deallocate :: "inode_ht \<Rightarrow> inode_ht list \<Rightarrow> inode_ht list" where
  "inode_deallocate node peers = (if refCount node \<noteq> 0 then node # peers else peers)"

fun release_node :: "64 word \<Rightarrow> 64 word \<Rightarrow> inode_ht list \<Rightarrow> (inode_ht list \<times> int) option" where
  "release_node now inode [] = None"
| "release_node now inode (node # peers) =
     (if ucast (num node) = inode then
        if stamp node < now
        then Some (inode_deallocate (node\<lparr>refCount := refCount node - 1, stamp := now\<rparr>) peers, 1)
        else Some (node # peers, - 1)
      else map_option (\<lambda>(ring, r). (node # ring, r)) (release_node now inode peers))"

text \<open>
  The inner loop runs over a ring of the table with the cursor of the outer loop. When it finds no
  match the outer loop goes on from the head of that ring, so it turns in the ring and never comes
  back to \<open>fs_stores\<close>.
\<close>

fun rm_in_tables ::
  "64 word \<Rightarrow> 32 word \<Rightarrow> 64 word \<Rightarrow> store_fs list \<Rightarrow> (store_fs list \<times> int) outcome" where
  "rm_in_tables now table inode [] = Inr ([], 0)"
| "rm_in_tables now table inode (store # stores) =
     (if numbers store = table then
        let i = hash_index inode in
        (case release_node now inode (inodes store ! i) of
           Some (ring, r) \<Rightarrow> Inr (store\<lparr>inodes := (inodes store)[i := ring]\<rparr> # stores, r)
         | None \<Rightarrow> Inl Runaway)
      else bind_out (rm_in_tables now table inode stores) (\<lambda>(stores, r). Inr (store # stores, r)))"

definition rm_inode_ht :: "32 word \<Rightarrow> 64 word \<Rightarrow> inode_store \<Rightarrow> (inode_store \<times> int) outcome" where
  "rm_inode_ht table inode s =
     bind_out (rm_in_tables (nonce s) table inode (fs_stores s)) (\<lambda>(stores, r).
       Inr (s\<lparr>fs_stores := stores\<rparr>, r))"

section \<open>Looking an inode up\<close>

fun check_ring :: "64 word \<Rightarrow> inode_ht list \<Rightarrow> bool" where
  "check_ring inode [] = False"
| "check_ring inode (node # peers) = (if ucast (num node) = inode then True else check_ring inode peers)"

fun check_tables :: "32 word \<Rightarrow> 64 word \<Rightarrow> store_fs list \<Rightarrow> bool" where
  "check_tables table inode [] = False"
| "check_tables table inode (store # stores) =
     (if numbers store = table \<and> check_ring inode (inodes store ! hash_index inode) then True
      else check_tables table inode stores)"

definition check_inode :: "32 word \<Rightarrow> 64 word \<Rightarrow> inode_store \<Rightarrow> int" where
  "check_inode table inode s = (if check_tables table inode (fs_stores s) then 1 else 0)"

section \<open>Renewing the stamps, setup and cleanup\<close>

definition refresh_nonces :: "inode_store \<Rightarrow> inode_store" where
  "refresh_nonces s =
     s\<lparr>fs_stores := map (\<lambda>store. store\<lparr>inodes := map (map (\<lambda>node. node\<lparr>stamp := 0\<rparr>)) (inodes store)\<rparr>)
         (fs_stores s),
       nonce := 0\<rparr>"

text \<open>
  \<open>setup_inode_store\<close> makes the two caches, and undoes the first when the second fails. Its
  result is the pair of the C result and whether \<open>fs_cache\<close> and \<open>inodes_cache\<close> exist.
\<close>

definition setup_inode_store :: "bool \<Rightarrow> bool \<Rightarrow> int \<times> bool \<times> bool" where
  "setup_inode_store fs_cache inodes_cache =
     (if \<not> fs_cache then (1, False, False)
      else if \<not> inodes_cache then (1, False, False)
      else (0, True, True))"

text \<open>
  \<open>cleanup_inode_store\<close>: every loop frees the node (or table) before the one it stands at, and
  the last one behind the loop. The log is what was given back to the caches, in order.
\<close>

datatype freed = Freed_Node inode_ht | Freed_Table "32 word"

fun free_ring :: "inode_ht option \<Rightarrow> inode_ht list \<Rightarrow> freed list" where
  "free_ring prevNode [] = (case prevNode of None \<Rightarrow> [] | Some node \<Rightarrow> [Freed_Node node])"
| "free_ring prevNode (node # peers) =
     (case prevNode of None \<Rightarrow> [] | Some prev \<Rightarrow> [Freed_Node prev]) @ free_ring (Some node) peers"

fun free_tables :: "store_fs option \<Rightarrow> store_fs list \<Rightarrow> freed list" where
  "free_tables prevStore [] =
     (case prevStore of None \<Rightarrow> [] | Some store \<Rightarrow> [Freed_Table (numbers store)])"
| "free_tables prevStore (store # stores) =
     concat (map (free_ring None) (inodes store)) @
     (case prevStore of None \<Rightarrow> [] | Some prev \<Rightarrow> [Freed_Table (numbers prev)]) @
     free_tables (Some store) stores"

definition cleanup_inode_store :: "inode_store \<Rightarrow> inode_store \<times> freed list" where
  "cleanup_inode_store s = (s\<lparr>fs_stores := []\<rparr>, free_tables None (fs_stores s))"



section \<open>The registry as a map\<close>

text \<open>The inode numbers that fit the 32-bit field of a node.\<close>

definition narrow :: "64 word \<Rightarrow> bool" where
  "narrow inode = (inode < 2 ^ 32)"

lemma ucast_narrow:
  assumes "narrow inode"
  shows "ucast (ucast inode :: 32 word) = inode"
proof -
  have "unat inode < 2 ^ 32" using assms by (simp add: narrow_def word_less_nat_alt)
  then have "take_bit 32 (unat inode) = unat inode" by (simp add: take_bit_nat_eq_self)
  then show ?thesis by (simp add: word_unat_eq_iff unsigned_ucast_eq unsigned_take_bit_eq)
qed

lemma unat_ucast_64: "unat (ucast (w :: 32 word) :: 64 word) = unat w"
proof -
  have "unat w < 2 ^ 32" using unsigned_less [of w, where ?'a = nat] by simp
  then show ?thesis by (simp add: unsigned_ucast_eq take_bit_nat_eq_self)
qed

lemma narrow_ucast: "narrow (ucast (w :: 32 word))"
  using unsigned_less [of w, where ?'a = nat] by (simp add: narrow_def word_less_nat_alt unat_ucast_64)

lemma ucast_inj_32: "(ucast (a :: 32 word) :: 64 word) = ucast b \<longleftrightarrow> a = b"
  by (simp add: word_unat_eq_iff unat_ucast_64)

definition ring_find :: "64 word \<Rightarrow> inode_ht list \<Rightarrow> inode_ht option" where
  "ring_find inode ring = List.find (\<lambda>node. ucast (num node) = inode) ring"

definition table_of :: "32 word \<Rightarrow> store_fs list \<Rightarrow> store_fs option" where
  "table_of table stores = List.find (\<lambda>store. numbers store = table) stores"

definition node_of :: "inode_store \<Rightarrow> 32 word \<times> 64 word \<Rightarrow> inode_ht option" where
  "node_of s k =
     (case table_of (fst k) (fs_stores s) of None \<Rightarrow> None
      | Some store \<Rightarrow> ring_find (snd k) (inodes store ! hash_index (snd k)))"

definition table_ok :: "store_fs \<Rightarrow> bool" where
  "table_ok store =
     (length (inodes store) = HASH_TABLE_SIZE \<and>
      (\<forall>ring \<in> set (inodes store). distinct (map num ring)))"

definition registry_ok :: "inode_store \<Rightarrow> bool" where
  "registry_ok s =
     (distinct (map numbers (fs_stores s)) \<and> (\<forall>store \<in> set (fs_stores s). table_ok store))"

lemma hash_index_less [simp]: "hash_index inode < HASH_TABLE_SIZE"
  by (simp add: hash_index_def HASH_TABLE_SIZE_def)

lemma ring_find_append:
  "ring_find i (xs @ ys) = (case ring_find i xs of None \<Rightarrow> ring_find i ys | Some n \<Rightarrow> Some n)"
  by (induction xs) (auto simp: ring_find_def)

lemma ring_find_simps [simp]:
  "ring_find i [] = None"
  "ring_find i (n # ns) = (if ucast (num n) = i then Some n else ring_find i ns)"
  by (simp_all add: ring_find_def)

lemma ring_find_None: "ring_find i ring = None \<longleftrightarrow> (\<forall>n \<in> set ring. ucast (num n) \<noteq> i)"
  by (auto simp: ring_find_def find_None_iff)

lemma ring_find_Some_num: "ring_find i ring = Some n \<Longrightarrow> ucast (num n) = i"
  by (auto simp: ring_find_def find_Some_iff)

text \<open>One ring: what the two walks do to the lookup of every inode number.\<close>

lemma visit_node_None: "visit_node now i ring = None \<longleftrightarrow> ring_find i ring = None"
  by (induction ring) auto

lemma visit_node_Some:
  assumes "visit_node now i ring = Some (ring', r)"
  obtains n where "ring_find i ring = Some n"
    and "r = (if stamp n < now then 1 else - 1)" and "map num ring' = map num ring"
    and "\<forall>j. ring_find j ring' = (if j = i then
          Some (if stamp n < now then n\<lparr>refCount := refCount n + 1, stamp := now\<rparr> else n)
        else ring_find j ring)"
proof -
  have "\<exists>n. ring_find i ring = Some n \<and> r = (if stamp n < now then 1 else - 1) \<and>
    map num ring' = map num ring \<and> (\<forall>j. ring_find j ring' = (if j = i then
          Some (if stamp n < now then n\<lparr>refCount := refCount n + 1, stamp := now\<rparr> else n)
        else ring_find j ring))"
    using assms by (induction ring arbitrary: ring') (auto split: if_splits)
  then show thesis using that by blast
qed

lemma release_node_None: "release_node now i ring = None \<longleftrightarrow> ring_find i ring = None"
  by (induction ring) auto

lemma release_node_Some:
  assumes "release_node now i ring = Some (ring', r)" and "distinct (map num ring)"
  obtains n where "ring_find i ring = Some n"
    and "r = (if stamp n < now then 1 else - 1)" and "distinct (map num ring')"
    and "\<forall>j. ring_find j ring' = (if j \<noteq> i then ring_find j ring
        else if \<not> stamp n < now then Some n
        else if refCount n = 1 then None
        else Some (n\<lparr>refCount := refCount n - 1, stamp := now\<rparr>))"
proof -
  have "\<exists>n. ring_find i ring = Some n \<and> r = (if stamp n < now then 1 else - 1) \<and>
    set (map num ring') \<subseteq> set (map num ring) \<and> distinct (map num ring') \<and>
    (\<forall>j. ring_find j ring' = (if j \<noteq> i then ring_find j ring
        else if \<not> stamp n < now then Some n
        else if refCount n = 1 then None
        else Some (n\<lparr>refCount := refCount n - 1, stamp := now\<rparr>)))"
    using assms
  proof (induction ring arbitrary: ring')
    case Nil
    then show ?case by simp
  next
    case (Cons m ring)
    show ?case
    proof (cases "ucast (num m) = i")
      case True
      have "ring_find i ring = None"
        using Cons.prems(2) unfolding True [symmetric] ring_find_None ucast_inj_32
        by simp (metis image_eqI)
      with True Cons.prems show ?thesis
        by (auto simp: inode_deallocate_def eq_diff_eq[symmetric] split: if_splits)
    next
      case False
      with Cons.prems obtain ring0 where "release_node now i ring = Some (ring0, r)"
        and "ring' = m # ring0" by auto
      with Cons False show ?thesis by fastforce
    qed
  qed
  then show thesis using that by blast
qed


text \<open>The tables: each walk changes the first table of the device, and only its ring.\<close>

lemma table_of_simps [simp]:
  "table_of t [] = None"
  "table_of t (s # ss) = (if numbers s = t then Some s else table_of t ss)"
  by (simp_all add: table_of_def)

lemma table_of_Some: "table_of t ss = Some s \<Longrightarrow> s \<in> set ss \<and> numbers s = t"
  by (induction ss) (auto split: if_splits)

lemma table_of_None: "table_of t ss = None \<longleftrightarrow> t \<notin> numbers ` set ss"
  by (induction ss) auto

lemma insert_in_tables_None: "insert_in_tables mem now clk t i ss = None \<longleftrightarrow> table_of t ss = None"
  by (induction ss) (auto split: prod.splits)

lemma insert_in_tables_Some:
  assumes "insert_in_tables mem now clk t i ss = Some (ss', clk', r)"
  obtains st st' where "table_of t ss = Some st" and "inode_allocate mem now clk st i = (st', clk', r)"
    and "map numbers ss' = map numbers ss" and "set ss' \<subseteq> insert st' (set ss)"
    and "\<forall>u. table_of u ss' = (if u = t then Some st' else table_of u ss)"
proof -
  have "\<exists>st st'. table_of t ss = Some st \<and> inode_allocate mem now clk st i = (st', clk', r) \<and>
    map numbers ss' = map numbers ss \<and> set ss' \<subseteq> insert st' (set ss) \<and>
    (\<forall>u. table_of u ss' = (if u = t then Some st' else table_of u ss))"
    using assms
  proof (induction ss arbitrary: ss')
    case Nil
    then show ?case by simp
  next
    case (Cons s ss)
    have n: "numbers st' = numbers st" if "inode_allocate mem now clk st i = (st', clk', r)" for st st'
      using that by (auto simp: inode_allocate_def Let_def split: option.splits)
    show ?case
    proof (cases "numbers s = t")
      case True
      with Cons.prems obtain st' where "inode_allocate mem now clk s i = (st', clk', r)"
        and "ss' = st' # ss" by (auto split: prod.splits)
      with True n show ?thesis by fastforce
    next
      case False
      with Cons.prems obtain ss0 where "insert_in_tables mem now clk t i ss = Some (ss0, clk', r)"
        and "ss' = s # ss0" by (auto split: prod.splits)
      with Cons.IH False show ?thesis by fastforce
    qed
  qed
  then show thesis using that by blast
qed

lemma rm_in_tables_None: "table_of t ss = None \<Longrightarrow> rm_in_tables now t i ss = Inr (ss, 0)"
  by (induction ss) (auto split: if_splits)

definition with_ring :: "store_fs \<Rightarrow> 64 word \<Rightarrow> inode_ht list \<Rightarrow> store_fs" where
  "with_ring st i ring = st\<lparr>inodes := (inodes st)[hash_index i := ring]\<rparr>"

lemma rm_in_tables_Some:
  assumes "table_of t ss = Some st"
  shows "case release_node now i (inodes st ! hash_index i) of
      None \<Rightarrow> rm_in_tables now t i ss = Inl Runaway
    | Some (ring, r) \<Rightarrow> (\<exists>ss'. rm_in_tables now t i ss = Inr (ss', r) \<and>
        map numbers ss' = map numbers ss \<and> set ss' \<subseteq> insert (with_ring st i ring) (set ss) \<and>
        (\<forall>u. table_of u ss' = (if u = t then Some (with_ring st i ring) else table_of u ss)))"
  using assms
proof (induction ss)
  case Nil
  then show ?case by simp
next
  case (Cons s ss)
  show ?case
  proof (cases "numbers s = t")
    case True
    with Cons.prems show ?thesis by (auto simp: with_ring_def split: option.splits)
  next
    case False
    with Cons.prems have "table_of t ss = Some st" by simp
    from Cons.IH [OF this] False show ?thesis
      by (fastforce split: option.splits)
  qed
qed


definition find_in :: "store_fs \<Rightarrow> 64 word \<Rightarrow> inode_ht option" where
  "find_in st j = ring_find j (inodes st ! hash_index j)"

lemma node_of_find_in:
  "node_of s (t, j) = (case table_of t (fs_stores s) of None \<Rightarrow> None | Some st \<Rightarrow> find_in st j)"
  by (cases "table_of t (fs_stores s)") (simp_all add: node_of_def find_in_def)

lemma with_ring_find:
  assumes "table_ok st"
  shows "find_in (with_ring st i ring) j =
    (if hash_index j = hash_index i then ring_find j ring else find_in st j)"
  using assms by (auto simp: find_in_def with_ring_def table_ok_def nth_list_update)

lemma with_ring_ok:
  "table_ok st \<Longrightarrow> distinct (map num ring) \<Longrightarrow> table_ok (with_ring st i ring)"
  by (auto simp: table_ok_def with_ring_def dest: set_update_subset_insert [THEN subsetD])

lemma table_ok_ring: "table_ok st \<Longrightarrow> distinct (map num (inodes st ! hash_index i))"
  by (auto simp: table_ok_def)

lemma inode_allocate_cases:
  assumes ok: "table_ok st" and nar: "narrow i"
    and run: "inode_allocate mem now clk st i = (st', clk', r)"
  shows "table_ok st' \<and> numbers st' = numbers st \<and>
    (case find_in st i of
       Some n \<Rightarrow> r = (if stamp n < now then 1 else - 1) \<and>
         (\<forall>j. find_in st' j = (if j = i then
            Some (if stamp n < now then n\<lparr>refCount := refCount n + 1, stamp := now\<rparr> else n)
          else find_in st j))
     | None \<Rightarrow>
         (case mem clk of
            None \<Rightarrow> r = 0 \<and> st' = st
          | Some junk \<Rightarrow> r = 1 \<and>
              (\<forall>j. find_in st' j = (if j = i then Some \<lparr>num = ucast i, refCount = junk + 1, stamp = 0\<rparr>
                 else find_in st j))))"
proof (cases "visit_node now i (inodes st ! hash_index i)")
  case (Some p)
  then obtain ring where v: "visit_node now i (inodes st ! hash_index i) = Some (ring, r)"
    and st': "st' = with_ring st i ring" using run by (cases p) (auto simp: inode_allocate_def with_ring_def)
  from v obtain n where n: "ring_find i (inodes st ! hash_index i) = Some n"
    "r = (if stamp n < now then 1 else - 1)" "map num ring = map num (inodes st ! hash_index i)"
    "\<forall>j. ring_find j ring = (if j = i then
          Some (if stamp n < now then n\<lparr>refCount := refCount n + 1, stamp := now\<rparr> else n)
        else ring_find j (inodes st ! hash_index i))"
    by (rule visit_node_Some)
  have "numbers st' = numbers st" by (simp add: st' with_ring_def)
  moreover have "table_ok st'" unfolding st' using ok table_ok_ring [OF ok] n(3)
    by (intro with_ring_ok) simp_all
  moreover have "find_in st i = Some n" using n(1) by (simp add: find_in_def)
  ultimately show ?thesis using n(2,4)
    by (auto simp: st' with_ring_find [OF ok]) (simp_all add: find_in_def)
next
  case None
  note v = this
  then have f: "find_in st i = None" by (simp add: visit_node_None find_in_def)
  show ?thesis
  proof (cases "mem clk")
    case None
    with v run f ok show ?thesis by (auto simp: inode_allocate_def Let_def)
  next
    case (Some junk)
    let ?node = "\<lparr>num = ucast i, refCount = junk + 1, stamp = 0\<rparr>"
    let ?ring = "?node # inodes st ! hash_index i"
    have st': "st' = with_ring st i ?ring" and r: "r = 1"
      using v run Some by (auto simp: inode_allocate_def Let_def with_ring_def)
    have "ucast i \<noteq> num n" if "n \<in> set (inodes st ! hash_index i)" for n
      using f that ucast_narrow [OF nar] by (auto simp: find_in_def ring_find_None)
    then have "ucast i \<notin> num ` set (inodes st ! hash_index i)" by blast
    then have "distinct (map num ?ring)" using table_ok_ring [OF ok, of i] by simp
    then have "table_ok st'" unfolding st' by (rule with_ring_ok [OF ok])
    moreover have "find_in st' j = (if j = i then Some ?node else find_in st j)" for j
      by (auto simp: st' with_ring_find [OF ok] ucast_narrow [OF nar]) (simp_all add: find_in_def)
    ultimately show ?thesis using f Some r by (simp add: st' with_ring_def)
  qed
qed

lemma new_table_ok: "table_ok (new_table t)" "find_in (new_table t) j = None"
  by (simp_all add: table_ok_def new_table_def find_in_def)

text \<open>The map after a change of one table.\<close>

lemma node_of_upd_table:
  assumes "\<And>u. table_of u ss = (if u = t then Some st' else table_of u (fs_stores s))"
    and "\<And>j. find_in st' j = (if j = i then x else
      case table_of t (fs_stores s) of None \<Rightarrow> None | Some st \<Rightarrow> find_in st j)"
  shows "node_of (s\<lparr>fs_stores := ss, clock := c\<rparr>) = (node_of s)((t, i) := x)"
  using assms by (auto simp: fun_eq_iff node_of_find_in split: option.splits)

lemma insert_inode_ht_cases:
  assumes ok: "registry_ok s" and nar: "narrow i" and run: "insert_inode_ht mem t i s = (s', r)"
  shows "registry_ok s' \<and> nonce s' = nonce s \<and>
    (case node_of s (t, i) of
       Some n \<Rightarrow>
         (if stamp n < nonce s
          then r = 1 \<and> node_of s' = (node_of s)((t, i) \<mapsto> n\<lparr>refCount := refCount n + 1, stamp := nonce s\<rparr>)
          else r = - 1 \<and> node_of s' = node_of s)
     | None \<Rightarrow>
         r = 0 \<and> node_of s' = node_of s \<and> (\<exists>k. mem k = None) \<or>
         r = 1 \<and> (\<exists>k junk. mem k = Some junk \<and>
           node_of s' = (node_of s)((t, i) \<mapsto> \<lparr>num = ucast i, refCount = junk + 1, stamp = 0\<rparr>)))"
proof (cases "insert_in_tables mem (nonce s) (clock s) t i (fs_stores s)")
  case (Some p)
  then obtain ss clk where ins: "insert_in_tables mem (nonce s) (clock s) t i (fs_stores s) = Some (ss, clk, r)"
    and s': "s' = s\<lparr>fs_stores := ss, clock := clk\<rparr>"
    using run by (cases p) (auto simp: insert_inode_ht_def)
  from ins obtain st st' where st: "table_of t (fs_stores s) = Some st"
    and al: "inode_allocate mem (nonce s) (clock s) st i = (st', clk, r)"
    and nums: "map numbers ss = map numbers (fs_stores s)" and sub: "set ss \<subseteq> insert st' (set (fs_stores s))"
    and tab: "\<forall>u. table_of u ss = (if u = t then Some st' else table_of u (fs_stores s))"
    by (rule insert_in_tables_Some)
  have tok: "table_ok st" using ok table_of_Some [OF st] by (simp add: registry_ok_def)
  note A = inode_allocate_cases [OF tok nar al]
  have "registry_ok s'" using ok A sub nums by (auto simp: registry_ok_def s')
  moreover have "node_of s (t, i) = find_in st i" by (simp add: node_of_find_in st)
  moreover have "node_of s' = (node_of s)((t, i) := find_in st' i)"
    if "\<And>j. j \<noteq> i \<Longrightarrow> find_in st' j = find_in st j"
    unfolding s' using tab that by (intro node_of_upd_table) (auto simp: st)
  ultimately show ?thesis using A by (auto simp: s' fun_upd_idem split: option.splits if_splits)
next
  case None
  then have none: "table_of t (fs_stores s) = None" by (simp add: insert_in_tables_None)
  then have nn: "node_of s (t, i) = None" by (simp add: node_of_find_in)
  show ?thesis
  proof (cases "mem (clock s)")
    case None
    with \<open>insert_in_tables mem (nonce s) (clock s) t i (fs_stores s) = None\<close> run nn ok show ?thesis
      by (auto simp: insert_inode_ht_def registry_ok_def node_of_def [abs_def])
  next
    case (Some _)
    with None run obtain st' clk where al:
      "inode_allocate mem (nonce s) (Suc (clock s)) (new_table t) i = (st', clk, r)"
      and s': "s' = s\<lparr>fs_stores := st' # fs_stores s, clock := clk\<rparr>"
      by (auto simp: insert_inode_ht_def Let_def split: prod.splits)
    note A = inode_allocate_cases [OF new_table_ok(1) nar al, unfolded new_table_ok(2)]
    have num: "numbers st' = t" using A by (simp add: new_table_def)
    then have "registry_ok s'" using A ok none by (auto simp: registry_ok_def s' table_of_None)
    moreover have "node_of s' = (node_of s)((t, i) := find_in st' i)"
      if "\<And>j. j \<noteq> i \<Longrightarrow> find_in st' j = None"
      unfolding s' using that by (intro node_of_upd_table) (auto simp: none num)
    ultimately show ?thesis using A nn
      by (auto simp: s' fun_upd_idem new_table_ok split: option.splits if_splits)
  qed
qed

lemma rm_inode_ht_cases:
  assumes ok: "registry_ok s"
  shows "case node_of s (t, i) of
      None \<Rightarrow> rm_inode_ht t i s =
        (if t \<in> numbers ` set (fs_stores s) then Inl Runaway else Inr (s, 0))
    | Some n \<Rightarrow> (\<exists>s' r. rm_inode_ht t i s = Inr (s', r) \<and> registry_ok s' \<and> nonce s' = nonce s \<and>
        clock s' = clock s \<and>
        (if stamp n < nonce s then r = 1 \<and> node_of s' = (node_of s)((t, i) :=
             (if refCount n = 1 then None else Some (n\<lparr>refCount := refCount n - 1, stamp := nonce s\<rparr>)))
         else r = - 1 \<and> node_of s' = node_of s))"
proof (cases "table_of t (fs_stores s)")
  case None
  then have "rm_in_tables (nonce s) t i (fs_stores s) = Inr (fs_stores s, 0)"
    by (rule rm_in_tables_None)
  moreover have "node_of s (t, i) = None" by (simp add: node_of_find_in None)
  moreover have "t \<notin> numbers ` set (fs_stores s)" using None by (simp add: table_of_None)
  ultimately show ?thesis by (simp add: rm_inode_ht_def)
next
  case (Some st)
  then have tok: "table_ok st" using ok table_of_Some by (fastforce simp: registry_ok_def)
  have known: "t \<in> numbers ` set (fs_stores s)" using table_of_Some [OF Some] by auto
  have node: "node_of s (t, i) = ring_find i (inodes st ! hash_index i)"
    by (simp add: node_of_def Some)
  note R = rm_in_tables_Some [OF Some, of "nonce s" i]
  show ?thesis
  proof (cases "release_node (nonce s) i (inodes st ! hash_index i)")
    case None
    with R node known show ?thesis by (simp add: release_node_None rm_inode_ht_def)
  next
    case (Some p)
    then obtain ring r where rel: "release_node (nonce s) i (inodes st ! hash_index i) = Some (ring, r)"
      by (cases p) auto
    then obtain n where n: "ring_find i (inodes st ! hash_index i) = Some n"
      "r = (if stamp n < nonce s then 1 else - 1)" "distinct (map num ring)"
      "\<forall>j. ring_find j ring = (if j \<noteq> i then ring_find j (inodes st ! hash_index i)
        else if \<not> stamp n < nonce s then Some n
        else if refCount n = 1 then None
        else Some (n\<lparr>refCount := refCount n - 1, stamp := nonce s\<rparr>))"
      using table_ok_ring [OF tok, of i] by (rule release_node_Some)
    obtain ss where run: "rm_in_tables (nonce s) t i (fs_stores s) = Inr (ss, r)"
      and nums: "map numbers ss = map numbers (fs_stores s)"
      and sub: "set ss \<subseteq> insert (with_ring st i ring) (set (fs_stores s))"
      and tab: "\<And>u. table_of u ss = (if u = t then Some (with_ring st i ring) else table_of u (fs_stores s))"
      using R rel by auto
    let ?s' = "s\<lparr>fs_stores := ss, clock := clock s\<rparr>"
    have wr: "find_in (with_ring st i ring) j = (if j = i then ring_find i ring else find_in st j)" for j
      unfolding with_ring_find [OF tok] using n(4) by (simp add: find_in_def)
    have "registry_ok ?s'" using ok with_ring_ok [OF tok n(3), of i] sub nums
      by (auto simp: registry_ok_def)
    moreover have "node_of ?s' = (node_of s)((t, i) := ring_find i ring)"
      by (rule node_of_upd_table [OF tab]) (simp only: wr \<open>table_of t (fs_stores s) = Some st\<close> option.case)
    moreover have "rm_inode_ht t i s = Inr (?s', r)" by (simp add: rm_inode_ht_def run)
    ultimately show ?thesis using n node
      by (auto simp: fun_upd_idem)
  qed
qed

lemma check_ring_find: "check_ring i ring \<longleftrightarrow> ring_find i ring \<noteq> None"
  by (induction ring) auto

lemma check_tables_find:
  "distinct (map numbers ss) \<Longrightarrow> check_tables t i ss \<longleftrightarrow>
    (\<exists>st. table_of t ss = Some st \<and> find_in st i \<noteq> None)"
proof (induction ss)
  case (Cons s ss)
  then have "numbers s = t \<Longrightarrow> table_of t ss = None" by (auto simp: table_of_None)
  with Cons show ?case by (auto simp: check_ring_find find_in_def)
qed simp

lemma check_inode_iff:
  "registry_ok s \<Longrightarrow> check_inode t i s = (if node_of s (t, i) \<noteq> None then 1 else 0)"
  by (auto simp: check_inode_def check_tables_find registry_ok_def node_of_find_in split: option.splits)



lemma check_inode_dom: "registry_ok s \<Longrightarrow> check_inode t i s = (if (t, i) \<in> dom (node_of s) then 1 else 0)"
  by (simp add: check_inode_iff dom_def)

section \<open>Properties\<close>

text \<open>
  C22. Counting an inode in refines an update of the map of nodes: a node that this pass has not seen
  is counted once more and stamped, one that it has seen is left alone (-1), an unknown inode gets a
  node, and only when an allocation fails nothing happens (0). No other inode is affected, and the
  registry stays well formed.
\<close>

theorem insert_inode_ht_counts:
  assumes "registry_ok s" and "narrow i" and "insert_inode_ht mem t i s = (s', r)"
  shows "registry_ok s' \<and> nonce s' = nonce s \<and>
    (case node_of s (t, i) of
       Some n \<Rightarrow>
         (if stamp n < nonce s
          then r = 1 \<and> node_of s' = (node_of s)((t, i) \<mapsto> n\<lparr>refCount := refCount n + 1, stamp := nonce s\<rparr>)
          else r = - 1 \<and> node_of s' = node_of s)
     | None \<Rightarrow>
         r = 0 \<and> node_of s' = node_of s \<and> (\<exists>k. mem k = None) \<or>
         r = 1 \<and> (\<exists>k junk. mem k = Some junk \<and>
           node_of s' = (node_of s)((t, i) \<mapsto> \<lparr>num = ucast i, refCount = junk + 1, stamp = 0\<rparr>)))"
  using assms by (rule insert_inode_ht_cases)

definition demo_registry :: inode_store where
  "demo_registry = \<lparr>fs_stores = [], nonce = 1, clock = 0\<rparr>"

definition zero_memory :: memory where
  "zero_memory n = Some 0"

lemma demo_registry_ok: "registry_ok demo_registry" "node_of demo_registry k = None" "narrow 5"
  by (simp_all add: registry_ok_def demo_registry_def node_of_def narrow_def)

theorem insert_inode_ht_counts_witness:
  "\<exists>s' r. insert_inode_ht zero_memory 8 5 demo_registry = (s', r) \<and> r = 1 \<and> registry_ok s' \<and>
     node_of s' (8, 5) = Some \<lparr>num = 5, refCount = 1, stamp = 0\<rparr>"
proof -
  obtain s' r where run: "insert_inode_ht zero_memory 8 5 demo_registry = (s', r)" by fastforce
  from insert_inode_ht_counts [OF demo_registry_ok(1) demo_registry_ok(3) run] run
  show ?thesis by (auto simp: demo_registry_ok(2) zero_memory_def)
qed

text \<open>
  C23. Counting an inode out: a node that this pass has not seen loses one count, and is freed when
  the count reaches 0; one that it has seen is left alone (-1); an inode of a device without a
  table changes nothing (0). For an inode that is not in the table of its device the call never
  returns.
\<close>

theorem rm_inode_ht_counts:
  assumes "registry_ok s"
  shows "case node_of s (t, i) of
      None \<Rightarrow> rm_inode_ht t i s =
        (if t \<in> numbers ` set (fs_stores s) then Inl Runaway else Inr (s, 0))
    | Some n \<Rightarrow> (\<exists>s' r. rm_inode_ht t i s = Inr (s', r) \<and> registry_ok s' \<and> nonce s' = nonce s \<and>
        clock s' = clock s \<and>
        (if stamp n < nonce s then r = 1 \<and> node_of s' = (node_of s)((t, i) :=
             (if refCount n = 1 then None else Some (n\<lparr>refCount := refCount n - 1, stamp := nonce s\<rparr>)))
         else r = - 1 \<and> node_of s' = node_of s))"
  using assms by (rule rm_inode_ht_cases)

definition demo_tracked :: inode_store where
  "demo_tracked = \<lparr>fs_stores = [\<lparr>numbers = 8,
     inodes = (replicate HASH_TABLE_SIZE [])[5 := [\<lparr>num = 5, refCount = 1, stamp = 0\<rparr>]]\<rparr>],
     nonce = 1, clock = 2\<rparr>"

lemma demo_tracked_ok: "registry_ok demo_tracked"
  by code_simp

theorem rm_inode_ht_counts_witness:
  "rm_inode_ht 8 6 demo_tracked = Inl Runaway \<and>
   (\<exists>s'. rm_inode_ht 8 5 demo_tracked = Inr (s', 1) \<and> node_of s' (8, 5) = None)"
proof -
  have n: "node_of demo_tracked (8, 6) = None"
    "node_of demo_tracked (8, 5) = Some \<lparr>num = 5, refCount = 1, stamp = 0\<rparr>"
    "8 \<in> numbers ` set (fs_stores demo_tracked)" "nonce demo_tracked = 1" by code_simp+
  from rm_inode_ht_counts [OF demo_tracked_ok, of 8 6] rm_inode_ht_counts [OF demo_tracked_ok, of 8 5]
  show ?thesis by (auto simp: n)
qed

text \<open>
  What was counted in is found: after a call that did not fail \<open>check_inode\<close> reports the
  inode, and its answer for every other inode is what it was.
\<close>

theorem insert_then_check:
  assumes "registry_ok s" and "narrow i" and "insert_inode_ht mem t i s = (s', r)" and "r \<noteq> 0"
  shows "check_inode t i s' = 1 \<and> (\<forall>u j. (u, j) \<noteq> (t, i) \<longrightarrow> check_inode u j s' = check_inode u j s)"
proof -
  note cases = insert_inode_ht_cases [OF assms(1-3)]
  then have "registry_ok s'" by blast
  with cases assms(1,4) show ?thesis
    by (auto simp: check_inode_iff split: option.splits if_splits)
qed

theorem insert_then_check_witness:
  "check_inode 8 5 (fst (insert_inode_ht zero_memory 8 5 demo_registry)) = 1 \<and>
   check_inode 8 6 (fst (insert_inode_ht zero_memory 8 5 demo_registry)) = check_inode 8 6 demo_registry"
proof -
  have r: "snd (insert_inode_ht zero_memory 8 5 demo_registry) \<noteq> 0" by code_simp
  from insert_then_check [OF demo_registry_ok(1) demo_registry_ok(3) prod.collapse [symmetric] r]
  show ?thesis by simp
qed

text \<open>
  Adding and removing undo each other: an unknown inode that one pass counts in once, into a
  zeroed object of the slab, and the next pass counts out is unknown again, and the rest of the map is
  as before.
\<close>

theorem insert_rm_roundtrip:
  assumes "registry_ok s" and "narrow i" and "node_of s (t, i) = None" and "\<forall>k. mem k = Some 0"
    and "insert_inode_ht mem t i s = (s1, r1)" and "nonce s < nonce s + 1"
  shows "\<exists>s2. rm_inode_ht t i (s1\<lparr>nonce := nonce s + 1\<rparr>) = Inr (s2, 1) \<and> node_of s2 = node_of s"
proof -
  let ?s1 = "s1\<lparr>nonce := nonce s + 1\<rparr>"
  have pos: "0 < nonce s + 1" using assms(6) by (metis word_gt_0 word_not_simps(1))
  from insert_inode_ht_cases [OF assms(1,2,5)] assms(3,4)
  have ok: "registry_ok s1"
    and n: "node_of s1 = (node_of s)((t, i) \<mapsto> \<lparr>num = ucast i, refCount = 1, stamp = 0\<rparr>)" by auto
  have ok1: "registry_ok ?s1" and n1: "node_of ?s1 = node_of s1"
    using ok by (simp_all add: registry_ok_def node_of_def [abs_def])
  from rm_inode_ht_cases [OF ok1, of t i] obtain s2 where
    "rm_inode_ht t i ?s1 = Inr (s2, 1)" and "node_of s2 = (node_of s1)((t, i) := None)"
    by (auto simp: n1 n pos)
  moreover have "(node_of s1)((t, i) := None) = node_of s" using assms(3) by (auto simp: n)
  ultimately show ?thesis by auto
qed

theorem insert_rm_roundtrip_witness:
  "\<exists>s2. rm_inode_ht 8 5 ((fst (insert_inode_ht zero_memory 8 5 demo_registry))\<lparr>nonce := 2\<rparr>) = Inr (s2, 1) \<and>
     node_of s2 = node_of demo_registry"
proof -
  have z: "\<forall>k. zero_memory k = Some 0" and l: "nonce demo_registry < nonce demo_registry + 1"
    and two: "nonce demo_registry + 1 = 2"
    by (simp_all add: zero_memory_def demo_registry_def)
  from insert_rm_roundtrip [OF demo_registry_ok(1) demo_registry_ok(3) demo_registry_ok(2) z
    prod.collapse [symmetric] l]
  show ?thesis unfolding two .
qed

text \<open>
  The field \<open>num\<close> has 32 bits and the number it is compared with 64: an inode whose number
  does not fit is never found, whatever was counted in before, so it is never protected by its inode.
\<close>

theorem wide_inode_never_found:
  assumes "\<not> narrow i"
  shows "check_inode t i s = 0"
proof -
  have "ring_find i ring = None" for ring
    using assms narrow_ucast by (auto simp: ring_find_None)
  then have "\<not> check_tables t i ss" for ss by (induction ss) (simp_all add: check_ring_find)
  then show ?thesis by (simp add: check_inode_def)
qed

theorem wide_inode_never_found_witness:
  "check_inode 8 0x100000005 (fst (insert_inode_ht zero_memory 8 0x100000005 demo_registry)) = 0"
  by (rule wide_inode_never_found) (simp add: narrow_def)

text \<open>
  C27. A new node keeps the stamp 0 instead of that of the pass, so a pass that meets the same new
  inode twice (a hard link) counts it twice. The pass that removes the path meets it as often but
  counts it out once: the node is left with the count that one insertion gave it, whatever the slab object
  held before, and the inode stays protected. The only exception is the count that one insertion makes 0,
  from an object that held the largest word: its node is deleted.
\<close>

theorem double_visit_sticks:
  assumes "registry_ok s" and "narrow i" and "node_of s (t, i) = None"
    and "insert_inode_ht mem t i s = (s1, r1)" and "insert_inode_ht mem t i s1 = (s2, r2)"
    and "node_of s1 (t, i) = Some n" and "refCount n \<noteq> 0"
    and "0 < nonce s" and "nonce s < nonce s + 1"
    and "rm_inode_ht t i (s2\<lparr>nonce := nonce s + 1\<rparr>) = Inr (s3, r3)"
    and "rm_inode_ht t i s3 = Inr (s4, r4)"
  shows "r1 = 1 \<and> r2 = 1 \<and> r3 = 1 \<and> r4 = - 1 \<and>
    node_of s4 (t, i) = Some (n\<lparr>stamp := nonce s + 1\<rparr>) \<and> check_inode t i s4 = 1"
proof -
  let ?s2 = "s2\<lparr>nonce := nonce s + 1\<rparr>"
  from insert_inode_ht_cases [OF assms(1,2,4)] assms(3,6)
  have ok1: "registry_ok s1" and now1: "nonce s1 = nonce s" and r1: "r1 = 1" and n: "stamp n = 0" by auto
  from insert_inode_ht_cases [OF ok1 assms(2,5)] assms(8)
  have ok2: "registry_ok s2" and r2: "r2 = 1"
    and n2: "node_of s2 (t, i) = Some (n\<lparr>refCount := refCount n + 1, stamp := nonce s\<rparr>)"
    by (auto simp: assms(6) n now1)
  have ok2': "registry_ok ?s2" and n2': "node_of ?s2 = node_of s2"
    using ok2 by (simp_all add: registry_ok_def node_of_def [abs_def])
  from rm_inode_ht_cases [OF ok2', of t i] assms(7,9,10)
  have ok3: "registry_ok s3" and r3: "r3 = 1" and now3: "nonce s3 = nonce s + 1"
    and n3: "node_of s3 (t, i) = Some (n\<lparr>stamp := nonce s + 1\<rparr>)"
    by (auto simp: n2' n2)
  from rm_inode_ht_cases [OF ok3, of t i] assms(11)
  have "r4 = - 1 \<and> registry_ok s4 \<and> node_of s4 = node_of s3" by (auto simp: n3 now3)
  with r1 r2 r3 n3 show ?thesis by (simp add: check_inode_iff)
qed

text \<open>The bytes of a freed slab object.\<close>

definition poison_memory :: memory where
  "poison_memory n = Some 0x6b6b6b6b6b6b6b6b"

theorem double_visit_sticks_witness:
  "\<exists>s3 s4. rm_inode_ht 8 5 ((fst (insert_inode_ht poison_memory 8 5
       (fst (insert_inode_ht poison_memory 8 5 demo_registry))))\<lparr>nonce := 2\<rparr>) = Inr (s3, 1) \<and>
     rm_inode_ht 8 5 s3 = Inr (s4, - 1) \<and>
     node_of s4 (8, 5) = Some \<lparr>num = 5, refCount = 0x6b6b6b6b6b6b6b6c, stamp = 2\<rparr> \<and> check_inode 8 5 s4 = 1"
proof -
  let ?s1 = "fst (insert_inode_ht poison_memory 8 5 demo_registry)"
  let ?s2 = "fst (insert_inode_ht poison_memory 8 5 ?s1)"
  let ?n = "\<lparr>num = 5, refCount = 0x6b6b6b6b6b6b6b6c, stamp = 0\<rparr>"
  have l: "nonce demo_registry < nonce demo_registry + 1"
    and p: "0 < nonce demo_registry" and two: "nonce demo_registry + 1 = 2"
    by (simp_all add: demo_registry_def)
  have n: "node_of ?s1 (8, 5) = Some ?n" by code_simp
  have "refCount ?n \<noteq> 0" by simp
  note n' = n this
  have "case rm_inode_ht 8 5 (?s2\<lparr>nonce := 2\<rparr>) of Inl f \<Rightarrow> False
    | Inr (s3, r) \<Rightarrow> (case rm_inode_ht 8 5 s3 of Inl f \<Rightarrow> False | Inr q \<Rightarrow> True)" by code_simp
  then obtain s3 r3 s4 r4 where a: "rm_inode_ht 8 5 (?s2\<lparr>nonce := 2\<rparr>) = Inr (s3, r3)"
    and b: "rm_inode_ht 8 5 s3 = Inr (s4, r4)" by (auto split: sum.splits)
  from double_visit_sticks [OF demo_registry_ok(1) demo_registry_ok(3) demo_registry_ok(2)
    prod.collapse [symmetric] prod.collapse [symmetric] n' p l a [folded two] b] a b
  show ?thesis by (auto simp: two)
qed

lemma free_ring_None: "free_ring None ring = map Freed_Node ring"
proof -
  have "free_ring (Some n) ring = map Freed_Node (n # ring)" for n
    by (induction ring arbitrary: n) auto
  then show ?thesis by (cases ring) auto
qed

lemma mset_free_tables:
  "mset (free_tables prev ss) =
     mset (map Freed_Node (concat (concat (map inodes ss)))) +
     mset (map (\<lambda>s. Freed_Table (numbers s)) ((case prev of None \<Rightarrow> [] | Some p \<Rightarrow> [p]) @ ss))"
proof (induction ss arbitrary: prev)
  case Nil
  then show ?case by (cases prev) auto
next
  case (Cons s ss)
  have "concat (map (free_ring None) rings) = map Freed_Node (concat rings)" for rings
    by (induction rings) (simp_all add: free_ring_None)
  with Cons show ?case by (cases prev) auto
qed

text \<open>
  \<open>cleanup_inode_store\<close> gives every node and every table back to its cache exactly once,
  although each loop frees the object behind its cursor, and leaves the list empty.
\<close>

theorem cleanup_frees_once:
  "fs_stores (fst (cleanup_inode_store s)) = [] \<and>
   mset (snd (cleanup_inode_store s)) =
     mset (map Freed_Node (concat (concat (map inodes (fs_stores s))))) +
     mset (map (\<lambda>st. Freed_Table (numbers st)) (fs_stores s))"
  by (simp add: cleanup_inode_store_def mset_free_tables)


section \<open>The registry as the registry of a pass\<close>

text \<open>
  How often one pass can still count an inode in: twice when it is unknown, because a new node keeps
  the stamp 0, once when its node has an older stamp.
\<close>

definition visits_left :: "inode_store \<Rightarrow> 32 word \<times> 64 word \<Rightarrow> nat" where
  "visits_left s k =
     (case node_of s k of None \<Rightarrow> 2 | Some n \<Rightarrow> if stamp n < nonce s then 1 else 0)"

definition full_memory :: "(nat \<Rightarrow> 64 word) \<Rightarrow> memory" where
  "full_memory junk n = Some (junk n)"

lemma full_memory_exists:
  assumes "\<forall>n. mem n \<noteq> None"
  obtains junk where "mem = full_memory junk"
proof
  show "mem = full_memory (\<lambda>n. the (mem n))"
    using assms by (auto simp: full_memory_def fun_eq_iff)
qed

lemma visits_left_upd:
  "nonce s' = nonce s \<Longrightarrow> node_of s' = (node_of s)(k \<mapsto> n) \<Longrightarrow>
   visits_left s' = (visits_left s)(k := (if stamp n < nonce s then 1 else 0))"
  by (rule ext) (simp add: visits_left_def split: option.splits)

text \<open>No node carries a stamp from the future.\<close>

definition stamps_le :: "inode_store \<Rightarrow> bool" where
  "stamps_le s = (\<forall>k n. node_of s k = Some n \<longrightarrow> stamp n \<le> nonce s)"

definition pass_ok :: "64 word \<Rightarrow> inode_store \<Rightarrow> bool" where
  "pass_ok now s = (registry_ok s \<and> nonce s = now \<and> 0 < now \<and> stamps_le s)"

lemma insert_stamps_le:
  assumes "registry_ok s" and "narrow i" and "insert_inode_ht mem t i s = (s', r)" and "stamps_le s"
  shows "stamps_le s'"
  using insert_inode_ht_cases [OF assms(1-3)] assms(4)
  unfolding stamps_le_def
  by (auto simp del: split_paired_All split: option.splits if_splits)

interpretation inode_pass: visit_pass "pass_ok now" "\<lambda>k. narrow (snd k)"
  "\<lambda>k. insert_inode_ht (full_memory junk) (fst k) (snd k)" visits_left "\<lambda>s. dom (node_of s)"
  for junk now
proof
  fix s s' :: inode_store and k :: "32 word \<times> 64 word" and r :: int
  assume "pass_ok now s" and good: "narrow (snd k)"
  then have ok: "registry_ok s \<and> 0 < nonce s" and le: "stamps_le s" and now: "nonce s = now"
    by (auto simp: pass_ok_def)
  note cases = insert_inode_ht_cases [OF conjunct1 [OF ok] good, of "full_memory junk" "fst k", unfolded prod.collapse]
  show "pass_ok now s'"
    if "insert_inode_ht (full_memory junk) (fst k) (snd k) s = (s', r)"
    using cases [OF that] ok now insert_stamps_le [OF conjunct1 [OF ok] good that le]
    by (simp add: pass_ok_def)
  show "visits_left s k = 0 \<and> visits_left s' = visits_left s \<and> dom (node_of s') = dom (node_of s)"
    if "insert_inode_ht (full_memory junk) (fst k) (snd k) s = (s', - 1)"
    using cases [OF that]
    by (auto simp: visits_left_def fun_eq_iff split: option.splits if_splits)
  show "0 < visits_left s k \<and> visits_left s' = (visits_left s)(k := visits_left s k - 1) \<and>
      dom (node_of s') = insert k (dom (node_of s))"
    if run: "insert_inode_ht (full_memory junk) (fst k) (snd k) s = (s', r)" and r: "r \<noteq> - 1"
  proof (cases "node_of s k")
    case None
    then obtain n where n: "node_of s' = (node_of s)(k \<mapsto> n)" "stamp n = 0" "nonce s' = nonce s"
      using cases [OF run] by (auto simp: full_memory_def)
    then show ?thesis using visits_left_upd [OF n(3,1)] None ok by (simp add: visits_left_def)
  next
    case (Some n)
    then have st: "stamp n < nonce s" and
      n: "node_of s' = (node_of s)(k \<mapsto> n\<lparr>refCount := refCount n + 1, stamp := nonce s\<rparr>)"
      "nonce s' = nonce s" using cases [OF run] r by (auto split: if_splits)
    from visits_left_upd [OF n(2,1)] n(1) st Some show ?thesis by (simp add: visits_left_def)
  qed
qed

end
