(* ===== verification/Oracle.thy ===== *)
theory Oracle
  imports Inode_Store
begin

text \<open>
  The oracles of \<open>oracles/\<close>: \<open>pathname_oracle\<close> asks the kernel for the canonical path, the
  device and the inode number behind a path, \<open>pathname_oracle_at\<close> does it relative to an open
  directory, and \<open>addr_kprobe_oracle\<close> reads the address of a kernel symbol off a probe.

  The file system of the kernel is a parameter, the record \<open>vfs\<close>: what its functions answer
  while one call runs. What the module takes from it is counted: references to dentries and to paths,
  shared locks of inodes, and the objects it has allocated. The lemmas say what each call leaves
  behind in these counts.
\<close>

section \<open>The file system and what is taken from it\<close>

type_synonym dentry = nat
type_synonym ino_key = "32 word \<times> 64 word"

text \<open>
  \<open>kern_path path follow\<close> is the dentry of the path it resolves, if it does; \<open>d_inode\<close>
  the device and number of the inode of a dentry, none for a negative one; \<open>d_path\<close> and
  \<open>dentry_path_raw\<close> write a path into a buffer of the given size, or give an error;
  \<open>d_subdirs\<close> are the children the dentry cache has of a directory.
\<close>

record vfs =
  kern_path :: "string \<Rightarrow> bool \<Rightarrow> dentry option"
  d_inode :: "dentry \<Rightarrow> ino_key option"
  d_is_symlink :: "dentry \<Rightarrow> bool"
  d_path :: "dentry \<Rightarrow> nat \<Rightarrow> string option"
  dentry_path_raw :: "dentry \<Rightarrow> nat \<Rightarrow> string option"
  d_subdirs :: "dentry \<Rightarrow> dentry list"
  fd_path :: "int \<Rightarrow> dentry option"

record held =
  dentry_refs :: "dentry \<Rightarrow> int"
  path_refs :: "dentry \<Rightarrow> int"
  inode_readers :: "ino_key \<Rightarrow> int"
  umount_readers :: "32 word \<Rightarrow> int"
  objects :: int
  kclock :: nat

definition dget :: "dentry \<Rightarrow> held \<Rightarrow> held" where
  "dget d k = k\<lparr>dentry_refs := (dentry_refs k)(d := dentry_refs k d + 1)\<rparr>"

definition dput :: "dentry \<Rightarrow> held \<Rightarrow> held" where
  "dput d k = k\<lparr>dentry_refs := (dentry_refs k)(d := dentry_refs k d - 1)\<rparr>"

definition path_get :: "dentry \<Rightarrow> held \<Rightarrow> held" where
  "path_get d k = k\<lparr>path_refs := (path_refs k)(d := path_refs k d + 1)\<rparr>"

definition path_put :: "dentry \<Rightarrow> held \<Rightarrow> held" where
  "path_put d k = k\<lparr>path_refs := (path_refs k)(d := path_refs k d - 1)\<rparr>"

definition inode_lock_shared :: "ino_key \<Rightarrow> held \<Rightarrow> held" where
  "inode_lock_shared i k = k\<lparr>inode_readers := (inode_readers k)(i := inode_readers k i + 1)\<rparr>"

definition inode_unlock_shared :: "ino_key \<Rightarrow> held \<Rightarrow> held" where
  "inode_unlock_shared i k = k\<lparr>inode_readers := (inode_readers k)(i := inode_readers k i - 1)\<rparr>"

definition umount_down_read :: "32 word \<Rightarrow> held \<Rightarrow> held" where
  "umount_down_read s k = k\<lparr>umount_readers := (umount_readers k)(s := umount_readers k s + 1)\<rparr>"

definition umount_up_read :: "32 word \<Rightarrow> held \<Rightarrow> held" where
  "umount_up_read s k = k\<lparr>umount_readers := (umount_readers k)(s := umount_readers k s - 1)\<rparr>"

definition kfree :: "held \<Rightarrow> held" where
  "kfree k = k\<lparr>objects := objects k - 1\<rparr>"

text \<open>The allocation of an object: whether the memory gave one.\<close>

definition kmalloc :: "memory \<Rightarrow> held \<Rightarrow> held \<times> bool" where
  "kmalloc mem k =
     (case mem (kclock k) of
        None \<Rightarrow> (k\<lparr>kclock := Suc (kclock k)\<rparr>, False)
      | Some _ \<Rightarrow> (k\<lparr>kclock := Suc (kclock k), objects := objects k + 1\<rparr>, True))"

section \<open>The oracle of paths\<close>

text \<open>
  The decree and the path share an object of 8192 bytes; \<open>path\<close> points at a C string in it.
  \<open>dentry_of\<close> is the dentry of \<open>path_struct\<close>.
\<close>

record path_decree =
  decree_path :: string
  device :: "32 word"
  inode :: "64 word"
  dentry_of :: dentry

definition DECREE_SIZE :: nat where
  "DECREE_SIZE = 8192"

definition SIZEOF_DECREE :: nat where
  "SIZEOF_DECREE = 40"

definition pathname_oracle ::
  "memory \<Rightarrow> vfs \<Rightarrow> string \<Rightarrow> held \<Rightarrow> held \<times> path_decree option" where
  "pathname_oracle mem fs path k =
     (let (k, got) = kmalloc mem k in
      if \<not> got then (k, None)
      else
        (case kern_path fs path False of
           None \<Rightarrow> (kfree k, None)
         | Some d \<Rightarrow>
             let k = path_get d k;
                 k = dget d (path_get d k) in
             (case d_inode fs d of
                None \<Rightarrow> (kfree (path_put d (dput d k)), None)
              | Some (dev, ino) \<Rightarrow>
                  let k = umount_down_read dev (inode_lock_shared (dev, ino) k);
                      name = d_path fs d (DECREE_SIZE - SIZEOF_DECREE);
                      k = inode_unlock_shared (dev, ino) (umount_up_read dev k);
                      k = path_put d (dput d k) in
                  (case name of
                     None \<Rightarrow> (kfree (path_put d (dput d k)), None)
                   | Some s \<Rightarrow>
                       (k, Some \<lparr>decree_path = s, device = dev, inode = ino, dentry_of = d\<rparr>)))))"

section \<open>Relative to an open directory\<close>

definition AT_FDCWD :: int where
  "AT_FDCWD = - 100"

text \<open>
  The name of the directory, a slash unless it ends in one, and the path are copied into a zeroed
  object of 8192 bytes. The last byte has to stay 0 for the oracle to find the end.
\<close>

definition collate :: "string \<Rightarrow> string \<Rightarrow> string outcome" where
  "collate dir path =
     (if dir = [] then Inl Bad_Access
      else
        let joined = dir @ (if last dir \<noteq> SLASH then [SLASH] else []) @ path in
        if DECREE_SIZE \<le> length joined then Inl Bad_Access else Inr joined)"

definition pathname_oracle_at ::
  "memory \<Rightarrow> vfs \<Rightarrow> int \<Rightarrow> string \<Rightarrow> held \<Rightarrow> (held \<times> path_decree option) outcome" where
  "pathname_oracle_at mem fs dirfd path k =
     (if dirfd = AT_FDCWD \<or> path \<noteq> [] \<and> hd path = SLASH then Inr (pathname_oracle mem fs path k)
      else
        let (k, dirpath) = kmalloc mem k in
        if \<not> dirpath then Inr (k, None)
        else
          let (k, collation) = kmalloc mem k in
          if \<not> collation then Inr (kfree k, None)
          else
            (case fd_path fs dirfd of
               None \<Rightarrow> Inr (kfree (kfree k), None)
             | Some d \<Rightarrow>
                 let k = path_put d (path_get d k) in
                 (case d_path fs d (DECREE_SIZE - SIZEOF_DECREE) of
                    None \<Rightarrow> Inr (kfree (kfree k), None)
                  | Some dir \<Rightarrow>
                      bind_out (collate dir path) (\<lambda>joined.
                        let (k, retval) = pathname_oracle mem fs joined (kfree k) in
                        Inr (kfree k, retval)))))"

section \<open>The oracle of symbols\<close>

text \<open>
  A probe is registered at the symbol, its address read and the probe removed again. What
  registration gives (a result and an address) is a parameter; the count is the number of probes left
  registered.
\<close>

definition addr_kprobe_oracle ::
  "(string \<Rightarrow> int \<times> 64 word) \<Rightarrow> string \<Rightarrow> nat \<Rightarrow> nat \<times> 64 word" where
  "addr_kprobe_oracle register_kprobe symbol probes =
     (let (ret, addr) = register_kprobe symbol in
      if ret < 0 then (probes, 0)
      else
        let probes = Suc probes in
        (probes - 1, addr))"



section \<open>What the oracle answers and leaves behind\<close>

text \<open>The answer of the oracle, apart from references, locks and memory.\<close>

definition resolve :: "vfs \<Rightarrow> string \<Rightarrow> path_decree option" where
  "resolve fs path =
     (case kern_path fs path False of None \<Rightarrow> None
      | Some d \<Rightarrow> (case d_inode fs d of None \<Rightarrow> None
         | Some (dev, ino) \<Rightarrow> (case d_path fs d (DECREE_SIZE - SIZEOF_DECREE) of None \<Rightarrow> None
            | Some s \<Rightarrow> Some \<lparr>decree_path = s, device = dev, inode = ino, dentry_of = d\<rparr>)))"

lemmas held_ops = dget_def dput_def path_get_def path_put_def inode_lock_shared_def
  inode_unlock_shared_def umount_down_read_def umount_up_read_def kfree_def

lemma oracle_answer:
  "snd (pathname_oracle mem fs path k) = (if mem (kclock k) = None then None else resolve fs path)"
  by (auto simp: pathname_oracle_def kmalloc_def resolve_def Let_def split: option.splits)

lemma oracle_held:
  assumes "pathname_oracle mem fs path k = (k', answer)"
  shows "kclock k' = Suc (kclock k) \<and> inode_readers k' = inode_readers k \<and>
    umount_readers k' = umount_readers k \<and>
    objects k' = objects k + (if answer = None then 0 else 1) \<and>
    (case answer of
       Some decree \<Rightarrow> dentry_refs k' = dentry_refs k \<and>
         path_refs k' = (path_refs k)(dentry_of decree := path_refs k (dentry_of decree) + 1)
     | None \<Rightarrow>
         (case (if mem (kclock k) = None then None else kern_path fs path False) of
            None \<Rightarrow> dentry_refs k' = dentry_refs k \<and> path_refs k' = path_refs k
          | Some d \<Rightarrow>
              if d_inode fs d = None
              then dentry_refs k' = dentry_refs k \<and> path_refs k' = (path_refs k)(d := path_refs k d + 1)
              else dentry_refs k' = (dentry_refs k)(d := dentry_refs k d - 1) \<and>
                path_refs k' = path_refs k))"
  using assms
  by (auto simp: pathname_oracle_def kmalloc_def Let_def held_ops fun_eq_iff split: option.splits prod.splits)

text \<open>
  C29. \<open>pathname_oracle\<close> gives the canonical path, device and inode of what the kernel resolves
  the path to, and nothing when the memory, the path, the inode or the name is missing. It always
  returns the locks it took and keeps its object only for an answer; but the reference
  \<open>kern_path\<close> gave to the path is never put back, and when the name cannot be written the
  dentry is put once too often.
\<close>

theorem pathname_oracle_balance:
  assumes "pathname_oracle mem fs path k = (k', answer)"
  shows "answer = (if mem (kclock k) = None then None else resolve fs path) \<and>
    inode_readers k' = inode_readers k \<and> umount_readers k' = umount_readers k \<and>
    objects k' = objects k + (if answer = None then 0 else 1) \<and>
    (case answer of
       Some decree \<Rightarrow> dentry_refs k' = dentry_refs k \<and>
         path_refs k' = (path_refs k)(dentry_of decree := path_refs k (dentry_of decree) + 1)
     | None \<Rightarrow>
         (case (if mem (kclock k) = None then None else kern_path fs path False) of
            None \<Rightarrow> dentry_refs k' = dentry_refs k \<and> path_refs k' = path_refs k
          | Some d \<Rightarrow>
              if d_inode fs d = None
              then dentry_refs k' = dentry_refs k \<and> path_refs k' = (path_refs k)(d := path_refs k d + 1)
              else dentry_refs k' = (dentry_refs k)(d := dentry_refs k d - 1) \<and>
                path_refs k' = path_refs k))"
proof -
  have "answer = (if mem (kclock k) = None then None else resolve fs path)"
    using oracle_answer [of mem fs path k] assms by simp
  moreover note oracle_held [OF assms]
  ultimately show ?thesis by blast
qed

text \<open>A directory 1 at /d whose name can be written, open as descriptor 4.\<close>

definition demo_dir_fs :: vfs where
  "demo_dir_fs = \<lparr>kern_path = (\<lambda>p follow. if p = ''/d'' \<or> p = ''/d/.'' then Some 1 else None),
     d_inode = (\<lambda>d. if d = 1 then Some (8, 1) else None), d_is_symlink = (\<lambda>d. False),
     d_path = (\<lambda>d n. if d = 1 then Some ''/d'' else None), dentry_path_raw = (\<lambda>d n. None),
     d_subdirs = (\<lambda>d. []), fd_path = (\<lambda>n. if n = 4 then Some 1 else None)\<rparr>"

definition no_held :: held where
  "no_held = \<lparr>dentry_refs = (\<lambda>_. 0), path_refs = (\<lambda>_. 0), inode_readers = (\<lambda>_. 0),
     umount_readers = (\<lambda>_. 0), objects = 0, kclock = 0\<rparr>"

theorem pathname_oracle_balance_witness:
  "path_refs (fst (pathname_oracle zero_memory demo_dir_fs ''/d'' no_held)) 1 = 1 \<and>
   objects (fst (pathname_oracle zero_memory demo_dir_fs ''/d'' no_held)) = 1"
proof -
  have a: "snd (pathname_oracle zero_memory demo_dir_fs ''/d'' no_held) =
    Some \<lparr>decree_path = ''/d'', device = 8, inode = 1, dentry_of = 1\<rparr>"
    by (simp add: oracle_answer zero_memory_def resolve_def demo_dir_fs_def)
  from pathname_oracle_balance [OF prod.collapse [symmetric],
      of zero_memory demo_dir_fs "''/d''" no_held, unfolded a]
  show ?thesis by (simp add: no_held_def)
qed

text \<open>
  The oracle for a path relative to an open directory answers what the oracle of paths answers
  for the name of the directory, a slash, and the path: when memory lasts, the directory has a
  non-empty name that ends in no slash and the whole fits into 8191 bytes. No object is left behind
  but that of an answer.
\<close>

theorem oracle_at_joins:
  assumes "\<forall>n. mem n \<noteq> None" and "dirfd \<noteq> AT_FDCWD" and "path = [] \<or> hd path \<noteq> SLASH"
    and "fd_path fs dirfd = Some d" and "d_path fs d (DECREE_SIZE - SIZEOF_DECREE) = Some dir"
    and "dir \<noteq> []" and "last dir \<noteq> SLASH" and "length dir + 1 + length path < DECREE_SIZE"
  shows "\<exists>k'. pathname_oracle_at mem fs dirfd path k = Inr (k', resolve fs (dir @ SLASH # path)) \<and>
    objects k' = objects k + (if resolve fs (dir @ SLASH # path) = None then 0 else 1)"
proof -
  have joined: "collate dir path = Inr (dir @ SLASH # path)"
    using assms(6-8) by (simp add: collate_def)
  let ?k0 = "kfree (path_put d (path_get d (fst (kmalloc mem (fst (kmalloc mem k))))))"
  obtain k' answer where run: "pathname_oracle mem fs (dir @ SLASH # path) ?k0 = (k', answer)"
    by fastforce
  have a: "answer = resolve fs (dir @ SLASH # path)"
    using oracle_answer [of mem fs "dir @ SLASH # path" ?k0] run assms(1) by simp
  have m: "kmalloc mem k = (k\<lparr>kclock := Suc (kclock k), objects := objects k + 1\<rparr>, True)" for k
    using assms(1) by (auto simp: kmalloc_def split: option.splits)
  have "pathname_oracle_at mem fs dirfd path k = Inr (kfree k', answer)"
    using assms(2-5) run joined by (auto simp: pathname_oracle_at_def m Let_def)
  moreover have "objects ?k0 = objects k + 1" by (simp add: m held_ops)
  ultimately show ?thesis using oracle_held [OF run] by (simp add: a held_ops)
qed

theorem oracle_at_joins_witness:
  "\<exists>k'. pathname_oracle_at zero_memory demo_dir_fs 4 ''.'' no_held =
     Inr (k', Some \<lparr>decree_path = ''/d'', device = 8, inode = 1, dentry_of = 1\<rparr>) \<and> objects k' = 1"
proof -
  have "resolve demo_dir_fs (''/d'' @ SLASH # ''.'') =
    Some \<lparr>decree_path = ''/d'', device = 8, inode = 1, dentry_of = 1\<rparr>"
    by (simp add: resolve_def demo_dir_fs_def)
  moreover have "\<exists>k'. pathname_oracle_at zero_memory demo_dir_fs 4 ''.'' no_held =
      Inr (k', resolve demo_dir_fs (''/d'' @ SLASH # ''.'')) \<and>
    objects k' = objects no_held + (if resolve demo_dir_fs (''/d'' @ SLASH # ''.'') = None then 0 else 1)"
    by (rule oracle_at_joins) (auto simp: zero_memory_def AT_FDCWD_def demo_dir_fs_def DECREE_SIZE_def)
  ultimately show ?thesis by (simp add: no_held_def)
qed

end
