(* ===== verification/Store_Iterate.thy ===== *)
theory Store_Iterate
  imports Oracle
begin

text \<open>
  The walks of \<open>path_store/store_iterate.c\<close> over the dentries below a path, with a stack of the
  dentries still to be visited: \<open>store_iterate_add\<close> counts every inode it meets into the
  registry, \<open>store_iterate_rm\<close> counts them out. A dentry on the stack is held by a reference,
  the shared lock of its inode and a stack entry of its own.
\<close>

record iter =
  it_inodes :: inode_store
  it_held :: held

section \<open>Adding\<close>

text \<open>
  The children of a directory: each gets a reference and, unless it is negative, the lock of its
  inode. It is pushed when the registry counted it, and let go when this pass has seen it. The
  result of \<open>kmalloc\<close> for the stack entry is not tested.
\<close>

fun add_children ::
  "memory \<Rightarrow> memory \<Rightarrow> vfs \<Rightarrow> dentry list \<Rightarrow> dentry list \<Rightarrow> iter \<Rightarrow> (dentry list \<times> iter) outcome" where
  "add_children slab mem fs [] stack st = Inr (stack, st)"
| "add_children slab mem fs (child # subdirs) stack st =
     (let k = dget child (it_held st) in
      case d_inode fs child of
        None \<Rightarrow> add_children slab mem fs subdirs stack (st\<lparr>it_held := dput child k\<rparr>)
      | Some key \<Rightarrow>
          let k = inode_lock_shared key k;
              (inodes, insert_result) = insert_inode_ht slab (fst key) (snd key) (it_inodes st) in
          if insert_result \<noteq> - 1 then
            let (k, stkntry) = kmalloc mem k in
            if \<not> stkntry then Inl Bad_Access
            else add_children slab mem fs subdirs (child # stack)
                   (st\<lparr>it_inodes := inodes, it_held := k\<rparr>)
          else add_children slab mem fs subdirs stack
                 (st\<lparr>it_inodes := inodes, it_held := dput child (inode_unlock_shared key k)\<rparr>))"

text \<open>
  A symbolic link: its target is counted and pushed. A failed allocation is NULL, which the tests for
  error pointers let pass; \<open>resolved\<close> is uninitialised when \<open>kern_path\<close> fails, and its
  dentry is read all the same. The stack entry is lost when the target has no inode.
\<close>

definition kfree_if :: "bool \<Rightarrow> held \<Rightarrow> held" where
  "kfree_if got k = (if got then kfree k else k)"

definition add_link ::
  "memory \<Rightarrow> memory \<Rightarrow> vfs \<Rightarrow> dentry \<Rightarrow> dentry list \<Rightarrow> iter \<Rightarrow> (dentry list \<times> iter) outcome" where
  "add_link slab mem fs dir stack st =
     (case d_inode fs dir of None \<Rightarrow> Inr (stack, st)
      | Some _ \<Rightarrow>
          let (k, stkntry) = kmalloc mem (it_held st);
              (k, link) = kmalloc mem k in
          if \<not> link then Inl Bad_Access
          else
            (case dentry_path_raw fs dir DECREE_SIZE of
               None \<Rightarrow> Inr (stack, st\<lparr>it_held := kfree (kfree_if stkntry k)\<rparr>)
             | Some pth \<Rightarrow>
                 (case kern_path fs pth True of
                    None \<Rightarrow> Inl Bad_Access
                  | Some resolved \<Rightarrow>
                      let k = dget resolved (path_get resolved k) in
                      (case d_inode fs resolved of
                         None \<Rightarrow> Inr (stack, st\<lparr>it_held := kfree (dput resolved k)\<rparr>)
                       | Some key \<Rightarrow>
                           let k = inode_lock_shared key k;
                               (inodes, insert_result) =
                                 insert_inode_ht slab (fst key) (snd key) (it_inodes st) in
                           if insert_result \<noteq> - 1 then
                             if \<not> stkntry then Inl Bad_Access
                             else Inr (resolved # stack, st\<lparr>it_inodes := inodes, it_held := kfree k\<rparr>)
                           else
                             Inr (stack, st\<lparr>it_inodes := inodes,
                               it_held := kfree (dput resolved
                                 (inode_unlock_shared key (kfree_if stkntry k)))\<rparr>)))))"

text \<open>
  From \<open>REPLAY\<close> on: visit, let the dentry go, pop the next. The first argument bounds the number
  of dentries visited.
\<close>

fun iterate_add ::
  "nat \<Rightarrow> memory \<Rightarrow> memory \<Rightarrow> vfs \<Rightarrow> dentry \<Rightarrow> dentry list \<Rightarrow> iter \<Rightarrow> iter outcome" where
  "iterate_add 0 slab mem fs dir stack st = Inl Runaway"
| "iterate_add (Suc fuel) slab mem fs dir stack st =
     bind_out
       (if d_is_symlink fs dir then add_link slab mem fs dir stack st
        else add_children slab mem fs (d_subdirs fs dir) stack st)
       (\<lambda>(stack, st).
         (case d_inode fs dir of None \<Rightarrow> Inl Bad_Access
          | Some key \<Rightarrow>
              let k = dput dir (inode_unlock_shared key (it_held st)) in
              (case stack of
                 [] \<Rightarrow> Inr (st\<lparr>it_held := k\<rparr>)
               | d # stack \<Rightarrow>
                   iterate_add fuel slab mem fs d stack (st\<lparr>it_held := kfree k\<rparr>))))"

definition store_iterate_add ::
  "nat \<Rightarrow> memory \<Rightarrow> memory \<Rightarrow> vfs \<Rightarrow> dentry \<Rightarrow> iter \<Rightarrow> iter outcome" where
  "store_iterate_add fuel slab mem fs dir st =
     (let k = dget dir (path_get dir (it_held st)) in
      case d_inode fs dir of
        None \<Rightarrow> Inr (st\<lparr>it_held := path_put dir (dput dir k)\<rparr>)
      | Some key \<Rightarrow>
          let k = inode_lock_shared key k;
              (inodes, insert_result) = insert_inode_ht slab (fst key) (snd key) (it_inodes st) in
          if insert_result = - 1
          then Inr (st\<lparr>it_inodes := inodes,
                 it_held := path_put dir (dput dir (inode_unlock_shared key k))\<rparr>)
          else iterate_add fuel slab mem fs dir [] (st\<lparr>it_inodes := inodes, it_held := k\<rparr>))"

section \<open>Removing\<close>

text \<open>
  A stack entry of the removing walk: its dentry, and whether the entry itself is already freed.
  Only children that have children of their own are pushed.
\<close>

fun rm_children ::
  "memory \<Rightarrow> vfs \<Rightarrow> dentry list \<Rightarrow> (dentry \<times> bool) list \<Rightarrow> iter \<Rightarrow>
   ((dentry \<times> bool) list \<times> iter) outcome" where
  "rm_children mem fs [] stack st = Inr (stack, st)"
| "rm_children mem fs (child # subdirs) stack st =
     (let k = dget child (it_held st) in
      case d_inode fs child of
        None \<Rightarrow> rm_children mem fs subdirs stack (st\<lparr>it_held := dput child k\<rparr>)
      | Some key \<Rightarrow>
          let k = inode_lock_shared key k in
          bind_out (rm_inode_ht (fst key) (snd key) (it_inodes st)) (\<lambda>(inodes, insert_result).
            if d_subdirs fs child \<noteq> [] \<and> insert_result \<noteq> - 1 then
              let (k, stkntry) = kmalloc mem k in
              if \<not> stkntry then Inl Bad_Access
              else rm_children mem fs subdirs ((child, False) # stack)
                     (st\<lparr>it_inodes := inodes, it_held := k\<rparr>)
            else rm_children mem fs subdirs stack
                   (st\<lparr>it_inodes := inodes, it_held := dput child (inode_unlock_shared key k)\<rparr>)))"

text \<open>A symbolic link: the target is pushed without being counted out, and its stack entry freed.\<close>

definition rm_link ::
  "memory \<Rightarrow> vfs \<Rightarrow> dentry \<Rightarrow> (dentry \<times> bool) list \<Rightarrow> iter \<Rightarrow>
   ((dentry \<times> bool) list \<times> iter) outcome" where
  "rm_link mem fs dir stack st =
     (case d_inode fs dir of None \<Rightarrow> Inr (stack, st)
      | Some _ \<Rightarrow>
          let (k, stkntry) = kmalloc mem (it_held st);
              (k, link) = kmalloc mem k in
          if \<not> link then Inl Bad_Access
          else
            (case dentry_path_raw fs dir DECREE_SIZE of
               None \<Rightarrow> Inr (stack, st\<lparr>it_held := kfree (kfree_if stkntry k)\<rparr>)
             | Some pth \<Rightarrow>
                 (case kern_path fs pth True of
                    None \<Rightarrow> Inl Bad_Access
                  | Some resolved \<Rightarrow>
                      let k = dget resolved (path_get resolved k) in
                      (case d_inode fs resolved of
                         None \<Rightarrow> Inr (stack, st\<lparr>it_held := kfree (kfree_if stkntry (dput resolved k))\<rparr>)
                       | Some key \<Rightarrow>
                           if \<not> stkntry then Inl Bad_Access
                           else Inr ((resolved, True) # stack,
                             st\<lparr>it_held := kfree (kfree (inode_lock_shared key k))\<rparr>)))))"

fun iterate_rm ::
  "nat \<Rightarrow> memory \<Rightarrow> vfs \<Rightarrow> dentry \<Rightarrow> (dentry \<times> bool) list \<Rightarrow> iter \<Rightarrow> iter outcome" where
  "iterate_rm 0 mem fs dir stack st = Inl Runaway"
| "iterate_rm (Suc fuel) mem fs dir stack st =
     bind_out
       (if d_is_symlink fs dir then rm_link mem fs dir stack st
        else rm_children mem fs (d_subdirs fs dir) stack st)
       (\<lambda>(stack, st).
         (case d_inode fs dir of None \<Rightarrow> Inl Bad_Access
          | Some key \<Rightarrow>
              let k = dput dir (inode_unlock_shared key (it_held st)) in
              (case stack of
                 [] \<Rightarrow> Inr (st\<lparr>it_held := k\<rparr>)
               | (d, freed) # stack \<Rightarrow>
                   if freed then Inl Use_After_Free
                   else iterate_rm fuel mem fs d stack (st\<lparr>it_held := kfree k\<rparr>))))"

definition store_iterate_rm ::
  "nat \<Rightarrow> memory \<Rightarrow> vfs \<Rightarrow> dentry \<Rightarrow> iter \<Rightarrow> iter outcome" where
  "store_iterate_rm fuel mem fs dir st =
     (let k = dget dir (path_get dir (it_held st)) in
      case d_inode fs dir of
        None \<Rightarrow> Inr (st\<lparr>it_held := path_put dir (dput dir k)\<rparr>)
      | Some key \<Rightarrow>
          let k = inode_lock_shared key k in
          bind_out (rm_inode_ht (fst key) (snd key) (it_inodes st)) (\<lambda>(inodes, insert_result).
            if insert_result = - 1
            then Inr (st\<lparr>it_inodes := inodes,
                   it_held := path_put dir (dput dir (inode_unlock_shared key k))\<rparr>)
            else iterate_rm fuel mem fs dir [] (st\<lparr>it_inodes := inodes, it_held := k\<rparr>)))"



section \<open>The walk as a worklist\<close>

text \<open>
  A tree the walk can follow: every dentry has an inode whose number fits, every link resolves, and
  dentries of the same inode lead to the same inodes.
\<close>

definition key_of :: "vfs \<Rightarrow> dentry \<Rightarrow> ino_key" where
  "key_of fs d = the (d_inode fs d)"

definition next_dentries :: "vfs \<Rightarrow> dentry \<Rightarrow> dentry list" where
  "next_dentries fs d =
     (if d_is_symlink fs d then
        (case dentry_path_raw fs d DECREE_SIZE of None \<Rightarrow> []
         | Some pth \<Rightarrow> (case kern_path fs pth True of None \<Rightarrow> [] | Some resolved \<Rightarrow> [resolved]))
      else d_subdirs fs d)"

definition walkable :: "vfs \<Rightarrow> dentry \<Rightarrow> bool" where
  "walkable fs d =
     (d_inode fs d \<noteq> None \<and> narrow (snd (key_of fs d)) \<and>
      (d_is_symlink fs d \<longrightarrow> (\<forall>pth. dentry_path_raw fs d DECREE_SIZE = Some pth \<longrightarrow>
         kern_path fs pth True \<noteq> None)))"

text \<open>
  What a stack of dentries holds on top of \<open>base\<close>: for each a reference and a shared lock, and
  an object for each but the \<open>bare\<close> ones. References to paths are not counted here.
\<close>

definition holds_stack :: "vfs \<Rightarrow> held \<Rightarrow> nat \<Rightarrow> dentry list \<Rightarrow> held \<Rightarrow> bool" where
  "holds_stack fs base bare ds k =
     ((\<forall>d. dentry_refs k d = dentry_refs base d + int (count_list ds d)) \<and>
      (\<forall>i. inode_readers k i = inode_readers base i + int (count_list (map (key_of fs) ds) i)) \<and>
      umount_readers k = umount_readers base \<and>
      objects k + int bare = objects base + int (length ds))"

lemmas held_defs = dget_def dput_def path_get_def path_put_def inode_lock_shared_def
  inode_unlock_shared_def kfree_def kfree_if_def umount_down_read_def umount_up_read_def

declare split_paired_All [simp del]

lemma kmalloc_full: "\<forall>n. mem n \<noteq> None \<Longrightarrow>
    kmalloc mem k = (k\<lparr>kclock := Suc (kclock k), objects := objects k + 1\<rparr>, True)"
  by (auto simp: kmalloc_def split: option.splits)

abbreviation count_in :: "memory \<Rightarrow> ino_key \<Rightarrow> inode_store \<Rightarrow> inode_store \<times> int" where
  "count_in slab k \<equiv> insert_inode_ht slab (fst k) (snd k)"

lemma add_children_visits:
  assumes mem: "\<forall>n. mem n \<noteq> None" and ino: "\<forall>d \<in> set ds. d_inode fs d \<noteq> None"
    and "visit_all (count_in slab) (key_of fs) ds (it_inodes st) = (s', taken)"
    and "holds_stack fs base b (stack @ ws) (it_held st)"
  shows "\<exists>k. add_children slab mem fs ds stack st = Inr (rev taken @ stack, \<lparr>it_inodes = s', it_held = k\<rparr>) \<and>
    holds_stack fs base b (rev taken @ stack @ ws) k"
  using assms(2-)
proof (induction ds arbitrary: stack st taken)
  case Nil
  then show ?case by (cases st) auto
next
  case (Cons d ds)
  obtain key where key: "d_inode fs d = Some key" using Cons.prems(1) by auto
  then have kd: "key_of fs d = key" by (simp add: key_of_def)
  obtain s1 r where ins: "count_in slab key (it_inodes st) = (s1, r)" by fastforce
  obtain taken1 where va: "visit_all (count_in slab) (key_of fs) ds s1 = (s', taken1)"
    and t: "taken = (if r \<noteq> - 1 then d # taken1 else taken1)"
    using Cons.prems(2) ins by (auto simp: kd split: prod.splits)
  show ?case
  proof (cases "r = - 1")
    case True
    let ?st = "st\<lparr>it_inodes := s1, it_held := dput d (inode_unlock_shared key
      (inode_lock_shared key (dget d (it_held st))))\<rparr>"
    have "holds_stack fs base b (stack @ ws) (it_held ?st)"
      using Cons.prems(3) by (simp add: holds_stack_def held_defs)
    from Cons.IH [OF _ _ this] Cons.prems(1) va True t key ins show ?thesis by (auto simp: Let_def)
  next
    case False
    let ?k = "fst (kmalloc mem (inode_lock_shared key (dget d (it_held st))))"
    let ?st = "st\<lparr>it_inodes := s1, it_held := ?k\<rparr>"
    have "holds_stack fs base b ((d # stack) @ ws) (it_held ?st)"
      using Cons.prems(3) by (simp add: holds_stack_def held_defs kmalloc_full [OF mem] kd)
    from Cons.IH [OF _ _ this] Cons.prems(1) va False t key ins show ?thesis
      by (auto simp: Let_def kmalloc_full [OF mem])
  qed
qed

lemma add_link_visits:
  assumes mem: "\<forall>n. mem n \<noteq> None" and dir: "walkable fs dir" "d_is_symlink fs dir"
    and ino: "\<forall>d \<in> set (next_dentries fs dir). d_inode fs d \<noteq> None"
    and vis: "visit_all (count_in slab) (key_of fs) (next_dentries fs dir) (it_inodes st) = (s', taken)"
    and held: "holds_stack fs base b (stack @ ws) (it_held st)"
  shows "\<exists>k. add_link slab mem fs dir stack st = Inr (rev taken @ stack, \<lparr>it_inodes = s', it_held = k\<rparr>) \<and>
    holds_stack fs base b (rev taken @ stack @ ws) k"
proof (cases "dentry_path_raw fs dir DECREE_SIZE")
  case None
  with vis dir have "s' = it_inodes st" "taken = []" by (auto simp: next_dentries_def)
  with None dir held show ?thesis
    by (cases st) (auto simp: add_link_def walkable_def kmalloc_full [OF mem] held_defs holds_stack_def)
next
  case (Some pth)
  then obtain res where res: "kern_path fs pth True = Some res" using dir by (auto simp: walkable_def)
  with Some dir have nx: "next_dentries fs dir = [res]" by (simp add: next_dentries_def)
  with ino obtain key where key: "d_inode fs res = Some key" by auto
  then have kd: "key_of fs res = key" by (simp add: key_of_def)
  obtain s1 r where ins: "count_in slab key (it_inodes st) = (s1, r)" by fastforce
  with vis nx kd have t: "s' = s1" "taken = (if r \<noteq> - 1 then [res] else [])" by (auto split: prod.splits)
  from dir obtain dk where dk: "d_inode fs dir = Some dk" by (auto simp: walkable_def)
  show ?thesis
    using held Some res key ins t dk kd
    by (cases st) (auto simp: add_link_def kmalloc_full [OF mem] held_defs holds_stack_def)
qed

lemma iterate_add_worklist:
  assumes mem: "\<forall>n. mem n \<noteq> None"
    and W: "\<forall>d \<in> W. walkable fs d \<and> set (next_dentries fs d) \<subseteq> W"
    and "insert d (set stack) \<subseteq> W"
    and "worklist n (count_in slab) (key_of fs) (next_dentries fs) d stack (it_inodes st) = Some s'"
    and "holds_stack fs base 1 (d # stack) (it_held st)"
  shows "\<exists>k. iterate_add n slab mem fs d stack st = Inr \<lparr>it_inodes = s', it_held = k\<rparr> \<and>
    holds_stack fs base 0 [] k"
  using assms(3-)
proof (induction n arbitrary: d stack st)
  case 0
  then show ?case by simp
next
  case (Suc n)
  have wd: "walkable fs d" and sub: "set (next_dentries fs d) \<subseteq> W" using W Suc.prems(1) by auto
  then have ino: "\<forall>c \<in> set (next_dentries fs d). d_inode fs c \<noteq> None"
    using W by (auto simp: walkable_def subset_iff)
  obtain key where key: "d_inode fs d = Some key" using wd by (auto simp: walkable_def)
  then have kd: "key_of fs d = key" by (simp add: key_of_def)
  obtain s1 taken where va:
    "visit_all (count_in slab) (key_of fs) (next_dentries fs d) (it_inodes st) = (s1, taken)" by fastforce
  have held: "holds_stack fs base 1 (stack @ [d]) (it_held st)"
    using Suc.prems(3) by (simp add: holds_stack_def)
  have "\<exists>k. (if d_is_symlink fs d then add_link slab mem fs d stack st
      else add_children slab mem fs (d_subdirs fs d) stack st) =
        Inr (rev taken @ stack, \<lparr>it_inodes = s1, it_held = k\<rparr>) \<and>
      holds_stack fs base 1 (rev taken @ stack @ [d]) k"
  proof (cases "d_is_symlink fs d")
    case True
    from add_link_visits [OF mem wd True ino va held] True show ?thesis by simp
  next
    case False
    then have nx: "next_dentries fs d = d_subdirs fs d" by (simp add: next_dentries_def)
    from add_children_visits [OF mem ino va held] False show ?thesis by (simp add: nx)
  qed
  then obtain k where step: "(if d_is_symlink fs d then add_link slab mem fs d stack st
      else add_children slab mem fs (d_subdirs fs d) stack st) =
        Inr (rev taken @ stack, \<lparr>it_inodes = s1, it_held = k\<rparr>)"
    and held1: "holds_stack fs base 1 (rev taken @ stack @ [d]) k" by blast
  let ?k = "dput d (inode_unlock_shared key k)"
  have held2: "holds_stack fs base 0 (rev taken @ stack) ?k"
    using held1 by (auto simp: holds_stack_def held_defs kd)
  show ?case
  proof (cases "rev taken @ stack")
    case Nil
    with Suc.prems(2) va have "s' = s1" by simp
    with Nil step key held2 show ?thesis by (auto simp: Let_def)
  next
    case (Cons e rest)
    have tsub: "set taken \<subseteq> set (next_dentries fs d)"
      using va by (auto dest: visit_all_subset)
    have eW: "insert e (set rest) \<subseteq> W"
      using tsub sub Suc.prems(1) arg_cong [OF Cons, of set] by auto
    let ?st = "\<lparr>it_inodes = s1, it_held = kfree ?k\<rparr>"
    have run: "worklist n (count_in slab) (key_of fs) (next_dentries fs) e rest (it_inodes ?st) = Some s'"
      using Suc.prems(2) va Cons by simp
    have held3: "holds_stack fs base 1 (e # rest) (it_held ?st)"
      using held2 unfolding Cons by (simp add: holds_stack_def held_defs)
    from Suc.IH [OF eW run held3] step key Cons show ?thesis by (simp add: Let_def)
  qed
qed

declare split_paired_All [simp]

text \<open>
  The references to paths: the one the walk takes on the dentry it starts from is never put, nor is the
  one \<open>kern_path\<close> takes on the target of a link.
\<close>

definition link_targets :: "vfs \<Rightarrow> dentry set \<Rightarrow> dentry set" where
  "link_targets fs W = {e. \<exists>l \<in> W. d_is_symlink fs l \<and> e \<in> set (next_dentries fs l)}"

lemma kmalloc_paths: "kmalloc mem k = (k', got) \<Longrightarrow> path_refs k' = path_refs k"
  by (auto simp: kmalloc_def split: option.splits)

lemma add_children_paths:
  "add_children slab mem fs ds stack st = Inr (stack', st') \<Longrightarrow>
   path_refs (it_held st') = path_refs (it_held st) \<and> set stack' \<subseteq> set stack \<union> set ds"
proof (induction ds arbitrary: stack st)
  case (Cons d ds)
  from Cons.prems show ?case
    by (auto simp: Let_def held_defs split: option.splits prod.splits if_split_asm
        dest!: Cons.IH kmalloc_paths)
qed simp

lemma add_link_paths:
  assumes "add_link slab mem fs dir stack st = Inr (stack', st')" and "d_is_symlink fs dir"
  shows "path_refs (it_held st) e \<le> path_refs (it_held st') e \<and>
    (e \<notin> set (next_dentries fs dir) \<longrightarrow> path_refs (it_held st') e = path_refs (it_held st) e) \<and>
    set stack' \<subseteq> set stack \<union> set (next_dentries fs dir)"
  using assms
  by (auto simp: add_link_def next_dentries_def Let_def held_defs split: option.splits prod.splits if_split_asm
      dest!: kmalloc_paths)

lemma iterate_add_paths:
  assumes W: "\<forall>c \<in> W. set (next_dentries fs c) \<subseteq> W"
    and "insert dir (set stack) \<subseteq> W" and "iterate_add n slab mem fs dir stack st = Inr st'"
  shows "path_refs (it_held st) e \<le> path_refs (it_held st') e \<and>
    (e \<notin> link_targets fs W \<longrightarrow> path_refs (it_held st') e = path_refs (it_held st) e)"
  using assms(2-)
proof (induction n arbitrary: dir stack st)
  case (Suc n)
  obtain key stack1 st1 where step: "(if d_is_symlink fs dir then add_link slab mem fs dir stack st
      else add_children slab mem fs (d_subdirs fs dir) stack st) = Inr (stack1, st1)"
    and rest: "(case stack1 of [] \<Rightarrow> Inr (st1\<lparr>it_held := dput dir (inode_unlock_shared key (it_held st1))\<rparr>)
      | d # stack \<Rightarrow> iterate_add n slab mem fs d stack
          (st1\<lparr>it_held := kfree (dput dir (inode_unlock_shared key (it_held st1)))\<rparr>)) = Inr st'"
    using Suc.prems(2) by (auto simp: bind_out_Inr_iff Let_def split: option.splits)
  have "path_refs (it_held st) e \<le> path_refs (it_held st1) e \<and>
    (e \<notin> link_targets fs W \<longrightarrow> path_refs (it_held st1) e = path_refs (it_held st) e) \<and>
    set stack1 \<subseteq> set stack \<union> set (next_dentries fs dir)"
  proof (cases "d_is_symlink fs dir")
    case True
    with step add_link_paths [of slab mem fs dir stack st stack1 st1 e] Suc.prems(1) show ?thesis
      by (auto simp: link_targets_def)
  next
    case False
    with step add_children_paths [of slab mem fs "d_subdirs fs dir" stack st stack1 st1] show ?thesis
      by (simp add: next_dentries_def)
  qed
  then have one: "path_refs (it_held st) e \<le> path_refs (it_held st1) e"
    "e \<notin> link_targets fs W \<longrightarrow> path_refs (it_held st1) e = path_refs (it_held st) e" and sub: "set stack1 \<subseteq> W"
    using W Suc.prems(1) by auto
  show ?case
  proof (cases stack1)
    case Nil
    with rest one show ?thesis by (auto simp: held_defs)
  next
    case (Cons d rest')
    with rest one sub Suc.IH [of d rest' "st1\<lparr>it_held := kfree (dput dir (inode_unlock_shared key (it_held st1)))\<rparr>"]
    show ?thesis by (auto simp: held_defs)
  qed
qed simp

section \<open>Properties\<close>

lemma total_visits: "finite K \<Longrightarrow> inode_pass.total K s \<le> 2 * card K"
proof -
  assume "finite K"
  have "inode_pass.total K s \<le> (\<Sum>k \<in> K. 2)"
    unfolding inode_pass.total_def by (rule sum_mono) (simp add: visits_left_def split: option.splits)
  then show ?thesis by simp
qed

lemma store_iterate_add_reaches:
  assumes slab: "\<forall>n. slab n \<noteq> None" and mem: "\<forall>n. mem n \<noteq> None"
    and ok: "registry_ok (it_inodes st)" and now: "0 < nonce (it_inodes st)"
    and fresh: "\<forall>k n. node_of (it_inodes st) k = Some n \<longrightarrow> stamp n < nonce (it_inodes st)"
    and good: "\<forall>e \<in> reach (next_dentries fs) d. walkable fs e"
    and fin: "finite (key_of fs ` reach (next_dentries fs) d)"
    and same: "\<forall>e \<in> reach (next_dentries fs) d. \<forall>f \<in> reach (next_dentries fs) d.
      key_of fs e = key_of fs f \<longrightarrow>
      key_of fs ` set (next_dentries fs e) = key_of fs ` set (next_dentries fs f)"
    and fuel: "2 * card (key_of fs ` reach (next_dentries fs) d) \<le> fuel"
  shows "\<exists>st'. store_iterate_add fuel slab mem fs d st = Inr st' \<and> registry_ok (it_inodes st') \<and>
    nonce (it_inodes st') = nonce (it_inodes st) \<and> stamps_le (it_inodes st') \<and>
    dom (node_of (it_inodes st')) = dom (node_of (it_inodes st)) \<union> key_of fs ` reach (next_dentries fs) d \<and>
    dentry_refs (it_held st') = dentry_refs (it_held st) \<and>
    inode_readers (it_held st') = inode_readers (it_held st) \<and>
    objects (it_held st') = objects (it_held st) \<and>
    (\<forall>e. path_refs (it_held st) e + (if e = d then 1 else 0) \<le> path_refs (it_held st') e \<and>
      (e \<notin> link_targets fs (reach (next_dentries fs) d) \<longrightarrow>
        path_refs (it_held st') e = path_refs (it_held st) e + (if e = d then 1 else 0)))"
proof -
  let ?W = "reach (next_dentries fs) d" and ?key = "key_of fs" and ?s0 = "it_inodes st"
  obtain junk where slab': "slab = full_memory junk" using slab by (rule full_memory_exists)
  have dW: "d \<in> ?W" by (rule reach_refl)
  then obtain key where key: "d_inode fs d = Some key" using good by (auto simp: walkable_def)
  then have kd: "?key d = key" by (simp add: key_of_def)
  have credit: "0 < visits_left ?s0 k" for k
    using fresh by (cases "node_of (it_inodes st) k") (auto simp: visits_left_def simp del: split_paired_All)
  have pok: "pass_ok (nonce ?s0) ?s0"
    using ok now fresh by (simp add: pass_ok_def stamps_le_def order.strict_implies_order del: split_paired_All)
  obtain s r where ins: "count_in slab (?key d) ?s0 = (s, r)" by fastforce
  have nar: "narrow (snd (?key d))" using good dW by (simp add: walkable_def)
  have r: "r \<noteq> - 1"
    using inode_pass.visit_skip [OF pok, of "?key d" junk s] nar ins credit [of "?key d"]
    by (auto simp: slab')
  have g: "\<forall>e \<in> ?W. narrow (snd (?key e)) \<and> 0 < visits_left ?s0 (?key e)"
    using good credit by (simp add: walkable_def)
  have total: "inode_pass.total (?key ` ?W) ?s0 \<le> fuel"
    using total_visits [OF fin, of ?s0] fuel by linarith
  obtain s' where run: "worklist fuel (count_in slab) ?key (next_dentries fs) d [] s = Some s'"
    and okn: "pass_ok (nonce ?s0) s'" and all: "dom (node_of s') = dom (node_of ?s0) \<union> ?key ` ?W"
    using inode_pass.worklist_reaches [OF fin g same pok ins [unfolded slab'] r total]
    by (auto simp: slab')
  let ?k = "inode_lock_shared key (dget d (path_get d (it_held st)))"
  let ?st = "\<lparr>it_inodes = s, it_held = ?k\<rparr>"
  have held: "holds_stack fs (it_held st) 1 [d] (it_held ?st)"
    by (auto simp: holds_stack_def held_defs kd)
  have W: "\<forall>e \<in> ?W. walkable fs e \<and> set (next_dentries fs e) \<subseteq> ?W"
    using good by (auto intro: reach_step)
  obtain k where it: "iterate_add fuel slab mem fs d [] ?st = Inr \<lparr>it_inodes = s', it_held = k\<rparr>"
    and bal: "holds_stack fs (it_held st) 0 [] k"
    using iterate_add_worklist [OF mem W _ _ held, of fuel slab s'] run dW by auto
  have "store_iterate_add fuel slab mem fs d st = Inr \<lparr>it_inodes = s', it_held = k\<rparr>"
    using ins r it key by (cases st) (simp add: store_iterate_add_def kd Let_def)
  moreover have "path_refs (it_held st) e + (if e = d then 1 else 0) \<le> path_refs k e \<and>
      (e \<notin> link_targets fs ?W \<longrightarrow> path_refs k e = path_refs (it_held st) e + (if e = d then 1 else 0))" for e
    using iterate_add_paths [OF _ _ it, of ?W e] W dW by (auto simp: held_defs)
  ultimately show ?thesis using okn bal all by (auto simp: holds_stack_def fun_eq_iff pass_ok_def simp del: split_paired_All)
qed


text \<open>A directory 1 with a file 2 and a symbolic link 3 back to it.\<close>

definition demo_fs :: vfs where
  "demo_fs = \<lparr>kern_path = (\<lambda>p follow. if p = ''/d'' \<or> p = ''/d/l'' \<and> follow then Some 1 else None),
     d_inode = (\<lambda>d. if d \<in> {1, 2, 3} then Some (8, word_of_nat d) else None),
     d_is_symlink = (\<lambda>d. d = 3),
     d_path = (\<lambda>d n. if d = 1 then Some ''/d'' else None),
     dentry_path_raw = (\<lambda>d n. if d = 3 then Some ''/d/l'' else None),
     d_subdirs = (\<lambda>d. if d = 1 then [2, 3] else []),
     fd_path = (\<lambda>n. if n = 4 then Some 1 else None)\<rparr>"

definition demo_held :: held where
  "demo_held = \<lparr>dentry_refs = (\<lambda>_. 0), path_refs = (\<lambda>_. 0), inode_readers = (\<lambda>_. 0),
     umount_readers = (\<lambda>_. 0), objects = 0, kclock = 0\<rparr>"

definition demo_iter :: iter where
  "demo_iter = \<lparr>it_inodes = demo_registry, it_held = demo_held\<rparr>"

lemma demo_next:
  "next_dentries demo_fs 1 = [2, 3]" "next_dentries demo_fs 2 = []" "next_dentries demo_fs 3 = [1]"
  by (simp_all add: next_dentries_def demo_fs_def)

lemma demo_reach: "reach (next_dentries demo_fs) 1 \<subseteq> {1, 2, 3}"
  by (rule reach_subset) (auto simp: demo_next [simplified])

lemma demo_keys: "key_of demo_fs 1 = (8, 1)" "key_of demo_fs 2 = (8, 2)" "key_of demo_fs 3 = (8, 3)"
  by (simp_all add: key_of_def demo_fs_def)

lemma demo_inj:
  "e \<in> {1, 2, 3} \<Longrightarrow> f \<in> {1, 2, 3} \<Longrightarrow> (word_of_nat e :: 64 word) = word_of_nat f \<Longrightarrow> e = f"
  by (elim insertE) simp_all


text \<open>
  C28. A removing walk that is started at a symbolic link which can be resolved does not survive it: the
  walk pushes the target on a stack entry that it frees at once, and reads the entry when it takes it off
  the stack again. The path of the request may well be a link, since the oracle does not follow the
  last component. Links met as children are not walked into: they have no children of their own.
\<close>

theorem store_iterate_rm_link_faults:
  assumes "d_inode fs d = Some key" and "d_is_symlink fs d"
    and "rm_inode_ht (fst key) (snd key) (it_inodes st) = Inr (s', r)" and "r \<noteq> - 1"
    and "dentry_path_raw fs d DECREE_SIZE = Some pth" and "kern_path fs pth True = Some e"
    and "d_inode fs e \<noteq> None" and "\<forall>n. mem n \<noteq> None" and "0 < fuel"
  shows "store_iterate_rm fuel mem fs d st = Inl Use_After_Free"
proof -
  obtain n where n: "fuel = Suc n" using assms(9) by (cases fuel) auto
  from assms(7) obtain key' where "d_inode fs e = Some key'" by auto
  with assms(1-8) show ?thesis
    by (simp add: store_iterate_rm_def n rm_link_def kmalloc_full [OF assms(8)] Let_def)
qed

definition demo_iter3 :: iter where
  "demo_iter3 = \<lparr>it_inodes = \<lparr>fs_stores = [\<lparr>numbers = 8,
     inodes = (replicate HASH_TABLE_SIZE [])[3 := [\<lparr>num = 3, refCount = 1, stamp = 0\<rparr>]]\<rparr>],
     nonce = 1, clock = 2\<rparr>, it_held = demo_held\<rparr>"

theorem store_iterate_rm_link_faults_witness:
  "store_iterate_rm 6 zero_memory demo_fs 3 demo_iter3 = Inl Use_After_Free"
proof -
  have "case rm_inode_ht 8 3 (it_inodes demo_iter3) of Inl f \<Rightarrow> False | Inr (i, r) \<Rightarrow> r = 1"
    by code_simp
  then obtain i where "rm_inode_ht (fst (8, 3)) (snd (8, 3)) (it_inodes demo_iter3) = Inr (i, 1)"
    by (auto split: sum.splits)
  moreover have "d_inode demo_fs 3 = Some (8, 3)" "d_is_symlink demo_fs 3"
    "dentry_path_raw demo_fs 3 DECREE_SIZE = Some ''/d/l''" "kern_path demo_fs ''/d/l'' True = Some 1"
    "d_inode demo_fs 1 \<noteq> None" by (simp_all add: demo_fs_def)
  ultimately show ?thesis
    by (intro store_iterate_rm_link_faults) (auto simp: zero_memory_def)
qed

end
