(* ===== verification/Path_Store.thy ===== *)
theory Path_Store
  imports Path_Tree_Ops Store_Iterate
begin

text \<open>
  The store of protected paths, \<open>path_store/path_store.c\<close>: \<open>path_store_add\<close>,
  \<open>path_store_rm\<close> and \<open>path_store_check\<close> as whole functions over the state of the file:
  the tree of entries, the array \<open>argIdxs\<close>, the \<open>store_lock\<close>, the registry of inodes with
  the \<open>nonce\<close>, and what the module holds of the kernel.

  What a store promises is a set of paths, as lists of components: the marked entries of its tree.
  The properties say how each function changes that set, which lock it leaves held, and what
  \<open>path_store_check\<close> answers in terms of the set.
\<close>

section \<open>State and environment\<close>

record path_store =
  ps_tree :: path_tree
  argIdxs :: "nat list"
  store_lock :: rwlock
  ps_iter :: iter
  refresh_works :: nat

text \<open>
  What the kernel gives while a call runs: entries of the slab \<open>dir_cache\<close>, objects of the
  registry, memory of \<open>kmalloc\<close>, the file system, and whether the module can be pinned for a
  work item. The walk over the file system is bounded by \<open>walk_fuel\<close> dentries.
\<close>

record env =
  dir_cache :: "addr list \<Rightarrow> addr option"
  ino_cache :: memory
  kmem :: memory
  file_system :: vfs
  walk_fuel :: nat
  module_live :: bool

datatype path_check_result =
  MATCH_ROOT | FULL_MATCH_LEAF | FULL_MATCH_DIR | SUB_MATCH_LEAF | SUB_MATCH_DIR | MATCH_INODE | MATCH_UNSOLVED

definition ULLONG_MAX :: "64 word" where
  "ULLONG_MAX = - 1"

text \<open>The rounds of the loop that adds entries: one for each of at most 512 components, and one.\<close>

definition ADD_ROUNDS :: nat where
  "ADD_ROUNDS = 513"

definition clean_oracle_decree :: "path_decree option \<Rightarrow> path_store \<Rightarrow> path_store" where
  "clean_oracle_decree decree s =
     (if decree = None then s
      else s\<lparr>ps_iter := (ps_iter s)\<lparr>it_held := kfree (it_held (ps_iter s))\<rparr>\<rparr>)"

text \<open>
  The start of all three functions: ask the oracle, take its path when it answers. The examined
  buffer is the object of the decree or the caller's own.
\<close>

definition ask_oracle ::
  "env \<Rightarrow> char list \<Rightarrow> path_store \<Rightarrow> (path_store \<times> path_decree option \<times> char list) outcome" where
  "ask_oracle E path s =
     (if \<not> terminated path then Inl Bad_Access
      else
        let (k, resolved) = pathname_oracle (kmem E) (file_system E) (c_str path) (it_held (ps_iter s));
            examinated = (case resolved of None \<Rightarrow> path | Some decree \<Rightarrow> decree_path decree @ [NUL]) in
        Inr (s\<lparr>ps_iter := (ps_iter s)\<lparr>it_held := k\<rparr>\<rparr>, resolved, examinated))"

text \<open>
  At the largest nonce a work item is allocated and, when the module can be pinned, scheduled to
  renew the stamps; the lock is left to it. A failed allocation is NULL, which the test for error
  pointers lets pass.
\<close>

definition unlock_or_refresh :: "env \<Rightarrow> path_store \<Rightarrow> path_store outcome" where
  "unlock_or_refresh E s =
     (if nonce (it_inodes (ps_iter s)) = ULLONG_MAX then
        let (k, work_unit) = kmalloc (kmem E) (it_held (ps_iter s));
            s = s\<lparr>ps_iter := (ps_iter s)\<lparr>it_held := k\<rparr>\<rparr> in
        if \<not> work_unit then Inl Bad_Access
        else if module_live E then Inr (s\<lparr>refresh_works := Suc (refresh_works s)\<rparr>)
        else Inr s
      else Inr (s\<lparr>store_lock := up_write (store_lock s)\<rparr>))"

definition next_nonce :: "path_store \<Rightarrow> iter" where
  "next_nonce s =
     (ps_iter s)\<lparr>it_inodes := (it_inodes (ps_iter s))\<lparr>nonce := nonce (it_inodes (ps_iter s)) + 1\<rparr>\<rparr>"

section \<open>Adding a path\<close>

text \<open>
  Each of the three functions splits the path into the global \<open>argIdxs\<close> before it takes the lock. What
  runs from there on, with the array as it is then, has a definition of its own.
\<close>

definition locked_add ::
  "env \<Rightarrow> path_decree option \<Rightarrow> char list \<Rightarrow> nat \<Rightarrow> path_store \<Rightarrow> (path_store \<times> int) outcome" where
  "locked_add E resolved examinated j s =
     bind_out (down_write (store_lock s)) (\<lambda>lock.
       let s = s\<lparr>store_lock := lock\<rparr> in
     bind_out (add_loop ADD_ROUNDS (dir_cache E) examinated (argIdxs s) j (pt_root (ps_tree s)) 0 (ps_tree s)) (\<lambda>res.
       case res of
         Inl t \<Rightarrow> Inr (clean_oracle_decree resolved (s\<lparr>ps_tree := t\<rparr>), 1)
       | Inr (actualCurrent, t) \<Rightarrow>
     bind_out (set_explicited actualCurrent t) (\<lambda>t.
       let s = s\<lparr>ps_tree := t\<rparr> in
       case resolved of
         None \<Rightarrow> Inr (s, 0)
       | Some decree \<Rightarrow>
     bind_out (store_iterate_add (walk_fuel E) (ino_cache E) (kmem E) (file_system E)
                 (dentry_of decree) (next_nonce s)) (\<lambda>it.
     bind_out (unlock_or_refresh E (s\<lparr>ps_iter := it\<rparr>)) (\<lambda>s.
       Inr (clean_oracle_decree resolved s, 0))))))"

definition path_store_add :: "env \<Rightarrow> char list \<Rightarrow> path_store \<Rightarrow> (path_store \<times> int) outcome" where
  "path_store_add E path s =
     bind_out (ask_oracle E path s) (\<lambda>(s, resolved, examinated).
     bind_out (process_path examinated (argIdxs s)) (\<lambda>(examinated, idx, j).
       let s = s\<lparr>argIdxs := idx\<rparr> in
       if j = UINT_MAX then Inr (clean_oracle_decree resolved s, 1)
       else locked_add E resolved examinated j s))"

section \<open>Removing a path\<close>

definition locked_rm ::
  "env \<Rightarrow> path_decree option \<Rightarrow> char list \<Rightarrow> nat \<Rightarrow> path_store \<Rightarrow> (path_store \<times> int) outcome" where
  "locked_rm E resolved examinated j s =
     bind_out (down_write (store_lock s)) (\<lambda>lock.
       let s = s\<lparr>store_lock := lock\<rparr> in
     bind_out (path_search_loop (pt_heap (ps_tree s)) examinated (argIdxs s) j (pt_root (ps_tree s)) 0)
       (\<lambda>(actualCurrent, deepness).
       if deepness \<noteq> j
       then Inr (clean_oracle_decree resolved (s\<lparr>store_lock := up_write (store_lock s)\<rparr>), 1)
       else
         (case pt_heap (ps_tree s) actualCurrent of None \<Rightarrow> Inl Bad_Access
          | Some e \<Rightarrow>
              if \<not> explicited e
              then Inr (clean_oracle_decree resolved (s\<lparr>store_lock := up_write (store_lock s)\<rparr>), 1)
              else
     bind_out (case resolved of
                 None \<Rightarrow> Inr (ps_iter s)
               | Some decree \<Rightarrow>
                   store_iterate_rm (walk_fuel E) (kmem E) (file_system E) (dentry_of decree) (next_nonce s))
       (\<lambda>it.
     bind_out (clear_explicited actualCurrent (ps_tree s)) (\<lambda>t.
     bind_out (if child_count e \<noteq> 0 then Inr t
               else climb (Suc (length (pt_allocations t))) actualCurrent t) (\<lambda>t.
     bind_out (unlock_or_refresh E (s\<lparr>ps_iter := it, ps_tree := t\<rparr>)) (\<lambda>s.
       Inr (clean_oracle_decree resolved s, 0))))))))"

definition path_store_rm :: "env \<Rightarrow> char list \<Rightarrow> path_store \<Rightarrow> (path_store \<times> int) outcome" where
  "path_store_rm E path s =
     bind_out (ask_oracle E path s) (\<lambda>(s, resolved, examinated).
     bind_out (process_path examinated (argIdxs s)) (\<lambda>(examinated, idx, j).
       let s = s\<lparr>argIdxs := idx\<rparr> in
       if j = UINT_MAX then Inr (clean_oracle_decree resolved s, 1)
       else locked_rm E resolved examinated j s))"

section \<open>Checking a path\<close>

definition locked_check ::
  "path_decree option \<Rightarrow> char list \<Rightarrow> nat \<Rightarrow> path_store \<Rightarrow> (path_store \<times> path_check_result) outcome" where
  "locked_check resolved examinated j s =
     bind_out (down_read (store_lock s)) (\<lambda>lock.
       let s = s\<lparr>store_lock := lock\<rparr> in
     bind_out (path_search_loop (pt_heap (ps_tree s)) examinated (argIdxs s) j (pt_root (ps_tree s)) 0)
       (\<lambda>(cur, deepness).
       (case pt_heap (ps_tree s) cur of None \<Rightarrow> Inl Bad_Access
        | Some e \<Rightarrow>
            let retVal = (se_children e = []);
                s = clean_oracle_decree resolved (s\<lparr>store_lock := up_read (store_lock s)\<rparr>) in
            Inr (s,
              if cur = pt_root (ps_tree s) \<and> retVal then MATCH_ROOT
              else if deepness = j then (if retVal then FULL_MATCH_LEAF else FULL_MATCH_DIR)
              else (if retVal then SUB_MATCH_LEAF else SUB_MATCH_DIR)))))"

text \<open>
  A path the oracle resolves is first looked up by its inode. A path that cannot be split gives the
  value 1, which is \<open>FULL_MATCH_LEAF\<close>.
\<close>

definition path_store_check ::
  "env \<Rightarrow> char list \<Rightarrow> path_store \<Rightarrow> (path_store \<times> path_check_result) outcome" where
  "path_store_check E path s =
     bind_out (ask_oracle E path s) (\<lambda>(s, resolved, examinated).
       if (case resolved of None \<Rightarrow> False
           | Some decree \<Rightarrow> check_inode (device decree) (inode decree) (it_inodes (ps_iter s)) \<noteq> 0)
       then Inr (clean_oracle_decree resolved s, MATCH_INODE)
       else
     bind_out (process_path examinated (argIdxs s)) (\<lambda>(examinated, idx, j).
       let s = s\<lparr>argIdxs := idx\<rparr> in
       if j = UINT_MAX then Inr (clean_oracle_decree resolved s, FULL_MATCH_LEAF)
       else locked_check resolved examinated j s))"

section \<open>Setup, the refresh work and cleanup\<close>

text \<open>
  \<open>setup_path_store\<close>: the registry's caches, the cache of entries, the root. The state it
  starts from is that of the zeroed module image; the caches come or do not.
\<close>

definition setup_path_store ::
  "bool \<Rightarrow> bool \<Rightarrow> bool \<Rightarrow> (addr list \<Rightarrow> addr option) \<Rightarrow> path_store \<Rightarrow> path_store option" where
  "setup_path_store fs_cache inodes_cache dirs_cache slab s =
     (let s = s\<lparr>store_lock := rw_init\<rparr> in
      if fst (setup_inode_store fs_cache inodes_cache) \<noteq> 0 then None
      else if \<not> dirs_cache then None
      else
        (case slab [] of None \<Rightarrow> None
         | Some root \<Rightarrow>
             Some (s\<lparr>ps_tree := \<lparr>pt_heap = [root \<mapsto> init_store_entry\<lparr>se_dir_name := [SLASH]\<rparr>],
                        pt_root = root, pt_allocations = [root]\<rparr>\<rparr>)))"

text \<open>The work item: new stamps, the module unpinned, the item freed. The lock is not touched.\<close>

definition run_refresh_work :: "path_store \<Rightarrow> path_store" where
  "run_refresh_work s =
     s\<lparr>ps_iter := \<lparr>it_inodes = refresh_nonces (it_inodes (ps_iter s)),
         it_held = kfree (it_held (ps_iter s))\<rparr>,
       refresh_works := refresh_works s - 1\<rparr>"

fun free_allocations :: "addr option \<Rightarrow> addr list \<Rightarrow> addr list" where
  "free_allocations prev [] = (case prev of None \<Rightarrow> [] | Some a \<Rightarrow> [a])"
| "free_allocations prev (tmp # rest) =
     (case prev of None \<Rightarrow> [] | Some a \<Rightarrow> [a]) @ free_allocations (Some tmp) rest"

text \<open>The state afterwards and the entries given back to the cache, in order.\<close>

definition cleanup_path_store :: "path_store \<Rightarrow> (path_store \<times> freed list \<times> addr list) outcome" where
  "cleanup_path_store s =
     bind_out (down_write (store_lock s)) (\<lambda>lock.
       let (inodes, freed_inodes) = cleanup_inode_store (it_inodes (ps_iter s));
           freed_entries = free_allocations None (pt_allocations (ps_tree s));
           t = (ps_tree s)\<lparr>pt_heap := (\<lambda>a. if a \<in> set freed_entries then None else pt_heap (ps_tree s) a),
             pt_allocations := []\<rparr> in
       Inr (s\<lparr>ps_tree := t, ps_iter := (ps_iter s)\<lparr>it_inodes := inodes\<rparr>, store_lock := up_write lock\<rparr>,
         freed_inodes, freed_entries))"



section \<open>Splitting and searching together\<close>

lemma scan_slashes_first:
  "scan_slashes n i j b idx = (b', idx', k) \<Longrightarrow> 0 < j \<Longrightarrow> idx' ! 0 = idx ! 0"
proof (induction n i j b idx rule: scan_slashes.induct)
  case (1 len i j path idx)
  show ?case
    using 1 by (subst (asm) (4) scan_slashes.simps) (auto simp: Let_def split: if_splits)
qed

lemma process_path_first:
  assumes run: "process_path b idx = Inr (b', idx', k)" and ne: "idx \<noteq> []"
  shows "idx' ! 0 = idx ! 0 \<or> idx' ! 0 = 1"
proof (cases "terminated b \<and> b ! 0 = SLASH")
  case True
  obtain b1 i1 k1 where scan: "scan_slashes (strlen b) 0 0 b idx = (b1, i1, k1)" by (metis prod_cases3)
  with run True have i1: "idx' = i1"
    by (auto simp: process_path_def Let_def outcome_rules split: if_splits)
  show ?thesis
  proof (cases "strlen b \<le> 1")
    case True
    then have "i1 = idx" using scan
      by (subst (asm) scan_slashes.simps, subst (asm) scan_slashes.simps)
        (auto simp: Let_def ARGS_SIZE_def scan_slashes.simps split: if_splits)
    then show ?thesis by (simp add: i1)
  next
    case False
    then have "scan_slashes (strlen b) 1 1 (b[0 := NUL]) (idx[0 := 1]) = (b1, i1, k1)"
      using scan True by (subst (asm) scan_slashes.simps) (simp add: Let_def ARGS_SIZE_def)
    from scan_slashes_first [OF this] ne show ?thesis by (simp add: i1)
  qed
next
  case False
  with run show ?thesis by (auto simp: process_path_def Let_def split: if_splits)
qed

text \<open>The paths of the store whose components all fit an entry.\<close>

definition storable :: "string \<Rightarrow> bool" where
  "storable p =
     (path_accepted p \<and> [] \<notin> set (path_components p) \<and>
      (\<forall>w \<in> set (path_components p). length w < DIR_NAME_SIZE))"

definition store_ok :: "path_store \<Rightarrow> bool" where
  "store_ok s =
     (heap_ok (ps_tree s) \<and> pruned (ps_tree s) \<and> length (argIdxs s) = ARGS_SIZE \<and> argIdxs s ! 0 \<le> 1 \<and>
      registry_ok (it_inodes (ps_iter s)) \<and> stamps_le (it_inodes (ps_iter s)))"

definition protected_paths :: "path_store \<Rightarrow> string list set" where
  "protected_paths s = explicit_paths (ps_tree s)"

text \<open>The inodes of the registry, by device and number.\<close>

definition registered :: "path_store \<Rightarrow> ino_key set" where
  "registered s = dom (node_of (it_inodes (ps_iter s)))"

lemma check_inode_registered:
  "store_ok s \<Longrightarrow> check_inode t i (it_inodes (ps_iter s)) = (if (t, i) \<in> registered s then 1 else 0)"
  by (simp add: store_ok_def registered_def check_inode_dom)

text \<open>
  What the search of the tree needs: the strings at the offsets of the array are \<open>us\<close>. Without any
  string the search looks at the first offset, which has to hold an empty one.
\<close>

definition reads_path :: "char list \<Rightarrow> nat list \<Rightarrow> string list \<Rightarrow> bool" where
  "reads_path b idx us =
     (holds_tokens b idx us \<and> length us \<le> ARGS_SIZE \<and>
      (us = [] \<longrightarrow> (\<exists>r. b = NUL # NUL # r) \<and> idx ! 0 \<le> 1 \<and> idx \<noteq> []))"

lemma reads_search:
  assumes "heap_ok t" and "reads_path b idx us"
  obtains cur d where "path_search_loop (pt_heap t) b idx (length us) (pt_root t) 0 = Inr (cur, d)"
    and "stops_at t us cur d"
  using path_search_stops [OF assms(1), of b idx us] assms(2) unfolding reads_path_def by blast

text \<open>
  The common beginning: the path is split. On a path that is accepted the array then reads its components.
\<close>

lemma split_and_search:
  assumes t: "terminated b" and len: "length idx = ARGS_SIZE" and first: "idx ! 0 \<le> 1"
  obtains b' idx' k where "process_path b idx = Inr (b', idx', k)"
    and "length idx' = ARGS_SIZE" and "idx' ! 0 \<le> 1"
    and "\<not> path_accepted (c_str b) \<Longrightarrow> k = UINT_MAX"
    and "path_accepted (c_str b) \<Longrightarrow> k = length (path_components (c_str b)) \<and> k \<noteq> UINT_MAX \<and>
      reads_path b' idx' (path_components (c_str b))"
proof (rule process_path_cases [OF t len])
  fix b' idx' k
  assume run: "process_path b idx = Inr (b', idx', k)"
    and l: "length idx' = ARGS_SIZE"
    and acc: "path_accepted (c_str b) \<Longrightarrow> k = length (path_components (c_str b)) \<and> k \<le> ARGS_SIZE \<and>
      holds_tokens b' idx' (path_components (c_str b)) \<and>
      (path_components (c_str b) = [] \<longrightarrow> (\<exists>r. b' = NUL # NUL # r) \<and> idx' ! 0 = idx ! 0) \<and>
      (path_components (c_str b) \<noteq> [] \<longrightarrow> idx' ! 0 = 1)"
    and rej: "\<not> path_accepted (c_str b) \<Longrightarrow> k = UINT_MAX"
  have ne: "idx \<noteq> []" and ne': "idx' \<noteq> []" using len l by (auto simp: ARGS_SIZE_def)
  have f: "idx' ! 0 \<le> 1" using process_path_first [OF run ne] first by auto
  show thesis
  proof (rule that [OF run l f rej])
    assume a: "path_accepted (c_str b)"
    have "k \<noteq> UINT_MAX" using acc [OF a] by (auto simp: ARGS_SIZE_def UINT_MAX_def)
    then show "k = length (path_components (c_str b)) \<and> k \<noteq> UINT_MAX \<and>
      reads_path b' idx' (path_components (c_str b))" using acc [OF a] f ne' by (auto simp: reads_path_def)
  qed
qed

text \<open>Adding to the tree: afterwards its marked paths are the old ones and the new one.\<close>

lemma add_to_tree:
  assumes ok: "heap_ok t" and pr: "pruned t" and slab: "slab_sound slab" "slab_roomy n slab"
    and room: "length (pt_allocations t) + length ts \<le> n" and toks: "holds_tokens b idx ts"
    and few: "length ts \<le> ARGS_SIZE" and ne: "[] \<notin> set ts" and short: "\<forall>w \<in> set ts. length w < DIR_NAME_SIZE"
    and search: "path_search_loop (pt_heap t) b idx (length ts) (pt_root t) 0 = Inr (cur, d)"
    and st: "stops_at t ts cur d"
  obtains a t1 t2 where "add_loop ADD_ROUNDS slab b idx (length ts) (pt_root t) 0 t = Inr (Inr (a, t1))"
    and "set_explicited a t1 = Inr t2" and "heap_ok t2" and "pruned t2"
    and "explicit_paths t2 = insert ts (explicit_paths t)"
proof -
  have "pruned_but {cur} t" using pr by (auto simp: pruned_but_def)
  moreover have "length ts - d < ADD_ROUNDS" using few by (simp add: ADD_ROUNDS_def ARGS_SIZE_def)
  moreover have "length (pt_allocations t) + (length ts - d) \<le> n" using room by simp
  ultimately obtain a t1 where g: "grown t (takeWhile (\<lambda>w. w \<noteq> []) ts) a t1" and
    run: "add_loop ADD_ROUNDS slab b idx (length ts) (pt_root t) 0 t = Inr (Inr (a, t1))"
    using add_loop_grows [OF slab(1) toks short slab(2) ok st _ search, of ADD_ROUNDS] ne by auto
  have tw: "takeWhile (\<lambda>w. w \<noteq> []) ts = ts" using ne by (auto simp: takeWhile_eq_all_conv)
  from g have ok1: "heap_ok t1" and w: "walk (pt_heap t1) (pt_root t1) ts = Some a"
    and ex: "explicit_paths t1 = explicit_paths t" and pr1: "pruned_but {a} t1"
    unfolding tw grown_def by blast+
  show thesis
  proof (rule mark_entry [OF ok1 w])
    fix t2 assume "set_explicited a t1 = Inr t2" "heap_ok t2"
      "explicit_paths t2 = insert ts (explicit_paths t1)" "pruned_but {a} t1 \<Longrightarrow> pruned t2"
    with run pr1 ex show thesis by (intro that) simp_all
  qed
qed

text \<open>Removing from the tree.\<close>

lemma remove_from_tree:
  assumes ok: "heap_ok t" and pr: "pruned t" and w: "walk (pt_heap t) (pt_root t) ts = Some a"
    and e: "pt_heap t a = Some e"
  obtains t1 t2 where "clear_explicited a t = Inr t1"
    and "(if child_count e \<noteq> 0 then Inr t1 else climb (Suc (length (pt_allocations t1))) a t1) = Inr t2"
    and "heap_ok t2" and "pruned t2" and "explicit_paths t2 = explicit_paths t - {ts}"
proof (rule unmark_entry [OF ok w])
  fix t1 assume t1: "clear_explicited a t = Inr t1" "heap_ok t1" "pt_root t1 = pt_root t"
    "walk (pt_heap t1) = walk (pt_heap t)" "kids (pt_heap t1) = kids (pt_heap t)"
    "explicit_paths t1 = explicit_paths t - {ts}" "pruned t \<Longrightarrow> pruned_but {a} t1"
  have pr1: "pruned_but {a} t1" using t1(7) pr .
  have w1: "walk (pt_heap t1) (pt_root t1) ts = Some a" using w t1(3,4) by simp
  show thesis
  proof (cases "child_count e = 0")
    case True
    have "length ts < Suc (length (pt_allocations t1))" using depth_bound [OF t1(2) w1] by simp
    from climb_prunes [OF t1(2) w1 pr1 this] t1 True show thesis by (auto intro: that)
  next
    case False
    have "child_count e = 0 \<longleftrightarrow> se_children e = []" using ok e by (rule explicited_word)
    with False have "kids (pt_heap t1) a \<noteq> []" by (simp add: t1(5) kids_def e)
    with pr1 have "pruned t1" by (auto simp: pruned_but_def)
    with t1 False show thesis by (intro that) auto
  qed
qed



section \<open>What adding a path does\<close>

text \<open>What the walk below a resolved path needs: memory, a tree it can follow, and enough fuel.\<close>

definition walk_ready :: "env \<Rightarrow> dentry \<Rightarrow> bool" where
  "walk_ready E d =
     (let fs = file_system E; R = reach (next_dentries fs) d in
      (\<forall>n. ino_cache E n \<noteq> None) \<and> (\<forall>n. kmem E n \<noteq> None) \<and> (\<forall>e \<in> R. walkable fs e) \<and>
      finite (key_of fs ` R) \<and>
      (\<forall>e \<in> R. \<forall>f \<in> R. key_of fs e = key_of fs f \<longrightarrow>
         key_of fs ` set (next_dentries fs e) = key_of fs ` set (next_dentries fs f)) \<and>
      2 * card (key_of fs ` R) \<le> walk_fuel E)"

text \<open>The slab of the entries is sound and has room for the components.\<close>

definition slab_ready :: "env \<Rightarrow> nat \<Rightarrow> path_store \<Rightarrow> bool" where
  "slab_ready E k s =
     (slab_sound (dir_cache E) \<and> slab_roomy (length (pt_allocations (ps_tree s)) + k) (dir_cache E))"

definition with_held :: "path_store \<Rightarrow> held \<Rightarrow> path_store" where
  "with_held s k = s\<lparr>ps_iter := (ps_iter s)\<lparr>it_held := k\<rparr>\<rparr>"

lemma with_held_simps [simp]:
  "ps_tree (with_held s k) = ps_tree s" "argIdxs (with_held s k) = argIdxs s"
  "store_lock (with_held s k) = store_lock s" "it_inodes (ps_iter (with_held s k)) = it_inodes (ps_iter s)"
  "it_held (ps_iter (with_held s k)) = k" "store_ok (with_held s k) = store_ok s"
  by (simp_all add: with_held_def store_ok_def)

lemma ask_oracle_eq:
  assumes "terminated path" and "kmem E (kclock (it_held (ps_iter s))) \<noteq> None"
  shows "\<exists>k. ask_oracle E path s = Inr (with_held s k, resolve (file_system E) (c_str path),
      (case resolve (file_system E) (c_str path) of None \<Rightarrow> path | Some decree \<Rightarrow> decree_path decree @ [NUL])) \<and>
    inode_readers k = inode_readers (it_held (ps_iter s)) \<and>
    objects k = objects (it_held (ps_iter s)) + (if resolve (file_system E) (c_str path) = None then 0 else 1)"
proof -
  obtain k a where run: "pathname_oracle (kmem E) (file_system E) (c_str path) (it_held (ps_iter s)) = (k, a)"
    by fastforce
  have "a = resolve (file_system E) (c_str path)"
    using oracle_answer [of "kmem E" "file_system E" "c_str path" "it_held (ps_iter s)"] run assms(2) by simp
  with run assms(1) oracle_held [OF run] show ?thesis
    by (auto simp: ask_oracle_def with_held_def Let_def)
qed

lemma nonce_step: "n \<noteq> ULLONG_MAX \<Longrightarrow> x \<le> n \<Longrightarrow> x < n + 1"
  using unatSuc [of n] by (auto simp: ULLONG_MAX_def word_less_nat_alt word_le_nat_alt add.commute eq_neg_iff_add_eq_0)

lemma with_nonce [simp]:
  "registry_ok (i\<lparr>nonce := w\<rparr>) = registry_ok i" "node_of (i\<lparr>nonce := w\<rparr>) = node_of i"
  by (simp_all add: registry_ok_def node_of_def [abs_def])

text \<open>The walk of an adding call, started behind the increment of the nonce.\<close>

lemma add_walk:
  assumes ready: "walk_ready E d" and ok: "registry_ok (it_inodes (ps_iter s))"
    and le: "stamps_le (it_inodes (ps_iter s))" and now: "nonce (it_inodes (ps_iter s)) \<noteq> ULLONG_MAX"
  obtains it where "store_iterate_add (walk_fuel E) (ino_cache E) (kmem E) (file_system E) d (next_nonce s) = Inr it"
    and "registry_ok (it_inodes it)" and "stamps_le (it_inodes it)"
    and "nonce (it_inodes it) = nonce (it_inodes (ps_iter s)) + 1"
    and "dom (node_of (it_inodes it)) = registered s \<union>
       key_of (file_system E) ` reach (next_dentries (file_system E)) d"
    and "inode_readers (it_held it) = inode_readers (it_held (ps_iter s))"
    and "objects (it_held it) = objects (it_held (ps_iter s))"
proof -
  let ?st = "next_nonce s" and ?n = "nonce (it_inodes (ps_iter s))"
  note R = ready [unfolded walk_ready_def Let_def]
  have ino: "it_inodes ?st = (it_inodes (ps_iter s))\<lparr>nonce := ?n + 1\<rparr>"
    and h: "it_held ?st = it_held (ps_iter s)" by (simp_all add: next_nonce_def)
  have pos: "0 < nonce (it_inodes ?st)" using nonce_step [OF now, of 0] by (simp add: ino)
  have ok': "registry_ok (it_inodes ?st)" using ok by (simp add: ino)
  have fresh: "\<forall>k n. node_of (it_inodes ?st) k = Some n \<longrightarrow> stamp n < nonce (it_inodes ?st)"
    using le nonce_step [OF now] by (simp add: ino stamps_le_def del: split_paired_All)
  from store_iterate_add_reaches [OF conjunct1 [OF R] conjunct1 [OF conjunct2 [OF R]] ok' pos fresh
      conjunct1 [OF conjunct2 [OF conjunct2 [OF R]]] conjunct1 [OF conjunct2 [OF conjunct2 [OF conjunct2 [OF R]]]]
      conjunct1 [OF conjunct2 [OF conjunct2 [OF conjunct2 [OF conjunct2 [OF R]]]]]
      conjunct2 [OF conjunct2 [OF conjunct2 [OF conjunct2 [OF conjunct2 [OF R]]]]]]
  obtain it where "store_iterate_add (walk_fuel E) (ino_cache E) (kmem E) (file_system E) d ?st = Inr it"
    "registry_ok (it_inodes it)" "stamps_le (it_inodes it)" "nonce (it_inodes it) = nonce (it_inodes ?st)"
    "dom (node_of (it_inodes it)) = dom (node_of (it_inodes ?st)) \<union>
       key_of (file_system E) ` reach (next_dentries (file_system E)) d"
    "inode_readers (it_held it) = inode_readers (it_held ?st)" "objects (it_held it) = objects (it_held ?st)"
    by (elim exE conjE) (rule that)
  then show thesis by (intro that [of it]) (simp_all add: ino h registered_def)
qed

text \<open>
  Up to the lock the three functions do the same on a path that is accepted: they ask the oracle and split
  the path. The check stops before that at an inode that is registered.
\<close>

lemma first_half:
  assumes ok: "store_ok s" and t: "terminated path"
    and mem: "kmem E (kclock (it_held (ps_iter s))) \<noteq> None"
    and res: "resolve (file_system E) (c_str path) = resolved"
    and ex: "examined = (case resolved of None \<Rightarrow> path | Some decree \<Rightarrow> decree_path decree @ [NUL])"
    and acc: "path_accepted (c_str examined)"
  obtains k b idx s1 where "s1 = with_held s k\<lparr>argIdxs := idx\<rparr>" and "store_ok s1"
    and "reads_path b idx (path_components (c_str examined))"
    and "inode_readers k = inode_readers (it_held (ps_iter s))"
    and "objects k = objects (it_held (ps_iter s)) + (if resolved = None then 0 else 1)"
    and "path_store_add E path s = locked_add E resolved b (length (path_components (c_str examined))) s1"
    and "path_store_rm E path s = locked_rm E resolved b (length (path_components (c_str examined))) s1"
    and "(\<forall>decree. resolved = Some decree \<longrightarrow> (device decree, inode decree) \<notin> registered s) \<Longrightarrow>
      path_store_check E path s = locked_check resolved b (length (path_components (c_str examined))) s1"
proof -
  let ?ts = "path_components (c_str examined)"
  from ask_oracle_eq [OF t mem, unfolded res, folded ex] obtain k where
    ask: "ask_oracle E path s = Inr (with_held s k, resolved, examined)"
    and k: "inode_readers k = inode_readers (it_held (ps_iter s))"
      "objects k = objects (it_held (ps_iter s)) + (if resolved = None then 0 else 1)" by blast
  have trm: "terminated examined" using t by (simp add: ex terminated_def split: option.split)
  have len: "length (argIdxs s) = ARGS_SIZE" and first: "argIdxs s ! 0 \<le> 1" using ok by (simp_all add: store_ok_def)
  obtain b idx where run: "process_path examined (argIdxs s) = Inr (b, idx, length ?ts)"
    and l: "length idx = ARGS_SIZE" "idx ! 0 \<le> 1" and j: "length ?ts \<noteq> UINT_MAX" and reads: "reads_path b idx ?ts"
    using split_and_search [OF trm len first] acc by metis
  let ?s1 = "with_held s k\<lparr>argIdxs := idx\<rparr>"
  have known: "(case resolved of None \<Rightarrow> False
      | Some decree \<Rightarrow> check_inode (device decree) (inode decree) (it_inodes (ps_iter (with_held s k))) \<noteq> 0) = False"
    if "\<forall>decree. resolved = Some decree \<longrightarrow> (device decree, inode decree) \<notin> registered s"
    using that check_inode_registered [OF ok] by (auto split: option.splits)
  show thesis
  proof (rule that [of ?s1 idx k b])
    show "store_ok ?s1" using ok l by (simp add: store_ok_def)
    show "path_store_check E path s = locked_check resolved b (length ?ts) ?s1"
      if "\<forall>decree. resolved = Some decree \<longrightarrow> (device decree, inode decree) \<notin> registered s"
      by (simp add: path_store_check_def ask run j known [OF that])
  qed (use k reads in \<open>simp_all add: path_store_add_def path_store_rm_def ask run j\<close>)
qed

text \<open>
  The tree part of \<open>locked_add\<close>: the lock is taken, the path that the array reads is added, and
  what is left is the tail of the function.
\<close>

lemma locked_add_grows:
  assumes ok: "store_ok s" and free: "rw_free (store_lock s)" and reads: "reads_path b (argIdxs s) us"
    and ne: "[] \<notin> set us" and short: "\<forall>w \<in> set us. length w < DIR_NAME_SIZE" and slab: "slab_ready E (length us) s"
  obtains tr where "locked_add E resolved b (length us) s =
      (let s1 = s\<lparr>store_lock := (store_lock s)\<lparr>rw_writer := True\<rparr>, ps_tree := tr\<rparr> in
       case resolved of None \<Rightarrow> Inr (s1, 0)
       | Some decree \<Rightarrow>
           bind_out (store_iterate_add (walk_fuel E) (ino_cache E) (kmem E) (file_system E)
                 (dentry_of decree) (next_nonce s1)) (\<lambda>it.
           bind_out (unlock_or_refresh E (s1\<lparr>ps_iter := it\<rparr>)) (\<lambda>s.
             Inr (clean_oracle_decree resolved s, 0))))"
    and "heap_ok tr" and "pruned tr" and "explicit_paths tr = insert us (protected_paths s)"
proof -
  let ?tr = "ps_tree s"
  have hok: "heap_ok ?tr" and pr: "pruned ?tr" using ok by (simp_all add: store_ok_def)
  obtain cur d where search: "path_search_loop (pt_heap ?tr) b (argIdxs s) (length us) (pt_root ?tr) 0 = Inr (cur, d)"
    and stop: "stops_at ?tr us cur d" by (rule reads_search [OF hok reads])
  from slab have slab': "slab_sound (dir_cache E)"
    "slab_roomy (length (pt_allocations ?tr) + length us) (dir_cache E)" by (simp_all add: slab_ready_def)
  have toks: "holds_tokens b (argIdxs s) us" and few: "length us \<le> ARGS_SIZE" using reads by (simp_all add: reads_path_def)
  obtain a t1 t2 where loop: "add_loop ADD_ROUNDS (dir_cache E) b (argIdxs s) (length us) (pt_root ?tr) 0 ?tr = Inr (Inr (a, t1))"
    and mark: "set_explicited a t1 = Inr t2" and t2: "heap_ok t2" "pruned t2"
      "explicit_paths t2 = insert us (explicit_paths ?tr)"
    by (rule add_to_tree [OF hok pr slab' order.refl toks few ne short search stop])
  have lock: "down_write (store_lock s) = Inr ((store_lock s)\<lparr>rw_writer := True\<rparr>)"
    using free by (simp add: lock_rules)
  show thesis
    by (rule that [of t2]) (use loop mark lock t2 in \<open>simp_all add: locked_add_def Let_def protected_paths_def\<close>)
qed

lemma c_str_decree: "NUL \<notin> set p \<Longrightarrow> c_str (p @ [NUL]) = p"
  using c_str_append_NUL [of p "[]"] by simp

text \<open>With a path that was resolved, the walk over the inodes follows, and the lock is free again.\<close>

lemma locked_add_resolved:
  assumes ok: "store_ok s" and free: "rw_free (store_lock s)" and reads: "reads_path b (argIdxs s) us"
    and us: "[] \<notin> set us" "\<forall>w \<in> set us. length w < DIR_NAME_SIZE" and slab: "slab_ready E (length us) s"
    and ready: "walk_ready E (dentry_of decree)"
    and now: "nonce (it_inodes (ps_iter s)) \<noteq> ULLONG_MAX"
      "nonce (it_inodes (ps_iter s)) + 1 \<noteq> ULLONG_MAX"
  shows "\<exists>s'. locked_add E (Some decree) b (length us) s = Inr (s', 0) \<and> store_ok s' \<and> rw_free (store_lock s') \<and>
    protected_paths s' = insert us (protected_paths s) \<and>
    registered s' = registered s \<union>
      key_of (file_system E) ` reach (next_dentries (file_system E)) (dentry_of decree) \<and>
    argIdxs s' = argIdxs s \<and>
    nonce (it_inodes (ps_iter s')) = nonce (it_inodes (ps_iter s)) + 1 \<and>
    inode_readers (it_held (ps_iter s')) = inode_readers (it_held (ps_iter s)) \<and>
    objects (it_held (ps_iter s')) = objects (it_held (ps_iter s)) - 1"
proof (rule locked_add_grows [OF ok free reads us slab, of "Some decree"])
  fix tr
  let ?s1 = "s\<lparr>store_lock := (store_lock s)\<lparr>rw_writer := True\<rparr>, ps_tree := tr\<rparr>"
  assume "locked_add E (Some decree) b (length us) s =
      (let s1 = ?s1 in
       case Some decree of None \<Rightarrow> Inr (s1, 0)
       | Some d \<Rightarrow>
           bind_out (store_iterate_add (walk_fuel E) (ino_cache E) (kmem E) (file_system E)
                 (dentry_of d) (next_nonce s1)) (\<lambda>it.
           bind_out (unlock_or_refresh E (s1\<lparr>ps_iter := it\<rparr>)) (\<lambda>s.
             Inr (clean_oracle_decree (Some decree) s, 0))))"
  then have run: "locked_add E (Some decree) b (length us) s =
      bind_out (store_iterate_add (walk_fuel E) (ino_cache E) (kmem E) (file_system E)
          (dentry_of decree) (next_nonce ?s1)) (\<lambda>it.
        bind_out (unlock_or_refresh E (?s1\<lparr>ps_iter := it\<rparr>)) (\<lambda>s.
          Inr (clean_oracle_decree (Some decree) s, 0)))" by (simp add: Let_def)
  assume tr: "heap_ok tr" "pruned tr" "explicit_paths tr = insert us (protected_paths s)"
  have reg: "registry_ok (it_inodes (ps_iter ?s1))" "stamps_le (it_inodes (ps_iter ?s1))"
    "nonce (it_inodes (ps_iter ?s1)) \<noteq> ULLONG_MAX" using ok now(1) by (simp_all add: store_ok_def)
  show ?thesis
  proof (rule add_walk [OF ready reg])
    fix it
    assume it: "store_iterate_add (walk_fuel E) (ino_cache E) (kmem E) (file_system E) (dentry_of decree) (next_nonce ?s1) = Inr it"
      "registry_ok (it_inodes it)" "stamps_le (it_inodes it)"
      "nonce (it_inodes it) = nonce (it_inodes (ps_iter ?s1)) + 1"
      "dom (node_of (it_inodes it)) = registered ?s1 \<union>
         key_of (file_system E) ` reach (next_dentries (file_system E)) (dentry_of decree)"
      "inode_readers (it_held it) = inode_readers (it_held (ps_iter ?s1))"
      "objects (it_held it) = objects (it_held (ps_iter ?s1))"
    let ?s' = "clean_oracle_decree (Some decree) (?s1\<lparr>ps_iter := it, store_lock := up_write (store_lock ?s1)\<rparr>)"
    have "nonce (it_inodes it) \<noteq> ULLONG_MAX" using it(4) now(2) by simp
    then have "unlock_or_refresh E (?s1\<lparr>ps_iter := it\<rparr>) =
      Inr (?s1\<lparr>ps_iter := it, store_lock := up_write (store_lock ?s1)\<rparr>)"
      by (simp add: unlock_or_refresh_def)
    then have "locked_add E (Some decree) b (length us) s = Inr (?s', 0)" using run it(1) by simp
    moreover have "ps_tree ?s' = tr" "argIdxs ?s' = argIdxs s" "it_inodes (ps_iter ?s') = it_inodes it"
      "inode_readers (it_held (ps_iter ?s')) = inode_readers (it_held (ps_iter s))"
      "objects (it_held (ps_iter ?s')) = objects (it_held (ps_iter s)) - 1"
      "rw_free (store_lock ?s')"
      using it(6,7) free by (simp_all add: clean_oracle_decree_def kfree_def up_write_def rw_free_def)
    moreover have "registered ?s' = registered s \<union>
        key_of (file_system E) ` reach (next_dentries (file_system E)) (dentry_of decree)"
      "nonce (it_inodes (ps_iter ?s')) = nonce (it_inodes (ps_iter s)) + 1"
      using it(4,5) by (simp_all add: registered_def clean_oracle_decree_def)
    ultimately show ?thesis using it(2,3) ok tr
      by (intro exI [of _ ?s']) (simp add: store_ok_def protected_paths_def)
  qed
qed

text \<open>Both halves together, on a storable path.\<close>

lemma add_until_tail:
  assumes ok: "store_ok s" and free: "rw_free (store_lock s)" and t: "terminated path"
    and mem: "kmem E (kclock (it_held (ps_iter s))) \<noteq> None"
    and res: "resolve (file_system E) (c_str path) = resolved"
    and ex: "examined = (case resolved of None \<Rightarrow> path | Some decree \<Rightarrow> decree_path decree @ [NUL])"
    and st: "storable (c_str examined)"
    and slab: "slab_ready E (length (path_components (c_str examined))) s"
  obtains k idx tr where "path_store_add E path s =
      (let s1 = with_held s k\<lparr>argIdxs := idx, store_lock := (store_lock s)\<lparr>rw_writer := True\<rparr>, ps_tree := tr\<rparr> in
       case resolved of None \<Rightarrow> Inr (s1, 0)
       | Some decree \<Rightarrow>
           bind_out (store_iterate_add (walk_fuel E) (ino_cache E) (kmem E) (file_system E)
                 (dentry_of decree) (next_nonce s1)) (\<lambda>it.
           bind_out (unlock_or_refresh E (s1\<lparr>ps_iter := it\<rparr>)) (\<lambda>s.
             Inr (clean_oracle_decree resolved s, 0))))"
    and "length idx = ARGS_SIZE" and "idx ! 0 \<le> 1" and "heap_ok tr" and "pruned tr"
    and "explicit_paths tr = insert (path_components (c_str examined)) (protected_paths s)"
    and "inode_readers k = inode_readers (it_held (ps_iter s))"
    and "objects k = objects (it_held (ps_iter s)) + (if resolved = None then 0 else 1)"
proof -
  let ?ts = "path_components (c_str examined)"
  have acc: "path_accepted (c_str examined)" and us: "[] \<notin> set ?ts" "\<forall>w \<in> set ?ts. length w < DIR_NAME_SIZE"
    using st by (simp_all add: storable_def)
  obtain k b idx where ok1: "store_ok (with_held s k\<lparr>argIdxs := idx\<rparr>)" and reads: "reads_path b idx ?ts"
    and k: "inode_readers k = inode_readers (it_held (ps_iter s))"
      "objects k = objects (it_held (ps_iter s)) + (if resolved = None then 0 else 1)"
    and run: "path_store_add E path s = locked_add E resolved b (length ?ts) (with_held s k\<lparr>argIdxs := idx\<rparr>)"
    by (rule first_half [OF ok t mem res ex acc]) (rule that, simp_all)
  let ?s1 = "with_held s k\<lparr>argIdxs := idx\<rparr>"
  have s1: "rw_free (store_lock ?s1)" "reads_path b (argIdxs ?s1) ?ts" "slab_ready E (length ?ts) ?s1"
    "protected_paths ?s1 = protected_paths s"
    using free reads slab by (simp_all add: slab_ready_def protected_paths_def)
  have l: "length idx = ARGS_SIZE" "idx ! 0 \<le> 1" using ok1 by (simp_all add: store_ok_def)
  show thesis
    by (rule locked_add_grows [OF ok1 s1(1,2) us s1(3), of resolved])
      (rule that [where k = k and idx = idx], use l k run s1(4) in simp_all)
qed

lemma add_resolved:
  assumes ok: "store_ok s" and free: "rw_free (store_lock s)" and t: "terminated path"
    and res: "resolve (file_system E) (c_str path) = Some decree"
    and st: "storable (decree_path decree)" and nul: "NUL \<notin> set (decree_path decree)"
    and slab: "slab_ready E (length (path_components (decree_path decree))) s"
    and ready: "walk_ready E (dentry_of decree)"
    and now: "nonce (it_inodes (ps_iter s)) \<noteq> ULLONG_MAX"
      "nonce (it_inodes (ps_iter s)) + 1 \<noteq> ULLONG_MAX"
  shows "\<exists>s'. path_store_add E path s = Inr (s', 0) \<and> store_ok s' \<and> rw_free (store_lock s') \<and>
    protected_paths s' = insert (path_components (decree_path decree)) (protected_paths s) \<and>
    registered s' = registered s \<union>
      key_of (file_system E) ` reach (next_dentries (file_system E)) (dentry_of decree) \<and>
    nonce (it_inodes (ps_iter s')) = nonce (it_inodes (ps_iter s)) + 1 \<and>
    inode_readers (it_held (ps_iter s')) = inode_readers (it_held (ps_iter s)) \<and>
    objects (it_held (ps_iter s')) = objects (it_held (ps_iter s))"
proof -
  let ?ts = "path_components (decree_path decree)"
  have mem: "kmem E (kclock (it_held (ps_iter s))) \<noteq> None" using ready by (simp add: walk_ready_def Let_def)
  have ex: "decree_path decree @ [NUL] = (case Some decree of None \<Rightarrow> path | Some decree \<Rightarrow> decree_path decree @ [NUL])"
    by simp
  have acc: "path_accepted (decree_path decree)" and us: "[] \<notin> set ?ts" "\<forall>w \<in> set ?ts. length w < DIR_NAME_SIZE"
    using st by (simp_all add: storable_def)
  show ?thesis
  proof (rule first_half [OF ok t mem res ex, unfolded c_str_decree [OF nul], OF acc])
    fix k b idx s1
    assume s1: "s1 = with_held s k\<lparr>argIdxs := idx\<rparr>" and ok1: "store_ok s1" and reads: "reads_path b idx ?ts"
      and k: "inode_readers k = inode_readers (it_held (ps_iter s))"
        "objects k = objects (it_held (ps_iter s)) + (if Some decree = None then 0 else 1)"
      and run: "path_store_add E path s = locked_add E (Some decree) b (length ?ts) s1"
    have h: "rw_free (store_lock s1)" "reads_path b (argIdxs s1) ?ts" "slab_ready E (length ?ts) s1"
      "nonce (it_inodes (ps_iter s1)) \<noteq> ULLONG_MAX" "nonce (it_inodes (ps_iter s1)) + 1 \<noteq> ULLONG_MAX"
      using free reads slab now by (simp_all add: s1 slab_ready_def)
    have "protected_paths s1 = protected_paths s" "registered s1 = registered s"
      "it_inodes (ps_iter s1) = it_inodes (ps_iter s)" "it_held (ps_iter s1) = k"
      by (simp_all add: s1 protected_paths_def registered_def)
    with locked_add_resolved [OF ok1 h(1,2) us h(3) ready h(4,5)] run k show ?thesis by auto
  qed
qed

lemma add_unresolved:
  assumes ok: "store_ok s" and free: "rw_free (store_lock s)" and t: "terminated path"
    and mem: "kmem E (kclock (it_held (ps_iter s))) \<noteq> None"
    and res: "resolve (file_system E) (c_str path) = None"
    and st: "storable (c_str path)" and slab: "slab_ready E (length (path_components (c_str path))) s"
  shows "\<exists>s'. path_store_add E path s = Inr (s', 0) \<and> store_ok s' \<and> rw_writer (store_lock s') \<and>
    protected_paths s' = insert (path_components (c_str path)) (protected_paths s) \<and>
    it_inodes (ps_iter s') = it_inodes (ps_iter s) \<and>
    inode_readers (it_held (ps_iter s')) = inode_readers (it_held (ps_iter s)) \<and>
    objects (it_held (ps_iter s')) = objects (it_held (ps_iter s))"
proof -
  have ex: "path = (case None of None \<Rightarrow> path | Some decree \<Rightarrow> decree_path decree @ [NUL])" by simp
  show ?thesis
  proof (rule add_until_tail [OF ok free t mem res ex st slab])
    fix k idx tr
    let ?s1 = "with_held s k\<lparr>argIdxs := idx, store_lock := (store_lock s)\<lparr>rw_writer := True\<rparr>, ps_tree := tr\<rparr>"
    assume "path_store_add E path s =
      (let s1 = ?s1 in
       case None of None \<Rightarrow> Inr (s1, 0)
       | Some decree \<Rightarrow>
           bind_out (store_iterate_add (walk_fuel E) (ino_cache E) (kmem E) (file_system E)
                 (dentry_of decree) (next_nonce s1)) (\<lambda>it.
           bind_out (unlock_or_refresh E (s1\<lparr>ps_iter := it\<rparr>)) (\<lambda>s.
             Inr (clean_oracle_decree None s, 0))))"
    and r: "length idx = ARGS_SIZE" "idx ! 0 \<le> 1" "heap_ok tr" "pruned tr"
      "explicit_paths tr = insert (path_components (c_str path)) (protected_paths s)"
      "inode_readers k = inode_readers (it_held (ps_iter s))"
      "objects k = objects (it_held (ps_iter s)) + (if None = None then 0 else 1)"
    then have run: "path_store_add E path s = Inr (?s1, 0)" by simp
    show ?thesis
      by (rule exI [of _ ?s1]) (use run r ok in \<open>simp add: store_ok_def protected_paths_def with_held_def\<close>)
  qed
qed

text \<open>
  A free store that has room for \<open>n\<close> more requests: each may take a nonce and at most \<open>ARGS_SIZE\<close> entries.
\<close>

definition store_room :: "nat \<Rightarrow> nat \<Rightarrow> path_store \<Rightarrow> bool" where
  "store_room N n s =
     (store_ok s \<and> rw_free (store_lock s) \<and> unat (nonce (it_inodes (ps_iter s))) + n < 2 ^ 64 - 1 \<and>
      length (pt_allocations (ps_tree s)) + ARGS_SIZE * n \<le> N)"

lemma ULLONG_unat: "unat (x :: 64 word) < 2 ^ 64 - 1 \<Longrightarrow> x \<noteq> ULLONG_MAX"
  by (auto simp: ULLONG_MAX_def unsigned_minus_1_eq_mask mask_eq_exp_minus_1)

lemma nonce_room:
  assumes "unat (x :: 64 word) + Suc n < 2 ^ 64 - 1"
  shows "x \<noteq> ULLONG_MAX" "x + 1 \<noteq> ULLONG_MAX" "unat (x + 1) = Suc (unat x)"
proof -
  show u: "unat (x + 1) = Suc (unat x)" using assms by (simp add: unat_word_ariths(1))
  show "x \<noteq> ULLONG_MAX" "x + 1 \<noteq> ULLONG_MAX" using assms u by (auto intro!: ULLONG_unat)
qed

lemma store_room_after:
  assumes s: "store_room N (Suc n) s" and st: "store_ok s'" "rw_free (store_lock s')"
    and ps: "\<exists>cs. length cs \<le> ARGS_SIZE \<and> protected_paths s' \<subseteq> insert cs (protected_paths s)"
    and now: "nonce (it_inodes (ps_iter s')) = nonce (it_inodes (ps_iter s)) + (if pass then 1 else 0)"
  shows "store_room N n s'"
proof -
  let ?t = "ps_tree s" and ?t' = "ps_tree s'"
  have H: "heap_ok ?t" "pruned ?t" "heap_ok ?t'" "pruned ?t'"
    using s st(1) by (simp_all add: store_room_def store_ok_def)
  from ps obtain cs where cs: "length cs \<le> ARGS_SIZE" "explicit_paths ?t' \<subseteq> insert cs (explicit_paths ?t)"
    by (auto simp: protected_paths_def)
  have "length (pt_allocations ?t') \<le> length (pt_allocations ?t) + ARGS_SIZE"
    using entries_grow_sub [OF H cs(2)] cs(1) by linarith
  moreover have "length (pt_allocations ?t) + ARGS_SIZE * Suc n \<le> N" using s by (simp add: store_room_def)
  ultimately have room: "length (pt_allocations ?t') + ARGS_SIZE * n \<le> N" by simp
  let ?x = "nonce (it_inodes (ps_iter s))"
  have b: "unat ?x + Suc n < 2 ^ 64 - 1" using s by (simp add: store_room_def)
  have "unat (nonce (it_inodes (ps_iter s'))) + n < 2 ^ 64 - 1"
    using now nonce_room(3) [OF b] b by (cases pass) simp_all
  with st room show ?thesis by (simp add: store_room_def)
qed

text \<open>Whoever finds the lock held for writing waits.\<close>

lemma writer_blocks:
  assumes "store_ok s" and w: "rw_writer (store_lock s)" and t: "terminated path"
    and mem: "kmem E (kclock (it_held (ps_iter s))) \<noteq> None"
    and res: "resolve (file_system E) (c_str path) = None" and acc: "path_accepted (c_str path)"
  shows "path_store_add E path s = Inl Blocked" and "path_store_rm E path s = Inl Blocked"
    and "path_store_check E path s = Inl Blocked"
proof -
  from ask_oracle_eq [OF t mem, unfolded res] obtain k where
    ask: "ask_oracle E path s = Inr (with_held s k, None, path)" by auto
  have idx: "length (argIdxs s) = ARGS_SIZE" "argIdxs s ! 0 \<le> 1" using assms(1) by (simp_all add: store_ok_def)
  obtain b idx j where run: "process_path path (argIdxs s) = Inr (b, idx, j)" "j \<noteq> UINT_MAX"
    using split_and_search [OF t idx] acc by metis
  have locks: "down_write (store_lock s) = Inl Blocked" "down_read (store_lock s) = Inl Blocked"
    using w by (simp_all add: lock_rules rw_free_def)
  show "path_store_add E path s = Inl Blocked" "path_store_rm E path s = Inl Blocked"
    "path_store_check E path s = Inl Blocked"
    by (simp_all add: path_store_add_def path_store_rm_def path_store_check_def locked_add_def locked_rm_def
        locked_check_def ask with_held_def run locks)
qed


section \<open>What removing a path does\<close>

lemma stop_present:
  assumes st: "stops_at t ts cur d" and w: "walk (pt_heap t) (pt_root t) ts = Some a"
  shows "d = length ts \<and> cur = a"
proof -
  have "d = length ts"
  proof (rule ccontr)
    assume "d \<noteq> length ts"
    then have d: "d < length ts" using st by (simp add: stops_at_def)
    then have "walk (pt_heap t) (pt_root t) (take (Suc d) ts) = None"
      using st by (simp add: stops_at_def take_Suc_conv_app_nth walk_snoc)
    moreover have "take (Suc d) ts @ drop (Suc d) ts \<in> present t" using w by (simp add: present_def dom_def)
    then have "take (Suc d) ts \<in> present t" by (rule present_prefix)
    ultimately show False by (auto simp: present_def)
  qed
  with st w show ?thesis by (simp add: stops_at_def)
qed

text \<open>The part of \<open>locked_rm\<close> up to the tail, for the path that the array reads.\<close>

lemma locked_rm_prunes:
  assumes ok: "store_ok s" and free: "rw_free (store_lock s)" and reads: "reads_path b (argIdxs s) us"
  shows "\<exists>tr. heap_ok tr \<and> pruned tr \<and> explicit_paths tr = protected_paths s - {us} \<and>
    locked_rm E resolved b (length us) s =
      (let s2 = s\<lparr>store_lock := (store_lock s)\<lparr>rw_writer := True\<rparr>\<rparr> in
       if us \<notin> protected_paths s then Inr (clean_oracle_decree resolved s, 1)
       else
         bind_out (case resolved of None \<Rightarrow> Inr (ps_iter s2)
                   | Some decree \<Rightarrow> store_iterate_rm (walk_fuel E) (kmem E) (file_system E)
                       (dentry_of decree) (next_nonce s2)) (\<lambda>it.
         bind_out (unlock_or_refresh E (s2\<lparr>ps_iter := it, ps_tree := tr\<rparr>)) (\<lambda>s.
           Inr (clean_oracle_decree resolved s, 0))))"
proof -
  let ?tr = "ps_tree s"
  have hok: "heap_ok ?tr" and pr: "pruned ?tr" using ok by (simp_all add: store_ok_def)
  obtain cur d where search: "path_search_loop (pt_heap ?tr) b (argIdxs s) (length us) (pt_root ?tr) 0 = Inr (cur, d)"
    and stop: "stops_at ?tr us cur d" by (rule reads_search [OF hok reads])
  have lock: "down_write (store_lock s) = Inr ((store_lock s)\<lparr>rw_writer := True\<rparr>)"
    using free by (simp add: lock_rules)
  have unlock: "up_write ((store_lock s)\<lparr>rw_writer := True\<rparr>) = store_lock s"
    using free by (cases "store_lock s") (simp add: up_write_def rw_free_def)
  have wcur: "walk (pt_heap ?tr) (pt_root ?tr) (take d us) = Some cur" using stop by (simp add: stops_at_def)
  obtain e where e: "pt_heap ?tr cur = Some e" using walk_dom [OF hok wcur] by auto
  have mk: "marked (pt_heap ?tr) cur \<longleftrightarrow> explicited e" by (simp add: marked_def e)
  show ?thesis
  proof (cases "us \<in> protected_paths s")
    case True
    then obtain a where w: "walk (pt_heap ?tr) (pt_root ?tr) us = Some a" and m: "marked (pt_heap ?tr) a"
      by (auto simp: protected_paths_def explicit_paths_def)
    from stop_present [OF stop w] have d: "d = length us" and a: "cur = a" by auto
    show ?thesis
    proof (rule remove_from_tree [OF hok pr w [folded a] e])
      fix t1 t2
      assume t1: "clear_explicited cur ?tr = Inr t1"
        and t2: "(if child_count e \<noteq> 0 then Inr t1 else climb (Suc (length (pt_allocations t1))) cur t1) = Inr t2"
          "heap_ok t2" "pruned t2" "explicit_paths t2 = explicit_paths ?tr - {us}"
      have "explicited e" using m a mk by simp
      with t2 True show ?thesis
        by (intro exI [of _ t2], cases "child_count e = 0")
          (simp_all add: locked_rm_def Let_def search d lock e t1 protected_paths_def)
    qed
  next
    case False
    have "d \<noteq> length us \<or> \<not> explicited e"
    proof (rule ccontr)
      assume "\<not> ?thesis"
      with wcur mk have "us \<in> protected_paths s" by (auto simp: protected_paths_def explicit_paths_def)
      with False show False by simp
    qed
    then have "locked_rm E resolved b (length us) s = Inr (clean_oracle_decree resolved s, 1)"
      by (elim disjE) (simp_all add: locked_rm_def Let_def search lock unlock e)
    with hok pr False show ?thesis
      by (intro exI [of _ ?tr]) (simp add: protected_paths_def)
  qed
qed

text \<open>Both halves together, on a path that is accepted.\<close>

lemma rm_until_tail:
  assumes ok: "store_ok s" and free: "rw_free (store_lock s)" and t: "terminated path"
    and mem: "kmem E (kclock (it_held (ps_iter s))) \<noteq> None"
    and res: "resolve (file_system E) (c_str path) = resolved"
    and ex: "examined = (case resolved of None \<Rightarrow> path | Some decree \<Rightarrow> decree_path decree @ [NUL])"
    and acc: "path_accepted (c_str examined)"
  shows "\<exists>k idx tr. length idx = ARGS_SIZE \<and> idx ! 0 \<le> 1 \<and> heap_ok tr \<and> pruned tr \<and>
    explicit_paths tr = protected_paths s - {path_components (c_str examined)} \<and>
    inode_readers k = inode_readers (it_held (ps_iter s)) \<and>
    objects k = objects (it_held (ps_iter s)) + (if resolved = None then 0 else 1) \<and>
    path_store_rm E path s =
      (let s1 = with_held s k\<lparr>argIdxs := idx\<rparr>; s2 = s1\<lparr>store_lock := (store_lock s)\<lparr>rw_writer := True\<rparr>\<rparr> in
       if path_components (c_str examined) \<notin> protected_paths s then Inr (clean_oracle_decree resolved s1, 1)
       else
         bind_out (case resolved of None \<Rightarrow> Inr (ps_iter s2)
                   | Some decree \<Rightarrow> store_iterate_rm (walk_fuel E) (kmem E) (file_system E)
                       (dentry_of decree) (next_nonce s2)) (\<lambda>it.
         bind_out (unlock_or_refresh E (s2\<lparr>ps_iter := it, ps_tree := tr\<rparr>)) (\<lambda>s.
           Inr (clean_oracle_decree resolved s, 0))))"
proof (rule first_half [OF ok t mem res ex acc])
  fix k b idx s1
  let ?ts = "path_components (c_str examined)"
  assume s1: "s1 = with_held s k\<lparr>argIdxs := idx\<rparr>" and ok1: "store_ok s1" and reads: "reads_path b idx ?ts"
    and k: "inode_readers k = inode_readers (it_held (ps_iter s))"
      "objects k = objects (it_held (ps_iter s)) + (if resolved = None then 0 else 1)"
    and run: "path_store_rm E path s = locked_rm E resolved b (length ?ts) s1"
  have h: "rw_free (store_lock s1)" "reads_path b (argIdxs s1) ?ts" "protected_paths s1 = protected_paths s"
    using free reads by (simp_all add: s1 protected_paths_def)
  have l: "length idx = ARGS_SIZE" "idx ! 0 \<le> 1" using ok1 by (simp_all add: store_ok_def s1)
  note prunes = locked_rm_prunes [OF ok1 h(1,2), of E resolved, unfolded h(3)]
  show ?thesis
  proof (rule exE [OF prunes], elim conjE)
    fix tr
    assume "heap_ok tr" "pruned tr" "explicit_paths tr = protected_paths s - {?ts}"
    moreover assume "locked_rm E resolved b (length ?ts) s1 =
      (let s2 = s1\<lparr>store_lock := (store_lock s1)\<lparr>rw_writer := True\<rparr>\<rparr> in
       if ?ts \<notin> protected_paths s then Inr (clean_oracle_decree resolved s1, 1)
       else
         bind_out (case resolved of None \<Rightarrow> Inr (ps_iter s2)
                   | Some decree \<Rightarrow> store_iterate_rm (walk_fuel E) (kmem E) (file_system E)
                       (dentry_of decree) (next_nonce s2)) (\<lambda>it.
         bind_out (unlock_or_refresh E (s2\<lparr>ps_iter := it, ps_tree := tr\<rparr>)) (\<lambda>s.
           Inr (clean_oracle_decree resolved s, 0))))"
    ultimately show ?thesis using l k run
      by (intro exI [of _ k] exI [of _ idx] exI [of _ tr]) (simp add: s1 Let_def)
  qed
qed

text \<open>The removing walk on a file: its inode is counted out, and everything taken is given back.\<close>

lemma rm_file_walk:
  assumes "d_inode fs d = Some key" and "\<not> d_is_symlink fs d" and "d_subdirs fs d = []"
    and ok: "registry_ok (it_inodes st)" and le: "stamps_le (it_inodes st)"
    and node: "node_of (it_inodes st) key = Some n" and "0 < fuel"
  shows "\<exists>it. store_iterate_rm fuel mem fs d st = Inr it \<and> registry_ok (it_inodes it) \<and>
    stamps_le (it_inodes it) \<and> nonce (it_inodes it) = nonce (it_inodes st) \<and>
    (stamp n < nonce (it_inodes st) \<longrightarrow> node_of (it_inodes it) = (node_of (it_inodes st))(key :=
       (if refCount n = 1 then None
        else Some (n\<lparr>refCount := refCount n - 1, stamp := nonce (it_inodes st)\<rparr>)))) \<and>
    inode_readers (it_held it) = inode_readers (it_held st) \<and>
    objects (it_held it) = objects (it_held st)"
proof -
  obtain m where f: "fuel = Suc m" using assms(7) by (cases fuel) auto
  have node': "node_of (it_inodes st) (fst key, snd key) = Some n" using node by simp
  from rm_inode_ht_cases [OF ok, of "fst key" "snd key"] node' obtain s' r where
    rm: "rm_inode_ht (fst key) (snd key) (it_inodes st) = Inr (s', r)" and ok': "registry_ok s'"
    and now: "nonce s' = nonce (it_inodes st)"
    and upd: "if stamp n < nonce (it_inodes st) then r = 1 \<and> node_of s' = (node_of (it_inodes st))(key :=
       (if refCount n = 1 then None
        else Some (n\<lparr>refCount := refCount n - 1, stamp := nonce (it_inodes st)\<rparr>)))
      else r = - 1 \<and> node_of s' = node_of (it_inodes st)" by auto
  have le': "stamps_le s'"
    using le upd unfolding stamps_le_def now
    by (auto simp del: split_paired_All split: if_splits)
  show ?thesis
  proof (cases "r = - 1")
    case True
    then have "\<not> stamp n < nonce (it_inodes st)" using upd by (auto split: if_splits)
    with True assms(1) rm ok' le' now show ?thesis
      by (auto simp: store_iterate_rm_def held_defs Let_def)
  next
    case False
    with assms(1-3) rm ok' le' now upd show ?thesis
      by (auto simp: store_iterate_rm_def f held_defs Let_def split: if_splits)
  qed
qed

section \<open>What checking a path answers\<close>

text \<open>
  The answer in terms of the set \<open>P\<close> of protected paths: how many of the components begin a
  protected path, and whether a protected path goes on from there.
\<close>

definition longest :: "string list set \<Rightarrow> string list \<Rightarrow> nat" where
  "longest P cs = Max {k. k \<le> length cs \<and> (k = 0 \<or> (\<exists>qs. take k cs @ qs \<in> P))}"

definition classify :: "string list set \<Rightarrow> string list \<Rightarrow> path_check_result" where
  "classify P cs =
     (let k = longest P cs; leaf = (\<not> (\<exists>q qs. take k cs @ q # qs \<in> P)) in
      if k = 0 \<and> leaf then MATCH_ROOT
      else if k = length cs then (if leaf then FULL_MATCH_LEAF else FULL_MATCH_DIR)
      else (if leaf then SUB_MATCH_LEAF else SUB_MATCH_DIR))"

lemma stop_longest:
  assumes ok: "heap_ok t" and pr: "pruned t" and st: "stops_at t ts cur d"
  shows "d = longest (explicit_paths t) ts"
    and "kids (pt_heap t) cur = [] \<longleftrightarrow> \<not> (\<exists>q qs. take d ts @ q # qs \<in> explicit_paths t)"
    and "cur = pt_root t \<longleftrightarrow> d = 0"
proof -
  note P = pruned_present [OF ok pr]
  have dl: "d \<le> length ts" and w: "walk (pt_heap t) (pt_root t) (take d ts) = Some cur"
    using st by (simp_all add: stops_at_def)
  have in_present: "take k ts \<in> present t \<longleftrightarrow> k = 0 \<or> (\<exists>qs. take k ts @ qs \<in> explicit_paths t)"
    if "k \<le> length ts" for k
  proof (cases "k = 0")
    case True
    then show ?thesis by simp
  next
    case False
    then have "take k ts \<noteq> []" using that by auto
    with False show ?thesis unfolding P by blast
  qed
  have stop: "k \<le> d" if "take k ts \<in> present t" "k \<le> length ts" for k
  proof (rule ccontr)
    assume "\<not> k \<le> d"
    then have d: "d < length ts" and k: "take k ts = take (Suc d) ts @ drop (Suc d) (take k ts)"
      using that(2) by (simp, metis append_take_drop_id min.absorb1 not_less_eq_eq take_take)
    have "take (Suc d) ts \<in> present t" using that(1) by (subst (asm) k) (rule present_prefix)
    with st d w show False
      by (auto simp: present_def stops_at_def take_Suc_conv_app_nth walk_snoc)
  qed
  have "take d ts \<in> present t" using w by (simp add: present_def dom_def)
  then show "d = longest (explicit_paths t) ts"
    unfolding longest_def using in_present stop dl
    by (intro Max_eqI [symmetric]) auto
  have "kids (pt_heap t) cur \<noteq> [] \<longleftrightarrow> (\<exists>n. take d ts @ [n] \<in> present t)"
  proof
    assume "kids (pt_heap t) cur \<noteq> []"
    then obtain c where "c \<in> set (kids (pt_heap t) cur)" by (cases "kids (pt_heap t) cur") auto
    then obtain n where "link (pt_heap t) c = Some (Some cur, n)" using heap_okD(6) [OF ok] by blast
    with w have "walk (pt_heap t) (pt_root t) (take d ts @ [n]) = Some c" by (simp add: walk_snoc_link [OF ok])
    then show "\<exists>n. take d ts @ [n] \<in> present t" by (auto simp: present_def)
  next
    assume "\<exists>n. take d ts @ [n] \<in> present t"
    then obtain n c where "walk (pt_heap t) (pt_root t) (take d ts @ [n]) = Some c"
      by (auto simp: present_def)
    with w show "kids (pt_heap t) cur \<noteq> []" by (auto simp: walk_snoc child_named_def)
  qed
  also have "\<dots> \<longleftrightarrow> (\<exists>q qs. take d ts @ q # qs \<in> explicit_paths t)"
    unfolding P by simp
  finally show "kids (pt_heap t) cur = [] \<longleftrightarrow> \<not> (\<exists>q qs. take d ts @ q # qs \<in> explicit_paths t)" by blast
  show "cur = pt_root t \<longleftrightarrow> d = 0"
    using walk_inj [OF ok w, of "[]"] w dl by (cases "d = 0") auto
qed

text \<open>What the check answers behind the lock, for the path that the array reads.\<close>

lemma locked_check_classifies:
  assumes ok: "store_ok s" and free: "\<not> rw_writer (store_lock s)" and reads: "reads_path b (argIdxs s) us"
  shows "locked_check resolved b (length us) s =
    Inr (clean_oracle_decree resolved s, classify (protected_paths s) us)"
proof -
  let ?tr = "ps_tree s"
  have hok: "heap_ok ?tr" and pr: "pruned ?tr" using ok by (simp_all add: store_ok_def)
  obtain cur d where search: "path_search_loop (pt_heap ?tr) b (argIdxs s) (length us) (pt_root ?tr) 0 = Inr (cur, d)"
    and stop: "stops_at ?tr us cur d" by (rule reads_search [OF hok reads])
  note S = stop_longest [OF hok pr stop]
  obtain e where e: "pt_heap ?tr cur = Some e"
    using walk_dom [OF hok, of "take d us" cur] stop by (auto simp: stops_at_def)
  have ke: "kids (pt_heap ?tr) cur = se_children e" by (simp add: kids_def e)
  have lock: "down_read (store_lock s) = Inr ((store_lock s)\<lparr>rw_readers := Suc (rw_readers (store_lock s))\<rparr>)"
    using free by (simp add: lock_rules)
  have unlock: "up_read ((store_lock s)\<lparr>rw_readers := Suc (rw_readers (store_lock s))\<rparr>) = store_lock s"
    by (simp add: up_read_def)
  have clean: "ps_tree (clean_oracle_decree resolved s) = ?tr" by (simp add: clean_oracle_decree_def)
  have "locked_check resolved b (length us) s = Inr (clean_oracle_decree resolved s,
      if cur = pt_root ?tr \<and> se_children e = [] then MATCH_ROOT
      else if d = length us then (if se_children e = [] then FULL_MATCH_LEAF else FULL_MATCH_DIR)
      else (if se_children e = [] then SUB_MATCH_LEAF else SUB_MATCH_DIR))"
    by (simp add: locked_check_def search lock unlock e Let_def clean)
  also have "\<dots> = Inr (clean_oracle_decree resolved s, classify (protected_paths s) us)"
    using S by (auto simp: classify_def protected_paths_def ke [symmetric] Let_def)
  finally show ?thesis .
qed

lemma clean_simps [simp]:
  "store_ok (clean_oracle_decree resolved s) = store_ok s"
  "ps_tree (clean_oracle_decree resolved s) = ps_tree s"
  "argIdxs (clean_oracle_decree resolved s) = argIdxs s"
  "store_lock (clean_oracle_decree resolved s) = store_lock s"
  "it_inodes (ps_iter (clean_oracle_decree resolved s)) = it_inodes (ps_iter s)"
  "inode_readers (it_held (ps_iter (clean_oracle_decree resolved s))) = inode_readers (it_held (ps_iter s))"
  "objects (it_held (ps_iter (clean_oracle_decree resolved s))) =
     objects (it_held (ps_iter s)) - (if resolved = None then 0 else 1)"
  by (simp_all add: clean_oracle_decree_def kfree_def store_ok_def)

lemma check_classifies:
  assumes ok: "store_ok s" and free: "\<not> rw_writer (store_lock s)" and t: "terminated path"
    and mem: "kmem E (kclock (it_held (ps_iter s))) \<noteq> None"
    and res: "resolve (file_system E) (c_str path) = resolved"
    and ex: "examined = (case resolved of None \<Rightarrow> path | Some decree \<Rightarrow> decree_path decree @ [NUL])"
  shows "\<exists>s'. path_store_check E path s = Inr (s',
      if \<exists>decree. resolved = Some decree \<and> node_of (it_inodes (ps_iter s)) (device decree, inode decree) \<noteq> None
      then MATCH_INODE
      else if path_accepted (c_str examined)
      then classify (protected_paths s) (path_components (c_str examined))
      else FULL_MATCH_LEAF) \<and>
    store_ok s' \<and> ps_tree s' = ps_tree s \<and> store_lock s' = store_lock s \<and>
    it_inodes (ps_iter s') = it_inodes (ps_iter s) \<and>
    inode_readers (it_held (ps_iter s')) = inode_readers (it_held (ps_iter s)) \<and>
    objects (it_held (ps_iter s')) = objects (it_held (ps_iter s))"
proof -
  let ?ts = "path_components (c_str examined)"
  let ?known = "\<exists>decree. resolved = Some decree \<and>
    node_of (it_inodes (ps_iter s)) (device decree, inode decree) \<noteq> None"
  from ask_oracle_eq [OF t mem, unfolded res, folded ex] obtain k where
    ask: "ask_oracle E path s = Inr (with_held s k, resolved, examined)"
    and k: "inode_readers k = inode_readers (it_held (ps_iter s))"
      "objects k = objects (it_held (ps_iter s)) + (if resolved = None then 0 else 1)" by blast
  have reg: "registry_ok (it_inodes (ps_iter s))" and len: "length (argIdxs s) = ARGS_SIZE"
    and first: "argIdxs s ! 0 \<le> 1" using ok by (simp_all add: store_ok_def)
  have known: "(case resolved of None \<Rightarrow> False
           | Some decree \<Rightarrow> check_inode (device decree) (inode decree)
               (it_inodes (ps_iter (with_held s k))) \<noteq> 0) = ?known"
    using reg by (auto simp: check_inode_iff split: option.splits)
  show ?thesis
  proof (cases ?known)
    case True
    then have "path_store_check E path s = Inr (clean_oracle_decree resolved (with_held s k), MATCH_INODE)"
      by (simp add: path_store_check_def ask known)
    with True k ok show ?thesis by (intro exI [of _ "clean_oracle_decree resolved (with_held s k)"]) simp
  next
    case unknown: False
    show ?thesis
    proof (cases "path_accepted (c_str examined)")
      case False
      have trm: "terminated examined" using t by (simp add: ex terminated_def split: option.split)
      obtain b idx where run: "process_path examined (argIdxs s) = Inr (b, idx, UINT_MAX)"
        and l: "length idx = ARGS_SIZE" "idx ! 0 \<le> 1" using split_and_search [OF trm len first] False by metis
      have kn: "(case resolved of None \<Rightarrow> False
           | Some decree \<Rightarrow> check_inode (device decree) (inode decree)
               (it_inodes (ps_iter (with_held s k))) \<noteq> 0) = False" using known unknown by blast
      let ?s1 = "with_held s k\<lparr>argIdxs := idx\<rparr>"
      have "path_store_check E path s = Inr (clean_oracle_decree resolved ?s1, FULL_MATCH_LEAF)"
        by (simp add: path_store_check_def ask kn run)
      moreover have "store_ok ?s1" using ok l by (simp add: store_ok_def)
      ultimately show ?thesis using False k unfolding if_not_P [OF unknown]
        by (intro exI [of _ "clean_oracle_decree resolved ?s1"]) simp
    next
      case True
      have free_of: "\<forall>decree. resolved = Some decree \<longrightarrow> (device decree, inode decree) \<notin> registered s"
        using unknown by (auto simp: registered_def)
      show ?thesis
      proof (rule first_half [OF ok t mem res ex True])
        fix k b idx s1
        assume s1: "s1 = with_held s k\<lparr>argIdxs := idx\<rparr>" "store_ok s1" and reads: "reads_path b idx ?ts"
          and k: "inode_readers k = inode_readers (it_held (ps_iter s))"
            "objects k = objects (it_held (ps_iter s)) + (if resolved = None then 0 else 1)"
          and "(\<forall>decree. resolved = Some decree \<longrightarrow> (device decree, inode decree) \<notin> registered s) \<Longrightarrow>
            path_store_check E path s = locked_check resolved b (length ?ts) s1"
        then have run: "path_store_check E path s = locked_check resolved b (length ?ts) s1" using free_of by blast
        have h: "\<not> rw_writer (store_lock s1)" "reads_path b (argIdxs s1) ?ts" "protected_paths s1 = protected_paths s"
          using free reads by (simp_all add: s1(1) protected_paths_def)
        show ?thesis unfolding if_not_P [OF unknown]
          by (rule exI [of _ "clean_oracle_decree resolved s1"])
            (use s1(2) k True run locked_check_classifies [OF s1(2) h(1,2)] in \<open>simp add: s1(1) protected_paths_def\<close>)
      qed
    qed
  qed
qed

section \<open>Setup gives the empty store\<close>

lemma single_root_ok:
  assumes "slab_addr_ok a"
  shows "heap_ok \<lparr>pt_heap = [a \<mapsto> init_store_entry\<lparr>se_dir_name := n\<rparr>], pt_root = a, pt_allocations = [a]\<rparr>"
    (is "heap_ok ?t")
proof -
  let ?h = "[a \<mapsto> init_store_entry\<lparr>se_dir_name := n\<rparr>]"
  have l: "link ?h b = (if b = a then Some (None, n) else None)" for b
    by (simp add: link_def init_store_entry_def)
  have k: "kids ?h b = []" for b by (simp add: kids_def init_store_entry_def)
  show ?thesis
  proof (rule heap_okI [OF refl refl refl, of _ n])
    show "\<exists>f. se_children_num e = count_word f (length (se_children e))" if "pt_heap ?t b = Some e" for b e
    proof -
      have "se_children_num e = count_word False (length (se_children e))"
        using that by (auto simp: init_store_entry_def count_word_False split: if_splits)
      then show ?thesis ..
    qed
    show "\<exists>ps. walk (pt_heap ?t) (pt_root ?t) ps = Some b" if "pt_heap ?t b = Some e" for b e
      using that by (intro exI [of _ "[]"]) (simp split: if_splits)
    show "slab_addr_ok b" if "pt_heap ?t b = Some e" for b e using that assms by (simp split: if_splits)
  qed (simp_all add: l k split: if_splits)
qed

lemma single_root_contents:
  assumes t: "t = \<lparr>pt_heap = [a \<mapsto> init_store_entry\<lparr>se_dir_name := n\<rparr>], pt_root = a, pt_allocations = [a]\<rparr>"
  shows "explicit_paths t = {}" and "pruned t"
proof -
  have "\<not> marked (pt_heap t) b" for b by (simp add: t marked_def explicited_def init_store_entry_def)
  then show "explicit_paths t = {}" by (simp add: explicit_paths_def)
  show "pruned t" by (auto simp: t pruned_but_def)
qed

text \<open>The zeroed image of the module's data, before setup.\<close>

definition module_image :: "path_tree \<Rightarrow> path_store" where
  "module_image t = \<lparr>ps_tree = t, argIdxs = replicate ARGS_SIZE 0, store_lock = rw_init,
     ps_iter = \<lparr>it_inodes = \<lparr>fs_stores = [], nonce = 0, clock = 0\<rparr>, it_held = no_held\<rparr>, refresh_works = 0\<rparr>"

lemma setup_ok:
  assumes "setup_path_store True True True slab (module_image t) = Some s" and "slab_sound slab"
  shows "store_ok s \<and> protected_paths s = {} \<and> rw_free (store_lock s) \<and>
    fs_stores (it_inodes (ps_iter s)) = [] \<and> length (pt_allocations (ps_tree s)) = 1 \<and>
    nonce (it_inodes (ps_iter s)) = 0 \<and> it_held (ps_iter s) = no_held"
proof -
  obtain root where r: "slab [] = Some root" and s: "s = (module_image t)\<lparr>store_lock := rw_init,
      ps_tree := \<lparr>pt_heap = [root \<mapsto> init_store_entry\<lparr>se_dir_name := [SLASH]\<rparr>],
                  pt_root = root, pt_allocations = [root]\<rparr>\<rparr>"
    using assms(1) by (auto simp: setup_path_store_def setup_inode_store_def Let_def split: option.splits)
  have "slab_addr_ok root" using r assms(2) by (auto simp: slab_sound_def)
  note H = single_root_ok [OF this, of "[SLASH]"]
  note C = single_root_contents [OF refl, of root "[SLASH]"]
  show ?thesis using H C
    by (simp add: s module_image_def store_ok_def protected_paths_def ARGS_SIZE_def registry_ok_def
      stamps_le_def node_of_def)
qed

text \<open>Removing a path that is not resolved, behind the lock.\<close>

lemma locked_rm_unresolved:
  assumes ok: "store_ok s" and free: "rw_free (store_lock s)" and reads: "reads_path b (argIdxs s) us"
    and now: "nonce (it_inodes (ps_iter s)) \<noteq> ULLONG_MAX"
  shows "\<exists>s'. locked_rm E None b (length us) s = Inr (s', if us \<in> protected_paths s then 0 else 1) \<and>
    store_ok s' \<and> rw_free (store_lock s') \<and> protected_paths s' = protected_paths s - {us} \<and>
    argIdxs s' = argIdxs s \<and> ps_iter s' = ps_iter s"
proof -
  obtain tr where tr: "heap_ok tr" "pruned tr" "explicit_paths tr = protected_paths s - {us}"
    and run: "locked_rm E None b (length us) s =
      (let s2 = s\<lparr>store_lock := (store_lock s)\<lparr>rw_writer := True\<rparr>\<rparr> in
       if us \<notin> protected_paths s then Inr (clean_oracle_decree None s, 1)
       else
         bind_out (Inr (ps_iter s2)) (\<lambda>it.
         bind_out (unlock_or_refresh E (s2\<lparr>ps_iter := it, ps_tree := tr\<rparr>)) (\<lambda>s.
           Inr (clean_oracle_decree None s, 0))))"
    using locked_rm_prunes [OF ok free reads, of E None, unfolded option.case] by (elim exE conjE) (rule that)
  let ?s2 = "s\<lparr>store_lock := up_write ((store_lock s)\<lparr>rw_writer := True\<rparr>), ps_tree := tr\<rparr>"
  show ?thesis
  proof (cases "us \<in> protected_paths s")
    case True
    with run now have "locked_rm E None b (length us) s = Inr (?s2, 0)"
      by (simp add: Let_def unlock_or_refresh_def clean_oracle_decree_def)
    moreover have "store_ok ?s2" "rw_free (store_lock ?s2)" "protected_paths ?s2 = protected_paths s - {us}"
      using tr ok free by (simp_all add: store_ok_def protected_paths_def up_write_def rw_free_def)
    ultimately show ?thesis using True by (intro exI [of _ ?s2]) simp
  next
    case False
    with run ok free show ?thesis by (intro exI [of _ s]) (simp add: clean_oracle_decree_def)
  qed
qed

lemma rm_unresolved:
  assumes ok: "store_ok s" and free: "rw_free (store_lock s)" and t: "terminated path"
    and mem: "\<forall>n. kmem E n \<noteq> None" and res: "resolve (file_system E) (c_str path) = None"
    and acc: "path_accepted (c_str path)" and now: "nonce (it_inodes (ps_iter s)) \<noteq> ULLONG_MAX"
  shows "\<exists>s'. path_store_rm E path s =
      Inr (s', if path_components (c_str path) \<in> protected_paths s then 0 else 1) \<and>
    store_ok s' \<and> rw_free (store_lock s') \<and>
    protected_paths s' = protected_paths s - {path_components (c_str path)} \<and>
    present (ps_tree s') = insert [] {ps. \<exists>qs. ps @ qs \<in> protected_paths s'} \<and>
    it_inodes (ps_iter s') = it_inodes (ps_iter s)"
proof -
  let ?ts = "path_components (c_str path)"
  have "kmem E (kclock (it_held (ps_iter s))) \<noteq> None" using mem by blast
  then show ?thesis
  proof (rule first_half [OF ok t _ res _ acc, unfolded option.case, OF _ refl])
    fix k b idx s1
    assume s1: "s1 = with_held s k\<lparr>argIdxs := idx\<rparr>" and ok1: "store_ok s1" and reads: "reads_path b idx ?ts"
      and run: "path_store_rm E path s = locked_rm E None b (length ?ts) s1"
    have h: "rw_free (store_lock s1)" "reads_path b (argIdxs s1) ?ts"
      "nonce (it_inodes (ps_iter s1)) \<noteq> ULLONG_MAX" "protected_paths s1 = protected_paths s"
      "it_inodes (ps_iter s1) = it_inodes (ps_iter s)"
      using free reads now by (simp_all add: s1 protected_paths_def)
    obtain s' where s': "locked_rm E None b (length ?ts) s1 = Inr (s', if ?ts \<in> protected_paths s then 0 else 1)"
      "store_ok s'" "rw_free (store_lock s')" "protected_paths s' = protected_paths s - {?ts}" "ps_iter s' = ps_iter s1"
      using locked_rm_unresolved [OF ok1 h(1-3), of E] unfolding h(4) by blast
    have "heap_ok (ps_tree s')" "pruned (ps_tree s')" using s'(2) by (simp_all add: store_ok_def)
    with s' run h(5) pruned_present [of "ps_tree s'"] show ?thesis
      by (intro exI [of _ s']) (simp add: protected_paths_def)
  qed
qed

section \<open>A slab and a machine to run on\<close>

text \<open>The first free one of \<open>n\<close> aligned addresses.\<close>

definition wide_slab :: "nat \<Rightarrow> addr list \<Rightarrow> addr option" where
  "wide_slab n used = List.find (\<lambda>a. a \<notin> set used) (map (\<lambda>k. 2048 * k) [1..<Suc n])"

lemma wide_slab_sound:
  assumes "n < 2 ^ 53"
  shows "slab_sound (wide_slab n)"
  using assms by (auto simp: slab_sound_def slab_addr_ok_def wide_slab_def find_Some_iff simp del: upt_Suc)

lemma wide_slab_roomy: "slab_roomy n (wide_slab n)"
  unfolding slab_roomy_def
proof (intro allI impI notI)
  fix used :: "addr list"
  assume l: "length used < n" and "wide_slab n used = None"
  then have "(\<lambda>k. 2048 * k) ` {1..<Suc n} \<subseteq> set used"
    by (auto simp: wide_slab_def find_None_iff simp del: upt_Suc)
  then have "card ((\<lambda>k. 2048 * k) ` {1..<Suc n}) \<le> card (set used)" by (intro card_mono) auto
  moreover have "card ((\<lambda>k. 2048 * k) ` {1..<Suc n}) = card {1..<Suc n}" by (intro card_image) (auto simp: inj_on_def)
  ultimately show False using card_length [of used] l by simp
qed

definition demo_slab :: "addr list \<Rightarrow> addr option" where
  "demo_slab = wide_slab 1000"

lemma demo_slab_sound: "slab_sound demo_slab"
  by (simp add: demo_slab_def wide_slab_sound)

lemma demo_slab_roomy: "n \<le> 1000 \<Longrightarrow> slab_roomy n demo_slab"
  using wide_slab_roomy [of 1000] by (auto simp: demo_slab_def slab_roomy_def)

definition demo_env :: env where
  "demo_env = \<lparr>dir_cache = demo_slab, ino_cache = zero_memory, kmem = zero_memory,
     file_system = demo_dir_fs, walk_fuel = 6, module_live = True\<rparr>"

definition demo_store :: path_store where
  "demo_store = the (setup_path_store True True True demo_slab (module_image
     \<lparr>pt_heap = Map.empty, pt_root = 0, pt_allocations = []\<rparr>))"

lemma demo_setup: "setup_path_store True True True demo_slab (module_image
     \<lparr>pt_heap = Map.empty, pt_root = 0, pt_allocations = []\<rparr>) = Some demo_store"
proof -
  have "demo_slab [] \<noteq> None" using demo_slab_roomy [of 1] by (simp add: slab_roomy_def)
  then show ?thesis
    by (auto simp: demo_store_def setup_path_store_def setup_inode_store_def Let_def)
qed

lemmas demo_store_ok = setup_ok [OF demo_setup demo_slab_sound]

lemma demo_nonce: "nonce (it_inodes (ps_iter demo_store)) = 0" "it_held (ps_iter demo_store) = no_held"
  using demo_store_ok by simp_all

lemma demo_slab_ready: "k \<le> 999 \<Longrightarrow> slab_ready demo_env k demo_store"
  using demo_store_ok demo_slab_sound demo_slab_roomy [of "Suc k"]
  by (simp add: slab_ready_def demo_env_def)

text \<open>A walk below a dentry without children that is no link: it needs memory and fuel for two rounds.\<close>

lemma leaf_walk_ready:
  assumes "next_dentries (file_system E) d = []" and "walkable (file_system E) d" and "2 \<le> walk_fuel E"
    and "\<forall>n. ino_cache E n \<noteq> None" and "\<forall>n. kmem E n \<noteq> None"
  shows "walk_ready E d"
proof -
  have r: "reach (next_dentries (file_system E)) d = {d}"
    using reach_subset [of d "{d}" "next_dentries (file_system E)"] reach_refl [of d "next_dentries (file_system E)"]
      assms(1) by auto
  show ?thesis unfolding walk_ready_def Let_def r using assms(2-5) by simp
qed

lemma demo_walk_ready: "walk_ready demo_env 1"
  by (rule leaf_walk_ready)
    (simp_all add: next_dentries_def walkable_def key_of_def demo_dir_fs_def narrow_def demo_env_def zero_memory_def)

text \<open>The paths of the examples: one that the file system resolves, and two that it does not.\<close>

abbreviation path_d :: "char list" where "path_d \<equiv> ''/d'' @ [NUL]"
abbreviation path_x :: "char list" where "path_x \<equiv> ''/x'' @ [NUL]"
abbreviation path_gap :: "char list" where "path_gap \<equiv> ''/x//y'' @ [NUL]"

lemma demo_resolve:
  "resolve (file_system demo_env) (c_str path_d) =
     Some \<lparr>decree_path = ''/d'', device = 8, inode = 1, dentry_of = 1\<rparr>"
  "resolve (file_system demo_env) (c_str path_x) = None"
  "resolve (file_system demo_env) (c_str path_gap) = None"
proof -
  have c: "c_str path_d = ''/d''" "c_str path_x = ''/x''" "c_str path_gap = ''/x//y''" by code_simp+
  show "resolve (file_system demo_env) (c_str path_d) =
     Some \<lparr>decree_path = ''/d'', device = 8, inode = 1, dentry_of = 1\<rparr>"
    "resolve (file_system demo_env) (c_str path_x) = None"
    "resolve (file_system demo_env) (c_str path_gap) = None"
    unfolding c by (simp_all add: resolve_def demo_env_def demo_dir_fs_def)
qed

lemma demo_paths:
  "c_str path_d = ''/d''" "c_str path_x = ''/x''" "c_str path_gap = ''/x//y''"
  "path_components ''/d'' = [''d'']" "path_components ''/x'' = [''x'']"
  "path_components ''/x//y'' = [''x'', [], ''y'']"
  "storable ''/d''" "storable ''/x''" "path_accepted ''/x//y''"
  "terminated path_d" "terminated path_x" "terminated path_gap"
  by code_simp+

lemma demo_mem: "kmem demo_env n \<noteq> None"
  by (simp add: demo_env_def zero_memory_def)

section \<open>Properties\<close>

text \<open>
  C2. Adding a path that the kernel resolves refines insertion into the set of protected paths: the
  canonical path is added and no other one changes, every inode below it is found by
  \<open>check_inode\<close> and the answer for all others stays, the lock is free again, and inode locks and memory are given back.
\<close>

theorem path_store_add_protects:
  assumes "store_ok s" and "rw_free (store_lock s)" and "terminated path"
    and "resolve (file_system E) (c_str path) = Some decree"
    and "storable (decree_path decree)" and "NUL \<notin> set (decree_path decree)"
    and "slab_ready E (length (path_components (decree_path decree))) s"
    and "walk_ready E (dentry_of decree)"
    and "nonce (it_inodes (ps_iter s)) \<noteq> ULLONG_MAX"
    and "nonce (it_inodes (ps_iter s)) + 1 \<noteq> ULLONG_MAX"
  shows "\<exists>s'. path_store_add E path s = Inr (s', 0) \<and> store_ok s' \<and> rw_free (store_lock s') \<and>
    protected_paths s' = insert (path_components (decree_path decree)) (protected_paths s) \<and>
    (\<forall>dev ino. check_inode dev ino (it_inodes (ps_iter s')) =
      (if (dev, ino) \<in> key_of (file_system E) ` reach (next_dentries (file_system E)) (dentry_of decree)
       then 1 else check_inode dev ino (it_inodes (ps_iter s)))) \<and>
    inode_readers (it_held (ps_iter s')) = inode_readers (it_held (ps_iter s)) \<and>
    objects (it_held (ps_iter s')) = objects (it_held (ps_iter s))"
proof -
  obtain s' where s': "path_store_add E path s = Inr (s', 0)" "store_ok s'" "rw_free (store_lock s')"
    "protected_paths s' = insert (path_components (decree_path decree)) (protected_paths s)"
    "registered s' = registered s \<union>
      key_of (file_system E) ` reach (next_dentries (file_system E)) (dentry_of decree)"
    "inode_readers (it_held (ps_iter s')) = inode_readers (it_held (ps_iter s))"
    "objects (it_held (ps_iter s')) = objects (it_held (ps_iter s))"
    using add_resolved [OF assms] by blast
  have "check_inode dev ino (it_inodes (ps_iter s')) =
      (if (dev, ino) \<in> key_of (file_system E) ` reach (next_dentries (file_system E)) (dentry_of decree)
       then 1 else check_inode dev ino (it_inodes (ps_iter s)))" for dev ino
    using check_inode_registered [OF s'(2)] check_inode_registered [OF assms(1)] s'(5) by simp
  with s' show ?thesis by (intro exI [of _ s'] conjI allI)
qed

theorem path_store_add_protects_witness:
  "\<exists>s'. path_store_add demo_env path_d demo_store = Inr (s', 0) \<and> protected_paths s' = {[''d'']} \<and>
     rw_free (store_lock s')"
proof -
  have "\<exists>s'. path_store_add demo_env path_d demo_store = Inr (s', 0) \<and> store_ok s' \<and>
    rw_free (store_lock s') \<and> protected_paths s' = insert (path_components ''/d'') (protected_paths demo_store)"
    using path_store_add_protects [OF _ _ demo_paths(10) demo_resolve(1)] demo_store_ok demo_paths(7)
      demo_slab_ready demo_walk_ready by (fastforce simp: demo_paths(4) demo_nonce ULLONG_MAX_def)
  then show ?thesis using demo_store_ok by (auto simp: demo_paths(4))
qed

text \<open>
  C18. Adding a path that the kernel cannot resolve succeeds and protects it, but returns with the
  \<open>store_lock\<close> held for writing: every later call that gets as far as the lock, on any path the
  kernel does not resolve, waits for ever.
\<close>

theorem path_store_add_unresolved_keeps_lock:
  assumes "store_ok s" and "rw_free (store_lock s)" and "terminated path"
    and "\<forall>n. kmem E n \<noteq> None" and "resolve (file_system E) (c_str path) = None"
    and "storable (c_str path)" and "slab_ready E (length (path_components (c_str path))) s"
  shows "\<exists>s'. path_store_add E path s = Inr (s', 0) \<and> store_ok s' \<and> rw_writer (store_lock s') \<and>
    protected_paths s' = insert (path_components (c_str path)) (protected_paths s) \<and>
    (\<forall>p. terminated p \<longrightarrow> resolve (file_system E) (c_str p) = None \<longrightarrow> path_accepted (c_str p) \<longrightarrow>
       path_store_add E p s' = Inl Blocked \<and> path_store_rm E p s' = Inl Blocked \<and>
       path_store_check E p s' = Inl Blocked)"
proof -
  obtain s' where s': "path_store_add E path s = Inr (s', 0)" "store_ok s'" "rw_writer (store_lock s')"
    "protected_paths s' = insert (path_components (c_str path)) (protected_paths s)"
    using add_unresolved [OF assms(1-3) _ assms(5-7)] assms(4) by blast
  with writer_blocks [OF s'(2,3), of _ E] assms(4) show ?thesis by (intro exI [of _ s']) simp
qed

theorem path_store_add_unresolved_keeps_lock_witness:
  "\<exists>s'. path_store_add demo_env path_x demo_store = Inr (s', 0) \<and> protected_paths s' = {[''x'']} \<and>
     path_store_check demo_env path_x s' = Inl Blocked"
proof -
  have a: "path_accepted ''/x''" using demo_paths(8) by (simp add: storable_def)
  have m: "\<forall>n. kmem demo_env n \<noteq> None" using demo_mem by blast
  have st: "storable (c_str path_x)" unfolding demo_paths(2) by (rule demo_paths(8))
  have sl: "slab_ready demo_env (length (path_components (c_str path_x))) demo_store"
    unfolding demo_paths(2,5) by (rule demo_slab_ready) simp
  from path_store_add_unresolved_keeps_lock [OF _ _ demo_paths(11) m demo_resolve(2) st sl]
    demo_store_ok obtain s' where "path_store_add demo_env path_x demo_store = Inr (s', 0)"
    "protected_paths s' = insert (path_components (c_str path_x)) (protected_paths demo_store)"
    and c: "\<forall>p. terminated p \<longrightarrow> resolve (file_system demo_env) (c_str p) = None \<longrightarrow>
      path_accepted (c_str p) \<longrightarrow> path_store_add demo_env p s' = Inl Blocked \<and>
       path_store_rm demo_env p s' = Inl Blocked \<and> path_store_check demo_env p s' = Inl Blocked" by blast
  moreover have "path_store_check demo_env path_x s' = Inl Blocked"
    using c demo_paths(11) demo_resolve(2) a by (simp only: demo_paths(2) simp_thms)
  ultimately show ?thesis using demo_store_ok by (simp only: demo_paths(2,5)) auto
qed



text \<open>
  A path with an empty component (two slashes in a row) that the kernel cannot resolve is refused,
  but only after the lock is taken: the call returns 1 with the \<open>store_lock\<close> held for writing.
  The protected paths stay the same.
\<close>

theorem path_store_add_empty_component:
  assumes ok: "store_ok s" and free: "rw_free (store_lock s)" and t: "terminated path"
    and mem: "\<forall>n. kmem E n \<noteq> None" and res: "resolve (file_system E) (c_str path) = None"
    and acc: "path_accepted (c_str path)" and gap: "[] \<in> set (path_components (c_str path))"
    and short: "\<forall>w \<in> set (path_components (c_str path)). length w < DIR_NAME_SIZE"
    and slab: "slab_ready E (length (path_components (c_str path))) s"
  shows "\<exists>s'. path_store_add E path s = Inr (s', 1) \<and> rw_writer (store_lock s') \<and>
    protected_paths s' = protected_paths s"
proof -
  let ?ts = "path_components (c_str path)" and ?tr = "ps_tree s"
  have m: "kmem E (kclock (it_held (ps_iter s))) \<noteq> None" using mem by blast
  have hok: "heap_ok ?tr" and pr: "pruned ?tr" using ok by (simp_all add: store_ok_def)
  obtain k b idx where reads: "reads_path b idx ?ts"
    and run: "path_store_add E path s = locked_add E None b (length ?ts) (with_held s k\<lparr>argIdxs := idx\<rparr>)"
    by (rule first_half [OF ok t m res _ acc, unfolded option.case, OF refl]) (rule that, simp_all)
  have few: "length ?ts \<le> ARGS_SIZE" and toks: "holds_tokens b idx ?ts" using reads by (simp_all add: reads_path_def)
  obtain cur d where search: "path_search_loop (pt_heap ?tr) b idx (length ?ts) (pt_root ?tr) 0 = Inr (cur, d)"
    and stop: "stops_at ?tr ?ts cur d" by (rule reads_search [OF hok reads])
  have prb: "pruned_but {cur} ?tr" using pr by (auto simp: pruned_but_def)
  have slab': "slab_sound (dir_cache E)"
    "slab_roomy (length (pt_allocations ?tr) + length ?ts) (dir_cache E)" using slab by (simp_all add: slab_ready_def)
  have rounds: "length ?ts - d < ADD_ROUNDS" using few by (simp add: ADD_ROUNDS_def ARGS_SIZE_def)
  have room: "length (pt_allocations ?tr) + (length ?ts - d) \<le> length (pt_allocations ?tr) + length ?ts" by simp
  obtain a t' where g: "grown ?tr (takeWhile (\<lambda>w. w \<noteq> []) ?ts) a t'" and
    loop: "add_loop ADD_ROUNDS (dir_cache E) b idx (length ?ts) (pt_root ?tr) 0 ?tr = Inr (Inl t')"
    using add_loop_grows [OF slab'(1) toks short slab'(2) hok stop prb search room rounds] gap by auto
  have lock: "down_write (store_lock s) = Inr ((store_lock s)\<lparr>rw_writer := True\<rparr>)"
    using free by (simp add: lock_rules)
  have "path_store_add E path s = Inr (with_held s k\<lparr>argIdxs := idx,
      store_lock := (store_lock s)\<lparr>rw_writer := True\<rparr>, ps_tree := t'\<rparr>, 1)"
    by (simp add: run locked_add_def lock Let_def loop clean_oracle_decree_def)
  with g show ?thesis by (simp add: protected_paths_def grown_def)
qed

theorem path_store_add_empty_component_witness:
  "\<exists>s'. path_store_add demo_env path_gap demo_store = Inr (s', 1) \<and> rw_writer (store_lock s') \<and>
     protected_paths s' = {}"
proof -
  have m: "\<forall>n. kmem demo_env n \<noteq> None" using demo_mem by blast
  have sl: "slab_ready demo_env (length (path_components (c_str path_gap))) demo_store"
    unfolding demo_paths(3,6) by (rule demo_slab_ready) simp
  have a: "path_accepted (c_str path_gap)" unfolding demo_paths(3) by (rule demo_paths(9))
  have g: "[] \<in> set (path_components (c_str path_gap))"
    "\<forall>w \<in> set (path_components (c_str path_gap)). length w < DIR_NAME_SIZE"
    unfolding demo_paths(3,6) by (simp_all add: DIR_NAME_SIZE_def)
  from path_store_add_empty_component [OF _ _ demo_paths(12) m demo_resolve(3) a g sl] demo_store_ok
  show ?thesis by simp
qed

text \<open>
  C25. Adding a resolved path with the last nonce but one leaves the lock held: the work item that is
  scheduled instead of the unlock renews the stamps but does not release it.
\<close>

theorem last_nonce_keeps_lock:
  assumes ok: "store_ok s" and free: "rw_free (store_lock s)" and t: "terminated path"
    and res: "resolve (file_system E) (c_str path) = Some decree"
    and st: "storable (decree_path decree)" and nul: "NUL \<notin> set (decree_path decree)"
    and slab: "slab_ready E (length (path_components (decree_path decree))) s"
    and ready: "walk_ready E (dentry_of decree)"
    and now: "nonce (it_inodes (ps_iter s)) + 1 = ULLONG_MAX" and live: "module_live E"
  shows "\<exists>s'. path_store_add E path s = Inr (s', 0) \<and> refresh_works s' = Suc (refresh_works s) \<and>
    rw_writer (store_lock (run_refresh_work s')) \<and> nonce (it_inodes (ps_iter (run_refresh_work s'))) = 0"
proof -
  have mem: "\<forall>n. kmem E n \<noteq> None" using ready by (simp add: walk_ready_def Let_def)
  then have mem1: "kmem E (kclock (it_held (ps_iter s))) \<noteq> None" by blast
  have ex: "decree_path decree @ [NUL] = (case Some decree of None \<Rightarrow> path | Some decree \<Rightarrow> decree_path decree @ [NUL])"
    by simp
  obtain k idx tr where run: "path_store_add E path s =
      (let s1 = with_held s k\<lparr>argIdxs := idx, store_lock := (store_lock s)\<lparr>rw_writer := True\<rparr>, ps_tree := tr\<rparr> in
       case Some decree of None \<Rightarrow> Inr (s1, 0)
       | Some d \<Rightarrow>
           bind_out (store_iterate_add (walk_fuel E) (ino_cache E) (kmem E) (file_system E)
                 (dentry_of d) (next_nonce s1)) (\<lambda>it.
           bind_out (unlock_or_refresh E (s1\<lparr>ps_iter := it\<rparr>)) (\<lambda>s.
             Inr (clean_oracle_decree (Some decree) s, 0))))"
    using add_until_tail [OF ok free t mem1 res ex, unfolded c_str_decree [OF nul], OF st slab] by metis
  let ?s1 = "with_held s k\<lparr>argIdxs := idx, store_lock := (store_lock s)\<lparr>rw_writer := True\<rparr>, ps_tree := tr\<rparr>"
  have i1: "it_inodes (ps_iter ?s1) = it_inodes (ps_iter s)" by simp
  have ne: "nonce (it_inodes (ps_iter s)) \<noteq> ULLONG_MAX" using now by (auto simp: ULLONG_MAX_def)
  have reg: "registry_ok (it_inodes (ps_iter ?s1))" "stamps_le (it_inodes (ps_iter ?s1))"
    "nonce (it_inodes (ps_iter ?s1)) \<noteq> ULLONG_MAX" using ok ne unfolding i1 by (simp_all add: store_ok_def)
  show ?thesis
  proof (rule add_walk [OF ready reg])
    fix it
    assume it: "store_iterate_add (walk_fuel E) (ino_cache E) (kmem E) (file_system E) (dentry_of decree) (next_nonce ?s1) = Inr it"
      and n: "nonce (it_inodes it) = nonce (it_inodes (ps_iter ?s1)) + 1"
    then have n': "nonce (it_inodes it) = ULLONG_MAX" using now by simp
    let ?s2 = "?s1\<lparr>ps_iter := it\<lparr>it_held := fst (kmalloc (kmem E) (it_held it))\<rparr>, refresh_works := Suc (refresh_works s)\<rparr>"
    have "refresh_works (with_held s k) = refresh_works s" by (simp add: with_held_def)
    then have "unlock_or_refresh E (?s1\<lparr>ps_iter := it\<rparr>) = Inr ?s2"
      using live n' by (simp add: unlock_or_refresh_def kmalloc_full [OF mem])
    then have "path_store_add E path s = Inr (clean_oracle_decree (Some decree) ?s2, 0)"
      using run it by (simp add: Let_def)
    then show ?thesis
      by (simp add: clean_oracle_decree_def run_refresh_work_def refresh_nonces_def)
  qed
qed

text \<open>The store of the examples after very many passes.\<close>

definition old_store :: path_store where
  "old_store = demo_store\<lparr>ps_iter := \<lparr>it_inodes = \<lparr>fs_stores = [], nonce = - 2, clock = 0\<rparr>, it_held = no_held\<rparr>\<rparr>"

theorem last_nonce_keeps_lock_witness:
  "\<exists>s'. path_store_add demo_env path_d old_store = Inr (s', 0) \<and>
     rw_writer (store_lock (run_refresh_work s'))"
proof -
  have ok: "store_ok old_store" using demo_store_ok
    by (auto simp: store_ok_def old_store_def registry_ok_def stamps_le_def node_of_def)
  have f: "rw_free (store_lock old_store)" using demo_store_ok by (simp add: old_store_def)
  have sl: "slab_ready demo_env (length (path_components ''/d'')) old_store"
    using demo_slab_ready [of 1] by (simp add: old_store_def slab_ready_def demo_paths(4))
  have n: "nonce (it_inodes (ps_iter old_store)) + 1 = ULLONG_MAX" by (simp add: old_store_def ULLONG_MAX_def)
  from last_nonce_keeps_lock [OF ok f demo_paths(10) demo_resolve(1)] demo_paths(7) sl demo_walk_ready n
  show ?thesis by (fastforce simp: demo_env_def)
qed



text \<open>
  C3. Removing a path that the kernel no longer resolves refines deletion from the set of protected
  paths: the result is 0 exactly when it was protected, every entry no protected path needs is freed,
  the registry of inodes is left alone, and the lock is free again.
\<close>

theorem path_store_rm_unprotects:
  assumes ok: "store_ok s" and free: "rw_free (store_lock s)" and t: "terminated path"
    and mem: "\<forall>n. kmem E n \<noteq> None" and res: "resolve (file_system E) (c_str path) = None"
    and acc: "path_accepted (c_str path)" and now: "nonce (it_inodes (ps_iter s)) \<noteq> ULLONG_MAX"
  shows "\<exists>s'. path_store_rm E path s =
      Inr (s', if path_components (c_str path) \<in> protected_paths s then 0 else 1) \<and>
    store_ok s' \<and> rw_free (store_lock s') \<and>
    protected_paths s' = protected_paths s - {path_components (c_str path)} \<and>
    present (ps_tree s') = insert [] {ps. \<exists>qs. ps @ qs \<in> protected_paths s'} \<and>
    it_inodes (ps_iter s') = it_inodes (ps_iter s)"
  using assms by (rule rm_unresolved)

text \<open>The machine of the examples once /d is gone, and the store with the file /d protected.\<close>

definition empty_fs :: vfs where
  "empty_fs = demo_dir_fs\<lparr>kern_path := (\<lambda>p follow. None)\<rparr>"

definition gone_env :: env where
  "gone_env = demo_env\<lparr>file_system := empty_fs\<rparr>"

lemma gone_resolve: "resolve (file_system gone_env) p = None" "kmem gone_env n \<noteq> None"
  by (simp_all add: resolve_def gone_env_def empty_fs_def demo_env_def zero_memory_def)

definition full_registry :: inode_store where
  "full_registry = \<lparr>fs_stores = [\<lparr>numbers = 8,
     inodes = (replicate HASH_TABLE_SIZE [])[1 := [\<lparr>num = 1, refCount = 1, stamp = 1\<rparr>]]\<rparr>],
     nonce = 1, clock = 2\<rparr>"

definition full_store :: path_store where
  "full_store = (case path_store_add gone_env path_d demo_store of Inl f \<Rightarrow> demo_store | Inr r \<Rightarrow> fst r)
     \<lparr>store_lock := rw_init, ps_iter := \<lparr>it_inodes = full_registry, it_held = no_held\<rparr>\<rparr>"

lemma full_registry_node:
  "node_of full_registry k = (if k = (8, 1) then Some \<lparr>num = 1, refCount = 1, stamp = 1\<rparr> else None)"
proof -
  have r: "(replicate HASH_TABLE_SIZE [])[1 := [\<lparr>num = 1, refCount = 1, stamp = 1\<rparr>]] ! hash_index j =
    (if hash_index j = 1 then [\<lparr>num = 1, refCount = 1, stamp = 1\<rparr>] else [])" for j
  proof -
    have "1 < HASH_TABLE_SIZE" by (simp add: HASH_TABLE_SIZE_def)
    then show ?thesis by (auto simp: nth_list_update)
  qed
  show ?thesis
  proof (cases k)
    case (Pair t j)
    have h: "hash_index 1 = 1" by (simp add: hash_index_def HASH_TABLE_SIZE_def)
    have "(inodes \<lparr>numbers = 8, inodes = (replicate HASH_TABLE_SIZE [])[1 := [\<lparr>num = 1, refCount = 1, stamp = 1\<rparr>]]\<rparr>) !
      hash_index j = (if hash_index j = 1 then [\<lparr>num = 1, refCount = 1, stamp = 1\<rparr>] else [])"
      by (simp only: store_fs.select_convs r)
    then show ?thesis unfolding Pair node_of_def full_registry_def using h by auto
  qed
qed

lemma full_store_ok:
  "store_ok full_store \<and> rw_free (store_lock full_store) \<and> protected_paths full_store = {[''d'']} \<and>
   nonce (it_inodes (ps_iter full_store)) = 1 \<and>
   node_of (it_inodes (ps_iter full_store)) (8, 1) = Some \<lparr>num = 1, refCount = 1, stamp = 1\<rparr>"
proof -
  have st: "storable (c_str path_d)" unfolding demo_paths(1) by (rule demo_paths(7))
  have sl: "slab_ready gone_env (length (path_components (c_str path_d))) demo_store"
    using demo_slab_ready [of 1] unfolding demo_paths(1,4) by (simp add: slab_ready_def gone_env_def)
  obtain s' where run: "path_store_add gone_env path_d demo_store = Inr (s', 0)" and ok: "store_ok s'"
    and p: "protected_paths s' = insert (path_components (c_str path_d)) (protected_paths demo_store)"
    using add_unresolved [OF _ _ demo_paths(10) gone_resolve(2) gone_resolve(1) st sl] demo_store_ok by blast
  have f: "full_store = s'\<lparr>store_lock := rw_init, ps_iter := \<lparr>it_inodes = full_registry, it_held = no_held\<rparr>\<rparr>"
    using run by (simp add: full_store_def)
  have "registry_ok full_registry" by code_simp
  moreover have "stamps_le full_registry"
    by (simp add: stamps_le_def full_registry_node) (simp add: full_registry_def)
  moreover have "nonce full_registry = 1" by (simp add: full_registry_def)
  ultimately show ?thesis using ok p demo_store_ok unfolding f demo_paths(1,4)
    by (simp add: store_ok_def protected_paths_def full_registry_node)
qed

theorem path_store_rm_unprotects_witness:
  "\<exists>s'. path_store_rm gone_env path_d full_store = Inr (s', 0) \<and> protected_paths s' = {} \<and>
     present (ps_tree s') = {[]}"
proof -
  have m: "\<forall>n. kmem gone_env n \<noteq> None" using gone_resolve by blast
  have a: "path_accepted (c_str path_d)" using demo_paths(7) unfolding demo_paths(1) by (simp add: storable_def)
  have n: "nonce (it_inodes (ps_iter full_store)) \<noteq> ULLONG_MAX" using full_store_ok by (simp add: ULLONG_MAX_def)
  from path_store_rm_unprotects [OF _ _ demo_paths(10) m gone_resolve(1) a n] full_store_ok
  show ?thesis unfolding demo_paths(1,4) by auto
qed

text \<open>
  C19. Removing a file that is still there refines deletion from the set of protected paths and counts
  its inode out: when the last count goes the inode is no longer found.
\<close>

theorem path_store_rm_unprotects_file:
  assumes ok: "store_ok s" and free: "rw_free (store_lock s)" and t: "terminated path"
    and mem: "\<forall>n. kmem E n \<noteq> None" and res: "resolve (file_system E) (c_str path) = Some decree"
    and nul: "NUL \<notin> set (decree_path decree)" and acc: "path_accepted (decree_path decree)"
    and prot: "path_components (decree_path decree) \<in> protected_paths s"
    and leaf: "d_inode (file_system E) (dentry_of decree) = Some key"
      "\<not> d_is_symlink (file_system E) (dentry_of decree)" "d_subdirs (file_system E) (dentry_of decree) = []"
    and node: "node_of (it_inodes (ps_iter s)) key = Some n" and fuel: "0 < walk_fuel E"
    and now: "nonce (it_inodes (ps_iter s)) \<noteq> ULLONG_MAX" "nonce (it_inodes (ps_iter s)) + 1 \<noteq> ULLONG_MAX"
  shows "\<exists>s'. path_store_rm E path s = Inr (s', 0) \<and> store_ok s' \<and> rw_free (store_lock s') \<and>
    protected_paths s' = protected_paths s - {path_components (decree_path decree)} \<and>
    check_inode (fst key) (snd key) (it_inodes (ps_iter s')) = (if refCount n = 1 then 0 else 1) \<and>
    inode_readers (it_held (ps_iter s')) = inode_readers (it_held (ps_iter s)) \<and>
    objects (it_held (ps_iter s')) = objects (it_held (ps_iter s))"
proof -
  let ?ts = "path_components (decree_path decree)"
  have m: "kmem E (kclock (it_held (ps_iter s))) \<noteq> None" using mem by blast
  from rm_until_tail [OF ok free t m res, of "decree_path decree @ [NUL]",
      unfolded option.case c_str_decree [OF nul], OF refl acc] obtain k idx tr where
    r: "length idx = ARGS_SIZE" "idx ! 0 \<le> 1" "heap_ok tr" "pruned tr"
      "explicit_paths tr = protected_paths s - {?ts}" "inode_readers k = inode_readers (it_held (ps_iter s))"
      "objects k = objects (it_held (ps_iter s)) + (if Some decree = None then 0 else 1)"
    and run: "path_store_rm E path s =
      (let s1 = with_held s k\<lparr>argIdxs := idx\<rparr>; s2 = s1\<lparr>store_lock := (store_lock s)\<lparr>rw_writer := True\<rparr>\<rparr> in
       if ?ts \<notin> protected_paths s then Inr (clean_oracle_decree (Some decree) s1, 1)
       else
         bind_out (store_iterate_rm (walk_fuel E) (kmem E) (file_system E)
                       (dentry_of decree) (next_nonce s2)) (\<lambda>it.
         bind_out (unlock_or_refresh E (s2\<lparr>ps_iter := it, ps_tree := tr\<rparr>)) (\<lambda>s.
           Inr (clean_oracle_decree (Some decree) s, 0))))"
    by (elim exE conjE) (rule that)
  let ?s2 = "with_held s k\<lparr>argIdxs := idx, store_lock := (store_lock s)\<lparr>rw_writer := True\<rparr>\<rparr>"
  let ?st = "next_nonce ?s2"
  have ino: "it_inodes ?st = (it_inodes (ps_iter s))\<lparr>nonce := nonce (it_inodes (ps_iter s)) + 1\<rparr>"
    and h: "it_held ?st = k" by (simp_all add: next_nonce_def)
  have reg: "registry_ok (it_inodes ?st)" using ok by (simp add: ino store_ok_def)
  have le0: "stamps_le (it_inodes (ps_iter s))" using ok by (simp add: store_ok_def)
  have le: "stamps_le (it_inodes ?st)"
    using le0 nonce_step [OF now(1)] by (simp add: ino stamps_le_def order.strict_implies_order del: split_paired_All)
  have node': "node_of (it_inodes ?st) key = Some n" using node by (simp add: ino)
  have fresh: "stamp n < nonce (it_inodes ?st)"
    using le0 node nonce_step [OF now(1)] by (simp add: ino stamps_le_def del: split_paired_All)
  from rm_file_walk [OF leaf reg le node' fuel, of "kmem E"] fresh obtain it where
    it: "store_iterate_rm (walk_fuel E) (kmem E) (file_system E) (dentry_of decree) ?st = Inr it"
      "registry_ok (it_inodes it)" "stamps_le (it_inodes it)" "nonce (it_inodes it) = nonce (it_inodes ?st)"
      "node_of (it_inodes it) = (node_of (it_inodes ?st))(key :=
       (if refCount n = 1 then None
        else Some (n\<lparr>refCount := refCount n - 1, stamp := nonce (it_inodes ?st)\<rparr>)))"
      "inode_readers (it_held it) = inode_readers (it_held ?st)" "objects (it_held it) = objects (it_held ?st)"
    by auto
  let ?s3 = "?s2\<lparr>ps_iter := it, ps_tree := tr, store_lock := up_write ((store_lock s)\<lparr>rw_writer := True\<rparr>)\<rparr>"
  have "nonce (it_inodes it) \<noteq> ULLONG_MAX" using it(4) now(2) unfolding ino by simp
  then have "unlock_or_refresh E (?s2\<lparr>ps_iter := it, ps_tree := tr\<rparr>) = Inr ?s3"
    by (simp add: unlock_or_refresh_def)
  then have "path_store_rm E path s = Inr (clean_oracle_decree (Some decree) ?s3, 0)"
    using run it(1) prot by (simp add: Let_def)
  moreover have "store_ok (clean_oracle_decree (Some decree) ?s3)"
    "rw_free (store_lock (clean_oracle_decree (Some decree) ?s3))"
    "protected_paths (clean_oracle_decree (Some decree) ?s3) = protected_paths s - {?ts}"
    using r it(2,3) free
    by (simp_all add: store_ok_def protected_paths_def up_write_def rw_free_def clean_oracle_decree_def)
  moreover have "check_inode (fst key) (snd key) (it_inodes it) = (if refCount n = 1 then 0 else 1)"
    using it(5) by (simp add: check_inode_iff [OF it(2)])
  moreover have "inode_readers (it_held (ps_iter (clean_oracle_decree (Some decree) ?s3))) =
      inode_readers (it_held (ps_iter s))"
    "objects (it_held (ps_iter (clean_oracle_decree (Some decree) ?s3))) = objects (it_held (ps_iter s))"
    "it_inodes (ps_iter (clean_oracle_decree (Some decree) ?s3)) = it_inodes it"
    using it(6,7) r h by (simp_all add: clean_oracle_decree_def kfree_def)
  ultimately show ?thesis by auto
qed

theorem path_store_rm_unprotects_file_witness:
  "\<exists>s'. path_store_rm demo_env path_d full_store = Inr (s', 0) \<and> protected_paths s' = {} \<and>
     check_inode 8 1 (it_inodes (ps_iter s')) = 0"
proof -
  have m: "\<forall>n. kmem demo_env n \<noteq> None" using demo_mem by blast
  have f: "d_inode (file_system demo_env) 1 = Some (8, 1)" "\<not> d_is_symlink (file_system demo_env) 1"
    "d_subdirs (file_system demo_env) 1 = []" "0 < walk_fuel demo_env"
    by (simp_all add: demo_env_def demo_dir_fs_def)
  have a: "path_accepted ''/d''" using demo_paths(7) by (simp add: storable_def)
  note F = full_store_ok
  have "\<exists>s'. path_store_rm demo_env path_d full_store = Inr (s', 0) \<and> store_ok s' \<and> rw_free (store_lock s') \<and>
    protected_paths s' = protected_paths full_store - {path_components ''/d''} \<and>
    check_inode (fst (8, 1)) (snd (8, 1)) (it_inodes (ps_iter s')) = 0"
    using path_store_rm_unprotects_file [OF _ _ demo_paths(10) m demo_resolve(1), of full_store "(8, 1)"]
      F f a by (auto simp: demo_paths(4) ULLONG_MAX_def)
  then show ?thesis using F by (auto simp: demo_paths(4))
qed



text \<open>
  C4. Checking a path: a resolved path whose inode is registered is \<open>MATCH_INODE\<close>; otherwise the
  answer is \<open>classify\<close> of the set of protected paths, how far the path goes along a protected
  one and whether a protected path goes on from there. A path that cannot be split is reported as
  \<open>FULL_MATCH_LEAF\<close>. Nothing the store promises changes, and the lock is given back.
\<close>

theorem path_store_check_classifies:
  assumes "store_ok s" and "\<not> rw_writer (store_lock s)" and "terminated path"
    and "kmem E (kclock (it_held (ps_iter s))) \<noteq> None"
    and "resolve (file_system E) (c_str path) = resolved"
    and "examined = (case resolved of None \<Rightarrow> path | Some decree \<Rightarrow> decree_path decree @ [NUL])"
  shows "\<exists>s'. path_store_check E path s = Inr (s',
      if \<exists>decree. resolved = Some decree \<and> node_of (it_inodes (ps_iter s)) (device decree, inode decree) \<noteq> None
      then MATCH_INODE
      else if path_accepted (c_str examined)
      then classify (protected_paths s) (path_components (c_str examined))
      else FULL_MATCH_LEAF) \<and>
    store_ok s' \<and> ps_tree s' = ps_tree s \<and> store_lock s' = store_lock s \<and>
    it_inodes (ps_iter s') = it_inodes (ps_iter s) \<and>
    inode_readers (it_held (ps_iter s')) = inode_readers (it_held (ps_iter s)) \<and>
    objects (it_held (ps_iter s')) = objects (it_held (ps_iter s))"
  using assms by (rule check_classifies)

lemma longest_one:
  assumes "P = {[w]}"
  shows "longest P [v] = (if v = w then 1 else 0)"
proof -
  have "{k. k \<le> length [v] \<and> (k = 0 \<or> (\<exists>qs. take k [v] @ qs \<in> P))} = (if v = w then {0, 1} else {0})"
    using assms by (auto simp: le_Suc_eq)
  then show ?thesis by (simp add: longest_def)
qed

theorem path_store_check_classifies_witness:
  "\<exists>s1 s2 s3. path_store_check demo_env path_d full_store = Inr (s1, MATCH_INODE) \<and>
     path_store_check gone_env path_d full_store = Inr (s2, FULL_MATCH_LEAF) \<and>
     path_store_check gone_env path_x full_store = Inr (s3, SUB_MATCH_DIR)"
proof -
  have w: "\<not> rw_writer (store_lock full_store)" using full_store_ok by (simp add: rw_free_def)
  have ok: "store_ok full_store" using full_store_ok by blast
  have a: "path_accepted ''/d''" "path_accepted ''/x''" using demo_paths(7,8) by (simp_all add: storable_def)
  have ld: "longest {[''d'']} [''d''] = 1" and lx: "longest {[''d'']} [''x''] = 0"
    using longest_one [OF refl, of "''d''"] by simp_all
  have cd: "classify {[''d'']} [''d''] = FULL_MATCH_LEAF" and cx: "classify {[''d'']} [''x''] = SUB_MATCH_DIR"
    by (simp_all add: classify_def ld lx Let_def)
  have n: "\<exists>decree. Some \<lparr>decree_path = ''/d'', device = 8, inode = 1, dentry_of = 1\<rparr> = Some decree \<and>
    node_of (it_inodes (ps_iter full_store)) (device decree, inode decree) \<noteq> None"
    using full_store_ok by simp
  obtain s1 where "path_store_check demo_env path_d full_store = Inr (s1, MATCH_INODE)"
    using path_store_check_classifies [OF ok w demo_paths(10) demo_mem demo_resolve(1) refl, unfolded if_P [OF n]]
    by blast
  moreover obtain s2 where "path_store_check gone_env path_d full_store = Inr (s2, FULL_MATCH_LEAF)"
    using path_store_check_classifies [OF ok w demo_paths(10) gone_resolve(2,1) refl] full_store_ok a cd
    unfolding option.case demo_paths(1,4) by auto
  moreover obtain s3 where "path_store_check gone_env path_x full_store = Inr (s3, SUB_MATCH_DIR)"
    using path_store_check_classifies [OF ok w demo_paths(11) gone_resolve(2,1) refl] full_store_ok a cx
    unfolding option.case demo_paths(2,5) by auto
  ultimately show ?thesis by blast
qed

text \<open>
  C26. What the check answers from the tree does not depend on the mark of an entry: while a path below a
  directory stays protected, a check whose own inode is registered in both states or in neither gives the
  same answer whether or not the directory itself is in the set. A path that is not resolved, or a new
  one below a directory that was protected before it was made, is thus treated as if the directory were
  not protected.
\<close>

theorem check_ignores_marked_directory:
  assumes "store_ok s" and "\<not> rw_writer (store_lock s)" and "store_ok s'" and "\<not> rw_writer (store_lock s')"
    and "terminated path" and "\<forall>n. kmem E n \<noteq> None"
    and "\<forall>decree. resolve (file_system E) (c_str path) = Some decree \<longrightarrow>
      check_inode (device decree) (inode decree) (it_inodes (ps_iter s')) =
      check_inode (device decree) (inode decree) (it_inodes (ps_iter s))"
    and "protected_paths s' = protected_paths s - {dir}" and "dir @ w # ws \<in> protected_paths s"
  shows "map_sum id snd (path_store_check E path s') = map_sum id snd (path_store_check E path s)"
proof -
  let ?P = "protected_paths s"
  have ext: "(\<exists>qs. ps @ qs \<in> ?P - {dir}) \<longleftrightarrow> (\<exists>qs. ps @ qs \<in> ?P)" for ps
  proof
    assume "\<exists>qs. ps @ qs \<in> ?P"
    then obtain qs where q: "ps @ qs \<in> ?P" by blast
    show "\<exists>qs. ps @ qs \<in> ?P - {dir}"
    proof (cases "ps @ qs = dir")
      case True
      then have "ps @ qs @ w # ws \<in> ?P - {dir}" using assms(9) by auto
      then show ?thesis by blast
    qed (use q in blast)
  qed blast
  have "(\<exists>q qs. ps @ q # qs \<in> ?P - {dir}) \<longleftrightarrow> (\<exists>q qs. ps @ q # qs \<in> ?P)" for ps
    using ext [of "ps @ [q]" for q] by simp
  with ext have c: "classify (?P - {dir}) cs = classify ?P cs" for cs
    by (simp add: classify_def longest_def)
  from assms(6) have m: "kmem E (kclock (it_held (ps_iter t))) \<noteq> None" for t by blast
  have ok: "registry_ok (it_inodes (ps_iter s))" "registry_ok (it_inodes (ps_iter s'))"
    using assms(1,3) by (simp_all add: store_ok_def)
  have same: "(node_of (it_inodes (ps_iter s')) (device decree, inode decree) \<noteq> None) =
      (node_of (it_inodes (ps_iter s)) (device decree, inode decree) \<noteq> None)"
    if "resolve (file_system E) (c_str path) = Some decree" for decree
    using assms(7) [rule_format, OF that] by (simp add: check_inode_iff ok split: if_split_asm)
  have n: "(\<exists>decree. resolve (file_system E) (c_str path) = Some decree \<and>
      node_of (it_inodes (ps_iter s')) (device decree, inode decree) \<noteq> None) =
    (\<exists>decree. resolve (file_system E) (c_str path) = Some decree \<and>
      node_of (it_inodes (ps_iter s)) (device decree, inode decree) \<noteq> None)"
    using same by blast
  obtain t r where t: "path_store_check E path s = Inr (t, r)"
    "r = (if \<exists>decree. resolve (file_system E) (c_str path) = Some decree \<and>
           node_of (it_inodes (ps_iter s)) (device decree, inode decree) \<noteq> None then MATCH_INODE
         else let cs = c_str (case resolve (file_system E) (c_str path) of None \<Rightarrow> path
             | Some decree \<Rightarrow> decree_path decree @ [NUL]) in
           if path_accepted cs then classify ?P (path_components cs) else FULL_MATCH_LEAF)"
    using check_classifies [OF assms(1,2,5) m refl refl] unfolding Let_def by blast
  obtain t' where "path_store_check E path s' = Inr (t', r)"
    using check_classifies [OF assms(3,4,5) m refl refl] unfolding t(2) Let_def n assms(8) c by blast
  with t(1) show ?thesis by simp
qed


abbreviation path_de :: "char list" where "path_de \<equiv> ''/d/e'' @ [NUL]"

lemma demo_path_de:
  "c_str path_de = ''/d/e''" "path_components ''/d/e'' = [''d'', ''e'']" "storable ''/d/e''" "terminated path_de"
  by code_simp+

lemma store_with:
  assumes "store_ok s" and "rw_free (store_lock s)" and "slab_ready gone_env 2 s"
  obtains s' where "store_ok s'" and "\<not> rw_writer (store_lock s')"
    and "protected_paths s' = insert [''d'', ''e''] (protected_paths s)"
    and "it_inodes (ps_iter s') = it_inodes (ps_iter s)"
proof -
  have st: "storable (c_str path_de)" unfolding demo_path_de(1) by (rule demo_path_de(3))
  have sl: "slab_ready gone_env (length (path_components (c_str path_de))) s"
    using assms(3) unfolding demo_path_de(1,2) by (simp add: numeral_2_eq_2)
  obtain s1 where "store_ok s1" and "protected_paths s1 = insert [''d'', ''e''] (protected_paths s)"
    and "it_inodes (ps_iter s1) = it_inodes (ps_iter s)"
    using add_unresolved [OF assms(1,2) demo_path_de(4) gone_resolve(2,1) st sl]
    unfolding demo_path_de(1,2) by blast
  then show thesis
    by (intro that [of "s1\<lparr>store_lock := rw_init\<rparr>"])
      (simp_all add: store_ok_def protected_paths_def rw_init_def)
qed

lemma full_store_tree:
  "length (pt_allocations (ps_tree full_store)) \<le> 400"
proof -
  have "present (ps_tree full_store) = insert [] {ps. \<exists>qs. ps @ qs \<in> {[''d'']}}"
    using pruned_present [of "ps_tree full_store"] full_store_ok by (simp add: store_ok_def protected_paths_def)
  also have "\<dots> \<subseteq> {[], [''d'']}" by (auto simp: append_eq_Cons_conv)
  finally have p: "present (ps_tree full_store) \<subseteq> {[], [''d'']}" .
  let ?t = "ps_tree full_store"
  have ok: "heap_ok ?t" using full_store_ok by (simp add: store_ok_def)
  have "set (pt_allocations ?t) \<subseteq> (the \<circ> walk (pt_heap ?t) (pt_root ?t)) ` present ?t"
  proof
    fix a assume "a \<in> set (pt_allocations ?t)"
    then obtain e where "pt_heap ?t a = Some e" using heap_okD(3) [OF ok] by auto
    then obtain ps where "walk (pt_heap ?t) (pt_root ?t) ps = Some a" using heap_okD(10) [OF ok] by blast
    then show "a \<in> (the \<circ> walk (pt_heap ?t) (pt_root ?t)) ` present ?t"
      by (force simp: present_def)
  qed
  then have "card (set (pt_allocations ?t)) \<le> card {[], [''d'']}"
    using p by (meson card_mono card_image_le finite.emptyI finite_insert finite_subset finite_imageI le_trans)
  also have "\<dots> \<le> 400" by simp
  finally show ?thesis using distinct_card [OF heap_okD(4) [OF ok]] by simp
qed

text \<open>A path below the protected directory is answered like one below a directory that only leads to one.\<close>

abbreviation path_df :: "char list" where "path_df \<equiv> ''/d/f'' @ [NUL]"

lemma demo_path_df: "terminated path_df" "c_str path_df = ''/d/f''" "path_accepted ''/d/f''"
    "path_components ''/d/f'' = [''d'', ''f'']"
  by code_simp+

lemma longest_df: "longest {[''d''], [''d'', ''e'']} [''d'', ''f''] = 1"
proof -
  have "{k. k \<le> length [''d'', ''f''] \<and> (k = 0 \<or> (\<exists>qs. take k [''d'', ''f''] @ qs \<in> {[''d''], [''d'', ''e'']}))} = {0, 1}"
    by (auto simp: le_Suc_eq numeral_2_eq_2)
  then show ?thesis by (simp add: longest_def)
qed

theorem check_ignores_marked_directory_witness:
  "\<exists>s s'. protected_paths s = {[''d''], [''d'', ''e'']} \<and> protected_paths s' = {[''d'', ''e'']} \<and>
     map_sum id snd (path_store_check gone_env path_df s) = Inr SUB_MATCH_DIR \<and>
     map_sum id snd (path_store_check gone_env path_df s') = Inr SUB_MATCH_DIR"
proof -
  have sl: "slab_ready gone_env 2 s" if "length (pt_allocations (ps_tree s)) \<le> 400" for s
    using demo_slab_sound demo_slab_roomy [of "length (pt_allocations (ps_tree s)) + 2"] that
    by (simp add: slab_ready_def gone_env_def demo_env_def)
  have two: "store_ok demo_store" "rw_free (store_lock demo_store)" "length (pt_allocations (ps_tree demo_store)) \<le> 400"
    "store_ok full_store" "rw_free (store_lock full_store)"
    using demo_store_ok full_store_ok by simp_all
  let ?b = "full_store\<lparr>ps_iter := ps_iter demo_store\<rparr>"
  have b: "store_ok ?b" "rw_free (store_lock ?b)" "slab_ready gone_env 2 ?b" "protected_paths ?b = {[''d'']}"
    using two full_store_ok sl full_store_tree by (simp_all add: store_ok_def protected_paths_def)
  show ?thesis
  proof (rule store_with [OF b(1-3)], rule store_with [OF two(1,2) sl [OF two(3)]])
    fix s s'
    assume s: "store_ok s" "\<not> rw_writer (store_lock s)"
        "protected_paths s = insert [''d'', ''e''] (protected_paths ?b)"
        "it_inodes (ps_iter s) = it_inodes (ps_iter ?b)"
      and s': "store_ok s'" "\<not> rw_writer (store_lock s')"
        "protected_paths s' = insert [''d'', ''e''] (protected_paths demo_store)"
        "it_inodes (ps_iter s') = it_inodes (ps_iter demo_store)"
    have p: "protected_paths s = {[''d''], [''d'', ''e'']}" "protected_paths s' = {[''d'', ''e'']}"
      using s(3) s'(3) b(4) demo_store_ok by auto
    have "map_sum id snd (path_store_check gone_env path_df s') = map_sum id snd (path_store_check gone_env path_df s)"
    proof (rule check_ignores_marked_directory [OF s(1,2) s'(1,2) demo_path_df(1), of gone_env "[''d'']" "''e''" "[]"])
      show "\<forall>n. kmem gone_env n \<noteq> None" using gone_resolve(2) by blast
    qed (simp_all add: p gone_resolve(1))
    moreover have "map_sum id snd (path_store_check gone_env path_df s) = Inr SUB_MATCH_DIR"
    proof -
      have "classify (protected_paths s) [''d'', ''f''] = SUB_MATCH_DIR"
        unfolding p(1) by (simp add: classify_def longest_df Let_def)
      with check_classifies [OF s(1,2) demo_path_df(1) gone_resolve(2,1) refl] show ?thesis
        unfolding option.case demo_path_df(2,4) using demo_path_df(3) by auto
    qed
    ultimately have "map_sum id snd (path_store_check gone_env path_df s) = Inr SUB_MATCH_DIR \<and>
      map_sum id snd (path_store_check gone_env path_df s') = Inr SUB_MATCH_DIR" by simp
    with p show ?thesis by blast
  qed
qed

text \<open>
  A successful \<open>setup_path_store\<close> gives a well-formed store that protects nothing, with the
  lock free: on a path that no inode of the (empty) registry claims, the check answers
  \<open>MATCH_ROOT\<close>.
\<close>

theorem setup_path_store_empty:
  assumes "setup_path_store True True True slab (module_image t) = Some s" and "slab_sound slab"
    and "terminated path" and "\<forall>n. kmem E n \<noteq> None" and "resolve (file_system E) (c_str path) = None"
    and "path_accepted (c_str path)"
  shows "store_ok s \<and> protected_paths s = {} \<and> rw_free (store_lock s) \<and>
    (\<exists>s'. path_store_check E path s = Inr (s', MATCH_ROOT))"
proof -
  have S: "store_ok s" "protected_paths s = {}" "rw_free (store_lock s)" using setup_ok [OF assms(1,2)] by simp_all
  have w: "\<not> rw_writer (store_lock s)" using S(3) by (simp add: rw_free_def)
  have m: "kmem E (kclock (it_held (ps_iter s))) \<noteq> None" using assms(4) by blast
  have "{k. k \<le> length cs \<and> (k = 0 \<or> (\<exists>qs. take k cs @ qs \<in> ({} :: string list set)))} = {0}" for cs by auto
  then have "classify {} cs = MATCH_ROOT" for cs by (simp add: classify_def longest_def)
  with check_classifies [OF S(1) w assms(3) m assms(5) refl] assms(6) S show ?thesis by auto
qed

theorem setup_path_store_empty_witness:
  "\<exists>s'. path_store_check demo_env path_x demo_store = Inr (s', MATCH_ROOT)"
proof -
  have m: "\<forall>n. kmem demo_env n \<noteq> None" using demo_mem by blast
  have a: "path_accepted (c_str path_x)" using demo_paths(8) unfolding demo_paths(2) by (simp add: storable_def)
  from setup_path_store_empty [OF demo_setup demo_slab_sound demo_paths(11) m demo_resolve(2) a]
  show ?thesis by blast
qed

lemma free_allocations_all: "free_allocations None as = as"
proof -
  have "free_allocations (Some a) as = a # as" for a by (induction as arbitrary: a) auto
  then show ?thesis by (cases as) auto
qed

lemma cleanup_frees:
  assumes "store_ok s"
  shows "(if rw_free (store_lock s) then
      (\<exists>s' freed entries. cleanup_path_store s = Inr (s', freed, entries) \<and>
        distinct entries \<and> set entries = dom (pt_heap (ps_tree s)) \<and> pt_heap (ps_tree s') = Map.empty \<and>
        pt_allocations (ps_tree s') = [] \<and> fs_stores (it_inodes (ps_iter s')) = [] \<and>
        mset freed = mset (map Freed_Node (concat (concat (map inodes (fs_stores (it_inodes (ps_iter s))))))) +
          mset (map (\<lambda>st. Freed_Table (numbers st)) (fs_stores (it_inodes (ps_iter s)))) \<and>
        rw_free (store_lock s'))
    else cleanup_path_store s = Inl Blocked)"
proof (cases "rw_free (store_lock s)")
  case True
  have ok: "heap_ok (ps_tree s)" using assms by (simp add: store_ok_def)
  note D = heap_okD(3,4) [OF ok]
  have "pt_heap (ps_tree s) a = None" if "a \<notin> set (pt_allocations (ps_tree s))" for a
    using that D(1) by blast
  then have e: "(\<lambda>a. if a \<in> set (pt_allocations (ps_tree s)) then None else pt_heap (ps_tree s) a) = Map.empty"
    by auto
  have "down_write (store_lock s) = Inr ((store_lock s)\<lparr>rw_writer := True\<rparr>)" using True by (simp add: lock_rules)
  with True D e show ?thesis
    by (simp add: cleanup_path_store_def cleanup_inode_store_def free_allocations_all mset_free_tables
      up_write_def rw_free_def Let_def)
next
  case False
  then have "down_write (store_lock s) = Inl Blocked" by (simp add: lock_rules)
  with False show ?thesis by (simp add: cleanup_path_store_def)
qed

text \<open>
  C30. Cleanup gives every entry of the tree, every node and every table of the registry back exactly
  once, leaves nothing allocated, and frees the lock; it waits for ever when the lock is held.
\<close>

theorem cleanup_path_store_frees_all:
  assumes "store_ok s"
  shows "(if rw_free (store_lock s) then
      (\<exists>s' freed entries. cleanup_path_store s = Inr (s', freed, entries) \<and>
        distinct entries \<and> set entries = dom (pt_heap (ps_tree s)) \<and> pt_heap (ps_tree s') = Map.empty \<and>
        pt_allocations (ps_tree s') = [] \<and> fs_stores (it_inodes (ps_iter s')) = [] \<and>
        mset freed = mset (map Freed_Node (concat (concat (map inodes (fs_stores (it_inodes (ps_iter s))))))) +
          mset (map (\<lambda>st. Freed_Table (numbers st)) (fs_stores (it_inodes (ps_iter s)))) \<and>
        rw_free (store_lock s'))
    else cleanup_path_store s = Inl Blocked)"
  using assms by (rule cleanup_frees)

theorem cleanup_path_store_frees_all_witness:
  "\<exists>s' freed entries. cleanup_path_store full_store = Inr (s', freed, entries) \<and>
     mset freed = {#Freed_Node \<lparr>num = 1, refCount = 1, stamp = 1\<rparr>, Freed_Table 8#} \<and>
     pt_heap (ps_tree s') = Map.empty"
proof -
  have i: "fs_stores (it_inodes (ps_iter full_store)) = fs_stores full_registry" by (simp add: full_store_def)
  have c: "concat (concat (map inodes (fs_stores full_registry))) = [\<lparr>num = 1, refCount = 1, stamp = 1\<rparr>]"
    by code_simp
  have n: "map (\<lambda>st. Freed_Table (numbers st)) (fs_stores full_registry) = [Freed_Table 8]"
    by (simp add: full_registry_def)
  from cleanup_path_store_frees_all [of full_store] full_store_ok
  show ?thesis unfolding i c n by auto
qed

end
