(* ===== verification/Password.thy ===== *)
theory Password
  imports KLRM_Prelude "HOL-Library.Char_ord"
begin

text \<open>
  The password of the monitor, \<open>password_setup/password_setup.c\<close>: the SHA-512 hash configured
  as 128 hexadecimal digits is packed into 64 bytes when the module starts, and every request carries a
  password whose hash is compared with them. The hash transform of the kernel is a parameter.

  The properties: packing and printing are inverse on the digits that the printer writes, capital
  letters are misread, and a password is accepted exactly when its hash is the configured one.
\<close>

section \<open>State\<close>

record password_state =
  hashed_password :: "char list"
  hash_compressed :: "8 word list"
  hash_printer_buffer :: "char list"
  live_tfms :: int

text \<open>
  The transform: whether it can be allocated, the results of its three steps, and the digest it
  computes, at least 64 bytes.
\<close>

record crypto =
  alloc_shash :: bool
  shash_init :: int
  shash_update :: int
  shash_final :: int
  sha512 :: "string \<Rightarrow> 8 word list"

section \<open>Packing the configured hash\<close>

text \<open>One digit, in the arithmetic of an \<open>unsigned char\<close>.\<close>

definition hex_value :: "char \<Rightarrow> 8 word" where
  "hex_value c =
     (if 48 \<le> (of_char c :: nat) \<and> (of_char c :: nat) \<le> 57 then of_char c - 48
      else of_char c - 97 + 10)"

definition hash_chunk :: "char \<Rightarrow> char \<Rightarrow> 8 word" where
  "hash_chunk hi lo = (0 OR push_bit 4 (hex_value hi)) OR hex_value lo"

fun pack_digits :: "char list \<Rightarrow> 8 word list" where
  "pack_digits (hi # lo # rest) = hash_chunk hi lo # pack_digits rest"
| "pack_digits _ = []"

definition setup_password :: "password_state \<Rightarrow> (password_state \<times> int) outcome" where
  "setup_password s =
     (if \<not> terminated (hashed_password s) then Inl Bad_Access
      else if strlen (hashed_password s) \<noteq> 128 then Inr (s, 1)
      else Inr (s\<lparr>hash_compressed := pack_digits (take 128 (hashed_password s))\<rparr>, 0))"

section \<open>Printing a hash\<close>

definition hex_digit :: "8 word \<Rightarrow> char" where
  "hex_digit w = char_of (unat (if w \<le> 9 then w + 48 else w + 87))"

fun print_digits :: "8 word list \<Rightarrow> char list" where
  "print_digits [] = []"
| "print_digits (b # bs) = hex_digit (drop_bit 4 b) # hex_digit (b AND 0x0f) # print_digits bs"

text \<open>The first 128 bytes of the printer buffer are written; the last one stays 0.\<close>

definition print_decompressed_hash :: "8 word list \<Rightarrow> password_state \<Rightarrow> password_state" where
  "print_decompressed_hash hash s =
     s\<lparr>hash_printer_buffer := print_digits (take 64 hash) @ drop 128 (hash_printer_buffer s)\<rparr>"

section \<open>Checking a password\<close>


text \<open>The result is 0 exactly for the right password; a wrong one leaves the transform allocated.\<close>

definition check_password ::
  "crypto \<Rightarrow> char list \<Rightarrow> password_state \<Rightarrow> (password_state \<times> int) outcome" where
  "check_password C password s =
     (if \<not> alloc_shash C then Inr (s, - ENOMEM)
      else
        let s = s\<lparr>live_tfms := live_tfms s + 1\<rparr> in
        if shash_init C \<noteq> 0 then Inr (s\<lparr>live_tfms := live_tfms s - 1\<rparr>, - 1)
        else if \<not> terminated password then Inl Bad_Access
        else if shash_update C \<noteq> 0 then Inr (s\<lparr>live_tfms := live_tfms s - 1\<rparr>, - 1)
        else if shash_final C \<noteq> 0 then Inr (s\<lparr>live_tfms := live_tfms s - 1\<rparr>, - 1)
        else
          let hash = sha512 C (c_str password) in
          if take 64 hash \<noteq> take 64 (hash_compressed s) then Inr (print_decompressed_hash hash s, 1)
          else Inr (s\<lparr>live_tfms := live_tfms s - 1\<rparr>, 0))"

section \<open>Digits and bytes\<close>

lemma of_char_word: "n < 256 \<Longrightarrow> (of_char (char_of n) :: 8 word) = word_of_nat n"
  by (metis of_nat_of_char of_char_of mod_less)

lemma digit_roundtrip:
  assumes "w < 16"
  shows "hex_value (hex_digit w) = w \<and> hex_digit w \<noteq> NUL"
proof -
  define k where "k = unat w"
  have k: "k < 16" using assms by (simp add: word_less_nat_alt k_def)
  have w: "w = word_of_nat k" by (simp add: k_def)
  have le: "w \<le> 9 \<longleftrightarrow> k \<le> 9" by (simp add: word_le_nat_alt k_def)
  have add: "unat (w + 48) = k + 48" "unat (w + 87) = k + 87"
    using k by (simp_all add: unat_word_ariths k_def)
  let ?n = "if k \<le> 9 then k + 48 else k + 87"
  have d: "hex_digit w = char_of ?n" by (simp add: hex_digit_def le add)
  have n: "?n < 256" "?n \<noteq> 0" using k by auto
  have v: "(of_char (char_of ?n) :: nat) = ?n" using n(1) by (simp only: of_char_of) simp
  have "hex_value (char_of ?n) = w"
    unfolding hex_value_def v of_char_word [OF n(1)] using k by (auto simp: w)
  moreover have "char_of ?n \<noteq> NUL"
  proof
    assume "char_of ?n = NUL"
    then have "(of_char (char_of ?n) :: nat) = of_char NUL" by (simp only:)
    with v n(2) show False by simp
  qed
  ultimately show ?thesis unfolding d by blast
qed

lemma nibbles_small:
  fixes b :: "8 word"
  shows "drop_bit 4 b < 16" and "b AND 0x0f < 16"
proof -
  have "unat b < 256" using unsigned_less [of b, where ?'a = nat] by simp
  then have "unat (drop_bit 4 b) < 16" unfolding unsigned_drop_bit_eq by (simp add: drop_bit_eq_div take_bit_eq_mod)
  then show "drop_bit 4 b < 16" by (simp add: word_less_nat_alt)
  have "b AND 0x0f \<le> 0x0f" by (rule word_and_le1)
  then show "b AND 0x0f < 16" by (rule order.strict_trans1) simp
qed

lemma join_nibbles: "push_bit 4 (drop_bit 4 b) OR (b AND 0x0f) = (b :: 8 word)"
proof -
  have m: "(0x0f :: 8 word) = mask 4" by (simp add: mask_eq_exp_minus_1)
  show ?thesis unfolding m
    by (rule bit_word_eqI) (auto simp: bit_simps)
qed

lemma nibble_roundtrip: "hash_chunk (hex_digit (drop_bit 4 b)) (hex_digit (b AND 0x0f)) = b"
  using digit_roundtrip [OF nibbles_small(1) [of b]] digit_roundtrip [OF nibbles_small(2) [of b]]
  by (simp add: hash_chunk_def join_nibbles)

lemma length_print_digits [simp]: "length (print_digits bs) = 2 * length bs"
  by (induction bs) auto

lemma pack_print [simp]: "pack_digits (print_digits bs) = bs"
  by (induction bs) (simp_all add: nibble_roundtrip)

lemma print_digits_no_NUL: "NUL \<notin> set (print_digits bs)"
proof (induction bs)
  case (Cons b bs)
  then show ?case
    using digit_roundtrip [OF nibbles_small(1) [of b]] digit_roundtrip [OF nibbles_small(2) [of b]] by auto
qed simp


section \<open>Properties\<close>

text \<open>
  C14. The configured hash is read back as it was written: from the 128 lower-case digits of 64 bytes
  \<open>setup_password\<close> packs exactly these bytes, and \<open>print_decompressed_hash\<close> writes the same
  digits again. A configured string of any other length is refused and changes nothing.
\<close>

theorem setup_password_roundtrip:
  assumes "length bs = 64" and "length (hash_printer_buffer s) = 129" and "terminated other"
  shows "setup_password (s\<lparr>hashed_password := print_digits bs @ [NUL]\<rparr>) =
      Inr (s\<lparr>hashed_password := print_digits bs @ [NUL], hash_compressed := bs\<rparr>, 0) \<and>
    take 128 (hash_printer_buffer (print_decompressed_hash bs s)) = print_digits bs \<and>
    (strlen other \<noteq> 128 \<longrightarrow>
      setup_password (s\<lparr>hashed_password := other\<rparr>) = Inr (s\<lparr>hashed_password := other\<rparr>, 1))"
proof -
  have len: "strlen (print_digits bs @ [NUL]) = 128"
    using strlen_append_NUL [OF print_digits_no_NUL [of bs], of "[]"] assms(1) by simp
  have "take 128 (print_digits bs @ [NUL]) = print_digits bs" using assms(1) by simp
  then have "setup_password (s\<lparr>hashed_password := print_digits bs @ [NUL]\<rparr>) =
      Inr (s\<lparr>hashed_password := print_digits bs @ [NUL], hash_compressed := bs\<rparr>, 0)"
    using len by (simp add: setup_password_def terminated_def)
  moreover have "take 128 (hash_printer_buffer (print_decompressed_hash bs s)) = print_digits bs"
    using assms(1) by (simp add: print_decompressed_hash_def)
  ultimately show ?thesis using assms(3) by (simp add: setup_password_def)
qed

definition demo_password :: password_state where
  "demo_password = \<lparr>hashed_password = replicate 129 NUL, hash_compressed = replicate 64 0,
     hash_printer_buffer = replicate 129 NUL, live_tfms = 0\<rparr>"

theorem setup_password_roundtrip_witness:
  "setup_password (demo_password\<lparr>hashed_password := print_digits (replicate 64 0xa5) @ [NUL]\<rparr>) =
     Inr (demo_password\<lparr>hashed_password := print_digits (replicate 64 0xa5) @ [NUL],
       hash_compressed := replicate 64 0xa5\<rparr>, 0) \<and>
   setup_password (demo_password\<lparr>hashed_password := [NUL]\<rparr>) =
     Inr (demo_password\<lparr>hashed_password := [NUL]\<rparr>, 1)"
proof -
  have l: "length (replicate 64 (0xa5 :: 8 word)) = 64" by (rule length_replicate)
  have b: "length (hash_printer_buffer demo_password) = 129"
    unfolding demo_password_def password_state.select_convs by (rule length_replicate)
  have t: "terminated [NUL]" and n: "strlen [NUL] \<noteq> 128"
    by (simp_all add: terminated_def strlen_def c_str_def)
  from setup_password_roundtrip [OF l b t] n show ?thesis by blast
qed

text \<open>
  C13. A password is accepted exactly when the transform works and its hash is the configured one, and
  checking it changes neither the configured hash nor its packed form. A transform stays allocated
  exactly when a hash was computed and differs.
\<close>

theorem check_password_accepts:
  assumes "terminated password" and "length (hash_compressed s) = 64"
    and "\<forall>p. 64 \<le> length (sha512 C p)"
  shows "\<exists>s' r. check_password C password s = Inr (s', r) \<and>
    (r = 0 \<longleftrightarrow> alloc_shash C \<and> shash_init C = 0 \<and> shash_update C = 0 \<and> shash_final C = 0 \<and>
       take 64 (sha512 C (c_str password)) = hash_compressed s) \<and>
    hashed_password s' = hashed_password s \<and> hash_compressed s' = hash_compressed s \<and>
    live_tfms s' = live_tfms s + (if r = 1 then 1 else 0)"
  using assms
  by (auto simp: check_password_def Let_def print_decompressed_hash_def ENOMEM_def)

text \<open>A transform whose digest is the length of the password, 64 times.\<close>

definition demo_crypto :: crypto where
  "demo_crypto = \<lparr>alloc_shash = True, shash_init = 0, shash_update = 0, shash_final = 0,
     sha512 = (\<lambda>p. replicate 64 (word_of_nat (length p)))\<rparr>"

theorem check_password_accepts_witness:
  "(\<exists>s'. check_password demo_crypto [NUL] demo_password = Inr (s', 0)) \<and>
   (\<exists>s' r. check_password demo_crypto (''x'' @ [NUL]) demo_password = Inr (s', r) \<and> r \<noteq> 0)"
proof -
  have l: "length (hash_compressed demo_password) = 64"
    unfolding demo_password_def password_state.select_convs by (rule length_replicate)
  have h: "\<forall>p. 64 \<le> length (sha512 demo_crypto p)" by (simp add: demo_crypto_def)
  have t: "terminated [NUL]" "terminated (''x'' @ [NUL])" by (simp_all add: terminated_def)
  have e: "take 64 (sha512 demo_crypto (c_str [NUL])) = hash_compressed demo_password"
    "take 64 (sha512 demo_crypto (c_str (''x'' @ [NUL]))) \<noteq> hash_compressed demo_password"
    by (simp_all add: demo_crypto_def demo_password_def c_str_def)
  have c: "alloc_shash demo_crypto" "shash_init demo_crypto = 0" "shash_update demo_crypto = 0"
    "shash_final demo_crypto = 0" by (simp_all add: demo_crypto_def)
  show ?thesis
    using check_password_accepts [OF t(1) l h] check_password_accepts [OF t(2) l h] e c by blast
qed

end
