(* ===== verification/Klrm_Ioctl.thy ===== *)
theory Klrm_Ioctl
  imports State_Machine Path_Store Password
begin

text \<open>
  The requests of user space: \<open>api/ioctl.c\<close> holds one handler per operation, \<open>dev_ioctl\<close> of
  \<open>api/api.c\<close> copies the argument of a request into a kernel object and dispatches on the top
  three bits of the code. The state is the whole monitor: the toggles, the store of paths, the
  password, and the number of argument objects that are allocated.

  The properties are the security of the monitor: what a request can change, and only with the right
  password; what a successful request does to the store; and what a wrong password costs.
\<close>

section \<open>Requests and the state of the monitor\<close>

definition PASSWORD_SIZE :: nat where "PASSWORD_SIZE = 128"
definition PATHNAME_SIZE :: nat where "PATHNAME_SIZE = 4096"

text \<open>The path follows the password in the structure, so a password that fills its array runs into it.\<close>

record klrm_input =
  password :: "char list"
  pathName :: "char list"

definition password_bytes :: "klrm_input \<Rightarrow> char list" where
  "password_bytes i = password i @ pathName i"

record klrm =
  k_machine :: state_machine
  k_store :: path_store
  k_password :: password_state
  input_objects :: int


section \<open>The handlers\<close>

text \<open>
  The three requests on paths: enter the section of the \<open>rec\<close> toggle, check the password, call the
  store, leave the section. The early return for a wrong password does not leave it.
\<close>

definition klrm_path_add :: "env \<Rightarrow> crypto \<Rightarrow> klrm_input \<Rightarrow> klrm \<Rightarrow> (klrm \<times> int) outcome" where
  "klrm_path_add E C input s =
     bind_out (state_machine_enter_rec_on (k_machine s)) (\<lambda>(ret, m).
       let s = s\<lparr>k_machine := m\<rparr> in
       if ret = 0 then Inr (s, - EBUSY)
       else
     bind_out (check_password C (password_bytes input) (k_password s)) (\<lambda>(p, rc).
       let s = s\<lparr>k_password := p\<rparr> in
       if rc \<noteq> 0 then Inr (s, - EACCES)
       else
     bind_out (path_store_add E (pathName input) (k_store s)) (\<lambda>(st, ret).
       Inr (s\<lparr>k_store := st, k_machine := state_machine_rec_exit (k_machine s)\<rparr>, ret))))"

definition klrm_path_rm :: "env \<Rightarrow> crypto \<Rightarrow> klrm_input \<Rightarrow> klrm \<Rightarrow> (klrm \<times> int) outcome" where
  "klrm_path_rm E C input s =
     bind_out (state_machine_enter_rec_on (k_machine s)) (\<lambda>(ret, m).
       let s = s\<lparr>k_machine := m\<rparr> in
       if ret = 0 then Inr (s, - EBUSY)
       else
     bind_out (check_password C (password_bytes input) (k_password s)) (\<lambda>(p, rc).
       let s = s\<lparr>k_password := p\<rparr> in
       if rc \<noteq> 0 then Inr (s, - EACCES)
       else
     bind_out (path_store_rm E (pathName input) (k_store s)) (\<lambda>(st, ret).
       Inr (s\<lparr>k_store := st, k_machine := state_machine_rec_exit (k_machine s)\<rparr>, ret))))"

text \<open>The C value of an answer of the check.\<close>

fun result_code :: "path_check_result \<Rightarrow> int" where
  "result_code MATCH_ROOT = 0"
| "result_code FULL_MATCH_LEAF = 1"
| "result_code FULL_MATCH_DIR = 2"
| "result_code SUB_MATCH_LEAF = 3"
| "result_code SUB_MATCH_DIR = 4"
| "result_code MATCH_INODE = 5"
| "result_code MATCH_UNSOLVED = 6"

definition klrm_path_check :: "env \<Rightarrow> crypto \<Rightarrow> klrm_input \<Rightarrow> klrm \<Rightarrow> (klrm \<times> int) outcome" where
  "klrm_path_check E C input s =
     bind_out (state_machine_enter_rec_on (k_machine s)) (\<lambda>(ret, m).
       let s = s\<lparr>k_machine := m\<rparr> in
       if ret = 0 then Inr (s, - EBUSY)
       else
     bind_out (check_password C (password_bytes input) (k_password s)) (\<lambda>(p, rc).
       let s = s\<lparr>k_password := p\<rparr> in
       if rc \<noteq> 0 then Inr (s, - EACCES)
       else
     bind_out (path_store_check E (pathName input) (k_store s)) (\<lambda>(st, ret).
       Inr (s\<lparr>k_store := st, k_machine := state_machine_rec_exit (k_machine s)\<rparr>, result_code ret))))"

text \<open>
  The two requests on the toggles take the word in the path as the new value. \<open>strcmp\<close> with
  \<open>on\<close> or \<open>off\<close> stops at the first difference, so it needs no more than four bytes of a path
  that does not end.
\<close>

definition toggle_word :: "char list \<Rightarrow> string outcome" where
  "toggle_word path = (if terminated path \<or> 4 \<le> length path then Inr (c_str path) else Inl Bad_Access)"

definition klrm_set :: "crypto \<Rightarrow> klrm_input \<Rightarrow> klrm \<Rightarrow> (klrm \<times> int) outcome" where
  "klrm_set C input s =
     bind_out (check_password C (password_bytes input) (k_password s)) (\<lambda>(p, rc).
       let s = s\<lparr>k_password := p\<rparr> in
       if rc \<noteq> 0 then Inr (s, - EACCES)
       else
     bind_out (toggle_word (pathName input)) (\<lambda>word.
       if word = ''on''
       then bind_out (set_machine_on (k_machine s)) (\<lambda>m. Inr (s\<lparr>k_machine := m\<rparr>, 0))
       else if word = ''off''
       then bind_out (set_machine_off (k_machine s)) (\<lambda>m. Inr (s\<lparr>k_machine := m\<rparr>, 0))
       else Inr (s, - EINVAL)))"

definition klrm_rec :: "crypto \<Rightarrow> klrm_input \<Rightarrow> klrm \<Rightarrow> (klrm \<times> int) outcome" where
  "klrm_rec C input s =
     bind_out (check_password C (password_bytes input) (k_password s)) (\<lambda>(p, rc).
       let s = s\<lparr>k_password := p\<rparr> in
       if rc \<noteq> 0 then Inr (s, - EACCES)
       else
     bind_out (toggle_word (pathName input)) (\<lambda>word.
       if word = ''on''
       then bind_out (set_machine_rec_on (k_machine s)) (\<lambda>m. Inr (s\<lparr>k_machine := m\<rparr>, 0))
       else if word = ''off''
       then bind_out (set_machine_rec_off (k_machine s)) (\<lambda>m. Inr (s\<lparr>k_machine := m\<rparr>, 0))
       else Inr (s, - EINVAL)))"

section \<open>The dispatch\<close>

definition CODE_MASK :: "32 word" where "CODE_MASK = 0xe0000000"
definition ADD_PATH :: "32 word" where "ADD_PATH = 0x00000000"
definition RM_PATH :: "32 word" where "RM_PATH = 0x20000000"
definition CHK_PATH :: "32 word" where "CHK_PATH = 0x40000000"
definition MACHINE_SET :: "32 word" where "MACHINE_SET = 0x60000000"
definition MACHINE_REC :: "32 word" where "MACHINE_REC = 0x80000000"

definition SIZEOF_INPUT :: "32 word" where
  "SIZEOF_INPUT = word_of_nat (PASSWORD_SIZE + PATHNAME_SIZE)"

text \<open>The object of the argument is given back.\<close>

definition free_input :: "(klrm \<times> int) \<Rightarrow> klrm \<times> int" where
  "free_input r = ((fst r)\<lparr>input_objects := input_objects (fst r) - 1\<rparr>, snd r)"

text \<open>
  \<open>user\<close> is what \<open>copy_from_user\<close> finds behind the pointer of the caller, none when part of it
  cannot be read; \<open>input_object\<close> says whether the cache has an object. When it has none, the
  missing object is given back to it all the same.
\<close>

definition dev_ioctl ::
  "env \<Rightarrow> crypto \<Rightarrow> bool \<Rightarrow> 32 word \<Rightarrow> klrm_input option \<Rightarrow> klrm \<Rightarrow> (klrm \<times> int) outcome" where
  "dev_ioctl E C input_object code user s =
     (if \<not> input_object then Inl Bad_Access
      else
        let s = s\<lparr>input_objects := input_objects s + 1\<rparr>;
            size = code AND NOT CODE_MASK in
        if size \<noteq> SIZEOF_INPUT then Inr (free_input (s, 1))
        else
          (case user of
             None \<Rightarrow> Inr (free_input (s, - EACCES))
           | Some argp_copied \<Rightarrow>
               if code AND CODE_MASK = ADD_PATH
               then map_sum id free_input (klrm_path_add E C argp_copied s)
               else if code AND CODE_MASK = RM_PATH
               then map_sum id free_input (klrm_path_rm E C argp_copied s)
               else if code AND CODE_MASK = CHK_PATH
               then map_sum id free_input (klrm_path_check E C argp_copied s)
               else if code AND CODE_MASK = MACHINE_SET
               then map_sum id free_input (klrm_set C argp_copied s)
               else if code AND CODE_MASK = MACHINE_REC
               then map_sum id free_input (klrm_rec C argp_copied s)
               else Inr (s, - EOPNOTSUPP)))"

text \<open>
  \<open>setup_api\<close>: the cache of arguments, the character device, the probe of
  \<open>getname_kernel\<close>. The result is the C value and what is registered: the cache, the device,
  the probes left behind. \<open>register_chrdev\<close> is what \<open>__register_chrdev\<close> returns, a major number
  or a negative error; the code keeps it in \<open>major\<close> and does not look at it.
\<close>

definition setup_api ::
  "bool \<Rightarrow> int \<Rightarrow> (string \<Rightarrow> int \<times> 64 word) \<Rightarrow> int \<times> bool \<times> bool \<times> nat \<times> 64 word" where
  "setup_api input_cache register_chrdev register_kprobe =
     (if \<not> input_cache then (1, False, False, 0, 0)
      else
        let (probes, addr) = addr_kprobe_oracle register_kprobe ''getname_kernel'' 0 in
        (0, True, 0 \<le> register_chrdev, probes, addr))"

text \<open>\<open>cleanup_api\<close> unregisters the device; the cache stays.\<close>

definition cleanup_api :: "bool \<times> bool \<Rightarrow> bool \<times> bool" where
  "cleanup_api r = (fst r, False)"

section \<open>The parts of a request\<close>

text \<open>The password of a request is right.\<close>

definition right_password :: "crypto \<Rightarrow> klrm_input \<Rightarrow> klrm \<Rightarrow> bool" where
  "right_password C i s =
     (alloc_shash C \<and> shash_init C = 0 \<and> shash_update C = 0 \<and> shash_final C = 0 \<and>
      take 64 (sha512 C (c_str (password_bytes i))) = take 64 (hash_compressed (k_password s)))"

lemma check_password_result:
  assumes "check_password C (password_bytes i) (k_password s) = Inr (p, rc)"
  shows "(rc = 0 \<longleftrightarrow> right_password C i s) \<and> hash_compressed p = hash_compressed (k_password s) \<and>
    hashed_password p = hashed_password (k_password s)"
  using assms
  by (auto simp: check_password_def right_password_def print_decompressed_hash_def ENOMEM_def Let_def
    split: if_splits)

lemma check_password_runs:
  "terminated (password_bytes i) \<Longrightarrow>
   \<exists>p rc. check_password C (password_bytes i) (k_password s) = Inr (p, rc)"
  by (auto simp: check_password_def Let_def)

lemma clean_tree [simp]:
  "ps_tree (clean_oracle_decree d s) = ps_tree s"
  by (simp add: clean_oracle_decree_def)

lemma ask_oracle_tree: "ask_oracle E p s = Inr (s', d, b) \<Longrightarrow> ps_tree s' = ps_tree s"
  by (auto simp: ask_oracle_def Let_def split: if_splits prod.splits)

text \<open>A check never changes the tree, whatever the state.\<close>

lemma locked_check_keeps_tree:
  assumes "locked_check d b j s = Inr (s', r)"
  shows "ps_tree s' = ps_tree s"
proof -
  let ?search = "path_search_loop (pt_heap (ps_tree s)) b (argIdxs s) j (pt_root (ps_tree s)) 0"
  obtain lock where l: "down_read (store_lock s) = Inr lock"
    using assms by (cases "down_read (store_lock s)") (auto simp: locked_check_def)
  obtain cur dd where q: "?search = Inr (cur, dd)"
    using assms l by (cases ?search) (auto simp: locked_check_def)
  obtain e where "pt_heap (ps_tree s) cur = Some e"
    using assms l q by (cases "pt_heap (ps_tree s) cur") (auto simp: locked_check_def)
  with assms l q show ?thesis by (auto simp: locked_check_def Let_def)
qed

lemma check_keeps_tree:
  assumes "path_store_check E p s = Inr (s', r)"
  shows "ps_tree s' = ps_tree s"
proof -
  obtain s1 d b where ask: "ask_oracle E p s = Inr (s1, d, b)"
    using assms by (cases "ask_oracle E p s") (auto simp: path_store_check_def)
  from ask_oracle_tree [OF ask] have tree: "ps_tree s1 = ps_tree s" .
  show ?thesis
  proof (cases "case d of None \<Rightarrow> False
      | Some decree \<Rightarrow> check_inode (device decree) (inode decree) (it_inodes (ps_iter s1)) \<noteq> 0")
    case True
    with assms ask tree show ?thesis by (auto simp: path_store_check_def)
  next
    case False
    then obtain b2 idx j where p: "process_path b (argIdxs s1) = Inr (b2, idx, j)"
      using assms ask by (cases "process_path b (argIdxs s1)") (auto simp: path_store_check_def)
    show ?thesis
    proof (cases "j = UINT_MAX")
      case True
      with assms ask False p tree show ?thesis by (auto simp: path_store_check_def)
    next
      case j: False
      then have "locked_check d b2 j (s1\<lparr>argIdxs := idx\<rparr>) = Inr (s', r)"
        using assms False by (simp add: path_store_check_def ask p)
      from locked_check_keeps_tree [OF this] tree show ?thesis by simp
    qed
  qed
qed

lemma enter_rec_cases:
  "state_machine_enter_rec_on m =
     (if rw_writer (rec_sem m) then Inl Blocked
      else if rec_toggle m = ON
      then Inr (1, m\<lparr>rec_sem := (rec_sem m)\<lparr>rw_readers := Suc (rw_readers (rec_sem m))\<rparr>\<rparr>)
      else Inr (0, m))"
  by (simp add: state_machine_enter_rec_on_def down_read_def up_read_def)

lemma rec_exit_enter:
  "state_machine_rec_exit (m\<lparr>rec_sem := (rec_sem m)\<lparr>rw_readers := Suc (rw_readers (rec_sem m))\<rparr>\<rparr>) = m"
  by (simp add: state_machine_rec_exit_def up_read_def)

lemma rec_exit_toggles [simp]:
  "rec_toggle (state_machine_rec_exit m) = rec_toggle m" "set_toggle (state_machine_rec_exit m) = set_toggle m"
  by (simp_all add: state_machine_rec_exit_def)

text \<open>
  What all requests have in common: the password state keeps its hash, the argument objects are not
  touched; a change of the tree or of a toggle needs the right password.
\<close>

definition keeps :: "klrm \<Rightarrow> klrm \<Rightarrow> bool" where
  "keeps s s' =
     (input_objects s' = input_objects s \<and>
      hash_compressed (k_password s') = hash_compressed (k_password s) \<and>
      hashed_password (k_password s') = hashed_password (k_password s))"

definition same_toggles :: "klrm \<Rightarrow> klrm \<Rightarrow> bool" where
  "same_toggles s s' =
     (rec_toggle (k_machine s') = rec_toggle (k_machine s) \<and>
      set_toggle (k_machine s') = set_toggle (k_machine s))"

lemma klrm_path_add_guarded:
  assumes "klrm_path_add E C i s = Inr (s', r)"
  shows "keeps s s' \<and> same_toggles s s' \<and>
    (ps_tree (k_store s') \<noteq> ps_tree (k_store s) \<longrightarrow> right_password C i s \<and> rec_toggle (k_machine s) = ON)"
  using assms check_password_result [of C i s]
  by (fastforce simp: klrm_path_add_def enter_rec_cases bind_out_Inr_iff keeps_def same_toggles_def Let_def
    split: if_split_asm)

lemma klrm_path_rm_guarded:
  assumes "klrm_path_rm E C i s = Inr (s', r)"
  shows "keeps s s' \<and> same_toggles s s' \<and>
    (ps_tree (k_store s') \<noteq> ps_tree (k_store s) \<longrightarrow> right_password C i s \<and> rec_toggle (k_machine s) = ON)"
  using assms check_password_result [of C i s]
  by (fastforce simp: klrm_path_rm_def enter_rec_cases bind_out_Inr_iff keeps_def same_toggles_def Let_def
    split: if_split_asm)

lemma klrm_path_check_guarded:
  assumes "klrm_path_check E C i s = Inr (s', r)"
  shows "keeps s s' \<and> same_toggles s s' \<and> ps_tree (k_store s') = ps_tree (k_store s)"
  using assms check_password_result [of C i s] check_keeps_tree
  by (fastforce simp: klrm_path_check_def enter_rec_cases bind_out_Inr_iff keeps_def same_toggles_def Let_def
    split: if_split_asm)

text \<open>A request on a toggle: with the right password, one of the two words, and the lock free.\<close>

definition gated_toggle :: "crypto \<Rightarrow> klrm_input \<Rightarrow> klrm \<Rightarrow> klrm \<Rightarrow> int \<Rightarrow> bool" where
  "gated_toggle C i s s' r =
     (keeps s s' \<and> k_store s' = k_store s \<and>
      (if right_password C i s
       then r = (if c_str (pathName i) \<in> {''on'', ''off''} then 0 else - EINVAL)
       else k_machine s' = k_machine s \<and> r = - EACCES))"

lemma klrm_set_gated:
  assumes run: "klrm_set C i s = Inr (s', r)"
  shows "gated_toggle C i s s' r \<and> (right_password C i s \<longrightarrow>
    k_machine s' = (if c_str (pathName i) = ''on'' then (k_machine s)\<lparr>set_toggle := ON\<rparr>
      else if c_str (pathName i) = ''off'' then (k_machine s)\<lparr>set_toggle := OFF\<rparr> else k_machine s))"
proof -
  obtain p rc where c: "check_password C (password_bytes i) (k_password s) = Inr (p, rc)"
    using run by (cases "check_password C (password_bytes i) (k_password s)") (auto simp: klrm_set_def)
  show ?thesis
    using run check_password_result [OF c]
    by (auto simp: klrm_set_def c gated_toggle_def keeps_def toggle_word_def set_machine_on_def
        set_machine_off_def outcome_rules lock_rules up_write_def rw_free_def Let_def split: if_splits)
qed



text \<open>The same for the request that starts and stops the recording, which also needs its lock free.\<close>

lemma klrm_rec_gated:
  assumes run: "klrm_rec C i s = Inr (s', r)"
  shows "gated_toggle C i s s' r \<and> (right_password C i s \<longrightarrow>
    k_machine s' = (if c_str (pathName i) = ''on'' then (k_machine s)\<lparr>rec_toggle := ON\<rparr>
      else if c_str (pathName i) = ''off'' then (k_machine s)\<lparr>rec_toggle := OFF\<rparr> else k_machine s) \<and>
    (c_str (pathName i) \<in> {''on'', ''off''} \<longrightarrow> rw_free (rec_sem (k_machine s))))"
proof -
  obtain p rc where c: "check_password C (password_bytes i) (k_password s) = Inr (p, rc)"
    using run by (cases "check_password C (password_bytes i) (k_password s)") (auto simp: klrm_rec_def)
  show ?thesis
    using run check_password_result [OF c]
    by (auto simp: klrm_rec_def c gated_toggle_def keeps_def toggle_word_def set_machine_rec_on_def
        set_machine_rec_off_def outcome_rules lock_rules up_write_def rw_free_def Let_def split: if_splits)
qed

text \<open>The words of the request codes.\<close>

lemmas request_codes = ADD_PATH_def RM_PATH_def CHK_PATH_def MACHINE_SET_def MACHINE_REC_def

definition well_sized :: "32 word \<Rightarrow> bool" where
  "well_sized code = (code AND NOT CODE_MASK = SIZEOF_INPUT)"

definition request_kind :: "32 word \<Rightarrow> 32 word" where
  "request_kind code = code AND CODE_MASK"

text \<open>A request that gets to a handler, and one that does not.\<close>

lemma dev_ioctl_cases:
  assumes run: "dev_ioctl E C obj code user s = Inr (s', r)"
  obtains (refused) "s' = s" "r = (if well_sized code then - EACCES else 1)" "well_sized code \<longrightarrow> user = None"
  | (unknown) i where "user = Some i" "s' = s\<lparr>input_objects := input_objects s + 1\<rparr>" "r = - EOPNOTSUPP"
      "request_kind code \<notin> {ADD_PATH, RM_PATH, CHK_PATH, MACHINE_SET, MACHINE_REC}" "well_sized code"
  | (handled) i t where "user = Some i" "well_sized code"
      "(request_kind code = ADD_PATH \<and> klrm_path_add E C i (s\<lparr>input_objects := input_objects s + 1\<rparr>) = Inr (t, r)) \<or>
       (request_kind code = RM_PATH \<and> klrm_path_rm E C i (s\<lparr>input_objects := input_objects s + 1\<rparr>) = Inr (t, r)) \<or>
       (request_kind code = CHK_PATH \<and> klrm_path_check E C i (s\<lparr>input_objects := input_objects s + 1\<rparr>) = Inr (t, r)) \<or>
       (request_kind code = MACHINE_SET \<and> klrm_set C i (s\<lparr>input_objects := input_objects s + 1\<rparr>) = Inr (t, r)) \<or>
       (request_kind code = MACHINE_REC \<and> klrm_rec C i (s\<lparr>input_objects := input_objects s + 1\<rparr>) = Inr (t, r))"
      "s' = t\<lparr>input_objects := input_objects t - 1\<rparr>"
proof (cases "well_sized code \<and> user \<noteq> None")
  case False
  with run refused show thesis
    by (auto simp: dev_ioctl_def well_sized_def free_input_def Let_def split: if_splits)
next
  case True
  then obtain i where i: "user = Some i" and w: "well_sized code" by auto
  have fr: "map_sum id free_input x = Inr (s', r) \<Longrightarrow>
      \<exists>t. x = Inr (t, r) \<and> s' = t\<lparr>input_objects := input_objects t - 1\<rparr>" for x
    by (cases x) (auto simp: free_input_def)
  let ?s = "s\<lparr>input_objects := input_objects s + 1\<rparr>"
  have d: "(if request_kind code = ADD_PATH then map_sum id free_input (klrm_path_add E C i ?s)
      else if request_kind code = RM_PATH then map_sum id free_input (klrm_path_rm E C i ?s)
      else if request_kind code = CHK_PATH then map_sum id free_input (klrm_path_check E C i ?s)
      else if request_kind code = MACHINE_SET then map_sum id free_input (klrm_set C i ?s)
      else if request_kind code = MACHINE_REC then map_sum id free_input (klrm_rec C i ?s)
      else Inr (?s, - EOPNOTSUPP)) = Inr (s', r)"
    using run w unfolding dev_ioctl_def well_sized_def request_kind_def i Let_def option.case
    by (cases obj) (simp_all only: if_False if_True simp_thms HOL.simp_thms sum.simps)
  show thesis
  proof (cases "request_kind code \<in> {ADD_PATH, RM_PATH, CHK_PATH, MACHINE_SET, MACHINE_REC}")
    case False
    with d unknown [OF i _ _ _ w] show thesis by simp
  next
    case True
    let ?h = "\<lambda>x. \<exists>t. x = Inr (t, r) \<and> s' = t\<lparr>input_objects := input_objects t - 1\<rparr>"
    have "(request_kind code = ADD_PATH \<and> ?h (klrm_path_add E C i ?s)) \<or>
        (request_kind code = RM_PATH \<and> ?h (klrm_path_rm E C i ?s)) \<or>
        (request_kind code = CHK_PATH \<and> ?h (klrm_path_check E C i ?s)) \<or>
        (request_kind code = MACHINE_SET \<and> ?h (klrm_set C i ?s)) \<or>
        (request_kind code = MACHINE_REC \<and> ?h (klrm_rec C i ?s))"
      using d True by (elim insertE emptyE) (simp_all add: fr request_codes)
    with handled [OF i w] show thesis by blast
  qed
qed



lemma right_password_frame [simp]:
  "right_password C i (s\<lparr>input_objects := n\<rparr>) = right_password C i s"
  by (simp add: right_password_def)

lemma keeps_password: "keeps s t \<Longrightarrow> right_password C i t = right_password C i s"
  by (simp add: right_password_def keeps_def)

lemma keeps_trans: "keeps s t \<Longrightarrow> keeps t u \<Longrightarrow> keeps s u"
  by (simp add: keeps_def)

text \<open>A wrong password on a request that needs the section: the reader it took stays.\<close>

definition add_reader :: "rwlock \<Rightarrow> rwlock" where
  "add_reader l = l\<lparr>rw_readers := Suc (rw_readers l)\<rparr>"

lemma path_handlers_refuse:
  assumes t: "terminated (password_bytes i)" and w: "\<not> right_password C i s"
    and free: "\<not> rw_writer (rec_sem (k_machine s))"
    and h: "h \<in> {klrm_path_add E C i, klrm_path_rm E C i, klrm_path_check E C i}"
  shows "\<exists>p. h s = (if rec_toggle (k_machine s) = ON
      then Inr (s\<lparr>k_machine := (k_machine s)\<lparr>rec_sem := add_reader (rec_sem (k_machine s))\<rparr>, k_password := p\<rparr>, - EACCES)
      else Inr (s, - EBUSY)) \<and>
    hash_compressed p = hash_compressed (k_password s) \<and> hashed_password p = hashed_password (k_password s)"
proof -
  obtain p rc where c: "check_password C (password_bytes i) (k_password s) = Inr (p, rc)"
    using check_password_runs [OF t] by blast
  from check_password_result [OF c] w have "rc \<noteq> 0" "hash_compressed p = hash_compressed (k_password s)"
    "hashed_password p = hashed_password (k_password s)" by auto
  with h free c show ?thesis
    by (intro exI [of _ p]) (auto simp: klrm_path_add_def klrm_path_rm_def klrm_path_check_def
        enter_rec_cases add_reader_def Let_def)
qed

lemma toggle_handlers_refuse:
  assumes t: "terminated (password_bytes i)" and w: "\<not> right_password C i s"
    and h: "h \<in> {klrm_set C i, klrm_rec C i}"
  shows "\<exists>p. h s = Inr (s\<lparr>k_password := p\<rparr>, - EACCES) \<and>
    hash_compressed p = hash_compressed (k_password s) \<and> hashed_password p = hashed_password (k_password s)"
proof -
  obtain p rc where c: "check_password C (password_bytes i) (k_password s) = Inr (p, rc)"
    using check_password_runs [OF t] by blast
  from check_password_result [OF c] w have "rc \<noteq> 0" "hash_compressed p = hash_compressed (k_password s)"
    "hashed_password p = hashed_password (k_password s)" by auto
  with h c show ?thesis by (intro exI [of _ p]) (auto simp: klrm_set_def klrm_rec_def Let_def)
qed

section \<open>Sequences of requests\<close>

text \<open>
  The life of the monitor between its setup and its removal: requests one after the other, each in
  its own environment.
\<close>

record request =
  rq_env :: env
  rq_crypto :: crypto
  rq_object :: bool
  rq_code :: "32 word"
  rq_user :: "klrm_input option"

fun serve :: "request list \<Rightarrow> klrm \<Rightarrow> klrm outcome" where
  "serve [] s = Inr s"
| "serve (q # qs) s =
     bind_out (dev_ioctl (rq_env q) (rq_crypto q) (rq_object q) (rq_code q) (rq_user q) s)
       (\<lambda>(s, _). serve qs s)"

text \<open>A request that reaches one of the handlers of paths.\<close>

definition path_request :: "request \<Rightarrow> bool" where
  "path_request q =
     (well_sized (rq_code q) \<and> rq_user q \<noteq> None \<and> request_kind (rq_code q) \<in> {ADD_PATH, RM_PATH, CHK_PATH})"

lemma dev_ioctl_frame:
  assumes run: "dev_ioctl E C obj code user s = Inr (s', r)"
  shows "hash_compressed (k_password s') = hash_compressed (k_password s) \<and>
    hashed_password (k_password s') = hashed_password (k_password s) \<and>
    (ps_tree (k_store s') \<noteq> ps_tree (k_store s) \<longrightarrow>
      (\<exists>i. user = Some i \<and> right_password C i s) \<and> rec_toggle (k_machine s) = ON \<and>
      request_kind code \<in> {ADD_PATH, RM_PATH}) \<and>
    (\<not> same_toggles s s' \<longrightarrow>
      (\<exists>i. user = Some i \<and> right_password C i s) \<and> request_kind code \<in> {MACHINE_SET, MACHINE_REC})"
  using run
proof (cases rule: dev_ioctl_cases)
  case refused
  then show ?thesis by (simp add: same_toggles_def)
next
  case unknown
  then show ?thesis by (simp add: same_toggles_def)
next
  case (handled i t)
  let ?s = "s\<lparr>input_objects := input_objects s + 1\<rparr>"
  have id: "k_password ?s = k_password s" "k_store ?s = k_store s" "k_machine ?s = k_machine s"
    "k_password s' = k_password t" "k_store s' = k_store t" "k_machine s' = k_machine t"
    by (simp_all add: handled(4))
  note frames = keeps_def same_toggles_def id handled(1) right_password_frame
  from handled(3) show ?thesis
  proof (elim disjE conjE)
    assume "request_kind code = ADD_PATH" "klrm_path_add E C i ?s = Inr (t, r)"
    then show ?thesis using klrm_path_add_guarded [of E C i ?s t r] by (auto simp: frames)
  next
    assume "request_kind code = RM_PATH" "klrm_path_rm E C i ?s = Inr (t, r)"
    then show ?thesis using klrm_path_rm_guarded [of E C i ?s t r] by (auto simp: frames)
  next
    assume "request_kind code = CHK_PATH" "klrm_path_check E C i ?s = Inr (t, r)"
    then show ?thesis using klrm_path_check_guarded [of E C i ?s t r] by (auto simp: frames)
  next
    assume "request_kind code = MACHINE_SET" "klrm_set C i ?s = Inr (t, r)"
    then show ?thesis using klrm_set_gated [of C i ?s t r] by (auto simp: frames gated_toggle_def split: if_split_asm)
  next
    assume "request_kind code = MACHINE_REC" "klrm_rec C i ?s = Inr (t, r)"
    then show ?thesis using klrm_rec_gated [of C i ?s t r] by (auto simp: frames gated_toggle_def split: if_split_asm)
  qed
qed



text \<open>The readers of the recording section: a request on paths brackets one or leaves it behind.\<close>

lemma path_handlers_readers:
  assumes run: "h s = Inr (s', r)"
    and h: "h \<in> {klrm_path_add E C i, klrm_path_rm E C i, klrm_path_check E C i}"
  shows "rec_sem (k_machine s') \<in> {rec_sem (k_machine s), add_reader (rec_sem (k_machine s))}"
  using run h
  by (auto simp: klrm_path_add_def klrm_path_rm_def klrm_path_check_def bind_out_Inr_iff enter_rec_cases
      state_machine_rec_exit_def up_read_def add_reader_def Let_def split: if_split_asm)

lemma dev_ioctl_readers:
  assumes run: "dev_ioctl E C obj code user s = Inr (s', r)"
  shows "rw_readers (rec_sem (k_machine s)) \<le> rw_readers (rec_sem (k_machine s'))"
  using run
proof (cases rule: dev_ioctl_cases)
  case (handled i t)
  let ?s = "s\<lparr>input_objects := input_objects s + 1\<rparr>"
  have id: "k_machine ?s = k_machine s" "k_machine s' = k_machine t" by (simp_all add: handled(4))
  have p: "h ?s = Inr (t, r) \<Longrightarrow> h \<in> {klrm_path_add E C i, klrm_path_rm E C i, klrm_path_check E C i} \<Longrightarrow>
    ?thesis" for h
    using path_handlers_readers [of h ?s t r E C i] by (auto simp: id add_reader_def)
  from handled(3) show ?thesis
  proof (elim disjE conjE)
    assume "klrm_set C i ?s = Inr (t, r)"
    then show ?thesis using klrm_set_gated [of C i ?s t r]
      by (auto simp: id gated_toggle_def split: if_split_asm)
  next
    assume "klrm_rec C i ?s = Inr (t, r)"
    then show ?thesis using klrm_rec_gated [of C i ?s t r]
      by (auto simp: id gated_toggle_def split: if_split_asm)
  qed (auto intro: p)
qed simp_all

lemma rec_needs_free:
  assumes run: "dev_ioctl E C obj code user s = Inr (s', r)"
    and lost: "0 < rw_readers (rec_sem (k_machine s))"
  shows "rec_toggle (k_machine s') = rec_toggle (k_machine s)"
  using run
proof (cases rule: dev_ioctl_cases)
  case (handled i t)
  let ?s = "s\<lparr>input_objects := input_objects s + 1\<rparr>"
  have id: "k_machine ?s = k_machine s" "k_machine s' = k_machine t" by (simp_all add: handled(4))
  note G = klrm_path_add_guarded [of E C i ?s t r] klrm_path_rm_guarded [of E C i ?s t r]
    klrm_path_check_guarded [of E C i ?s t r]
  from handled(3) show ?thesis
  proof (elim disjE conjE)
    assume "klrm_set C i ?s = Inr (t, r)"
    then show ?thesis using klrm_set_gated [of C i ?s t r]
      by (auto simp: id gated_toggle_def split: if_split_asm)
  next
    assume "klrm_rec C i ?s = Inr (t, r)"
    then show ?thesis using klrm_rec_gated [of C i ?s t r] lost
      by (auto simp: id gated_toggle_def rw_free_def split: if_split_asm)
  qed (auto dest!: G simp: id same_toggles_def)
qed simp_all

lemma serve_lost:
  assumes "serve qs s = Inr s'" and "0 < rw_readers (rec_sem (k_machine s))"
  shows "rec_toggle (k_machine s') = rec_toggle (k_machine s) \<and> 0 < rw_readers (rec_sem (k_machine s'))"
  using assms
proof (induction qs arbitrary: s)
  case (Cons q qs)
  from Cons.prems(1) obtain t r where
    st: "dev_ioctl (rq_env q) (rq_crypto q) (rq_object q) (rq_code q) (rq_user q) s = Inr (t, r)"
    and rest: "serve qs t = Inr s'" by (auto simp: bind_out_Inr_iff)
  from dev_ioctl_readers [OF st] Cons.prems(2) have "0 < rw_readers (rec_sem (k_machine t))" by simp
  with Cons.IH [OF rest] rec_needs_free [OF st Cons.prems(2)] show ?case by simp
qed simp

text \<open>One request of somebody who does not know the password.\<close>

lemma intruder_step:
  assumes obj: "obj" and user: "\<forall>i. user = Some i \<longrightarrow> terminated (password_bytes i) \<and> \<not> right_password C i s"
    and free: "\<not> rw_writer (rec_sem (k_machine s))"
  shows "\<exists>s' r. dev_ioctl E C obj code user s = Inr (s', r) \<and> k_store s' = k_store s \<and>
    hash_compressed (k_password s') = hash_compressed (k_password s) \<and>
    k_machine s' = (if rec_toggle (k_machine s) = ON \<and> well_sized code \<and> user \<noteq> None \<and>
        request_kind code \<in> {ADD_PATH, RM_PATH, CHK_PATH}
      then (k_machine s)\<lparr>rec_sem := add_reader (rec_sem (k_machine s))\<rparr> else k_machine s) \<and>
    r = (if \<not> well_sized code then 1
      else if user = None then - EACCES
      else if request_kind code \<in> {ADD_PATH, RM_PATH, CHK_PATH}
      then (if rec_toggle (k_machine s) = ON then - EACCES else - EBUSY)
      else if request_kind code \<in> {MACHINE_SET, MACHINE_REC} then - EACCES else - EOPNOTSUPP)"
proof (cases "well_sized code \<and> user \<noteq> None")
  case False
  with obj show ?thesis
    by (cases user) (auto simp: dev_ioctl_def well_sized_def free_input_def Let_def)
next
  case True
  then obtain i where i: "user = Some i" and w: "well_sized code" by auto
  let ?s = "s\<lparr>input_objects := input_objects s + 1\<rparr>"
  from user i have t: "terminated (password_bytes i)" and bad: "\<not> right_password C i ?s" by simp_all
  have f: "\<not> rw_writer (rec_sem (k_machine ?s))" using free by simp
  obtain p where p: "klrm_path_add E C i ?s = (if rec_toggle (k_machine ?s) = ON
      then Inr (?s\<lparr>k_machine := (k_machine ?s)\<lparr>rec_sem := add_reader (rec_sem (k_machine ?s))\<rparr>, k_password := p\<rparr>, - EACCES)
      else Inr (?s, - EBUSY))" "hash_compressed p = hash_compressed (k_password ?s)"
    using path_handlers_refuse [OF t bad f, of "klrm_path_add E C i" E] by blast
  obtain q where q: "klrm_path_rm E C i ?s = (if rec_toggle (k_machine ?s) = ON
      then Inr (?s\<lparr>k_machine := (k_machine ?s)\<lparr>rec_sem := add_reader (rec_sem (k_machine ?s))\<rparr>, k_password := q\<rparr>, - EACCES)
      else Inr (?s, - EBUSY))" "hash_compressed q = hash_compressed (k_password ?s)"
    using path_handlers_refuse [OF t bad f, of "klrm_path_rm E C i" E] by blast
  obtain u where u: "klrm_path_check E C i ?s = (if rec_toggle (k_machine ?s) = ON
      then Inr (?s\<lparr>k_machine := (k_machine ?s)\<lparr>rec_sem := add_reader (rec_sem (k_machine ?s))\<rparr>, k_password := u\<rparr>, - EACCES)
      else Inr (?s, - EBUSY))" "hash_compressed u = hash_compressed (k_password ?s)"
    using path_handlers_refuse [OF t bad f, of "klrm_path_check E C i" E] by blast
  obtain v where v: "klrm_set C i ?s = Inr (?s\<lparr>k_password := v\<rparr>, - EACCES)"
    "hash_compressed v = hash_compressed (k_password ?s)"
    using toggle_handlers_refuse [OF t bad, of "klrm_set C i"] by blast
  obtain x where x: "klrm_rec C i ?s = Inr (?s\<lparr>k_password := x\<rparr>, - EACCES)"
    "hash_compressed x = hash_compressed (k_password ?s)"
    using toggle_handlers_refuse [OF t bad, of "klrm_rec C i"] by blast
  show ?thesis
  proof (cases "request_kind code \<in> {ADD_PATH, RM_PATH, CHK_PATH, MACHINE_SET, MACHINE_REC}")
    case True
    then show ?thesis using w obj unfolding dev_ioctl_def well_sized_def request_kind_def i Let_def option.case
      by (elim insertE emptyE) (simp_all add: free_input_def p q u v x request_codes)
  next
    case False
    then show ?thesis using w obj by (simp add: dev_ioctl_def well_sized_def request_kind_def i Let_def)
  qed
qed



text \<open>
  A request on paths while recording is off, with whatever password; a request for an operation there is
  not; a request on a toggle with the right password while nobody is in the section.
\<close>

lemma busy_step:
  assumes "well_sized code" and "request_kind code \<in> {ADD_PATH, RM_PATH, CHK_PATH}"
    and "rec_toggle (k_machine s) \<noteq> ON" and "\<not> rw_writer (rec_sem (k_machine s))"
  shows "dev_ioctl E C True code (Some i) s = Inr (s, - EBUSY)"
  using assms
  by (auto simp: dev_ioctl_def well_sized_def request_kind_def request_codes klrm_path_add_def klrm_path_rm_def
      klrm_path_check_def enter_rec_cases free_input_def Let_def)

lemma unknown_step:
  assumes "well_sized code" and "request_kind code \<notin> {ADD_PATH, RM_PATH, CHK_PATH, MACHINE_SET, MACHINE_REC}"
  shows "dev_ioctl E C True code (Some i) s = Inr (s\<lparr>input_objects := input_objects s + 1\<rparr>, - EOPNOTSUPP)"
  using assms by (simp add: dev_ioctl_def well_sized_def request_kind_def Let_def)

lemma set_machine_free:
  assumes "rw_free (set_sem m)"
  shows "set_machine_on m = Inr (m\<lparr>set_toggle := ON\<rparr>)" "set_machine_off m = Inr (m\<lparr>set_toggle := OFF\<rparr>)"
  using assms by (simp_all add: set_machine_on_def set_machine_off_def down_write_def up_write_def rw_free_def Let_def)

lemma set_machine_rec_free:
  assumes "rw_free (rec_sem m)"
  shows "set_machine_rec_on m = Inr (m\<lparr>rec_toggle := ON\<rparr>)" "set_machine_rec_off m = Inr (m\<lparr>rec_toggle := OFF\<rparr>)"
  using assms
  by (simp_all add: set_machine_rec_on_def set_machine_rec_off_def down_write_def up_write_def rw_free_def Let_def)

lemma toggle_step:
  assumes pw: "right_password C i s" "terminated (password_bytes i)" and path: "terminated (pathName i)"
    and code: "well_sized code" "request_kind code \<in> {MACHINE_SET, MACHINE_REC}"
    and free: "c_str (pathName i) \<in> {''on'', ''off''} \<Longrightarrow>
      rw_free ((if request_kind code = MACHINE_SET then set_sem else rec_sem) (k_machine s))"
  obtains p where "dev_ioctl E C True code (Some i) s =
      Inr (s\<lparr>k_password := p, k_machine :=
          (if c_str (pathName i) \<in> {''on'', ''off''}
           then (if request_kind code = MACHINE_SET then set_toggle_update else rec_toggle_update)
             (\<lambda>_. if c_str (pathName i) = ''on'' then ON else OFF) (k_machine s)
           else k_machine s)\<rparr>,
        if c_str (pathName i) \<in> {''on'', ''off''} then 0 else - EINVAL)"
    and "hash_compressed p = hash_compressed (k_password s)"
proof -
  obtain p rc where chk: "check_password C (password_bytes i) (k_password s) = Inr (p, rc)"
    using check_password_runs [OF pw(2)] by blast
  from check_password_result [OF chk] pw(1) have rc: "rc = 0" "hash_compressed p = hash_compressed (k_password s)"
    by simp_all
  show thesis
  proof (rule that [OF _ rc(2)], goal_cases)
    case 1
    from code(2) free chk path code(1) show ?case
      by (auto simp: dev_ioctl_def well_sized_def request_kind_def request_codes klrm_set_def klrm_rec_def rc(1)
          toggle_word_def set_machine_free set_machine_rec_free free_input_def Let_def)
  qed
qed

text \<open>The argument object of one request.\<close>

lemma path_handlers_objects:
  assumes "h s = Inr (s', r)"
    and "h \<in> {klrm_path_add E C i, klrm_path_rm E C i, klrm_path_check E C i, klrm_set C i, klrm_rec C i}"
  shows "input_objects s' = input_objects s"
  using assms klrm_path_add_guarded [of E C i s s' r] klrm_path_rm_guarded [of E C i s s' r]
    klrm_path_check_guarded [of E C i s s' r] klrm_set_gated [of C i s s' r] klrm_rec_gated [of C i s s' r]
  by (auto simp: keeps_def gated_toggle_def)

lemma dev_ioctl_objects:
  assumes run: "dev_ioctl E C obj code user s = Inr (s', r)"
  shows "input_objects s' = input_objects s + (if well_sized code \<and> user \<noteq> None \<and>
    request_kind code \<notin> {ADD_PATH, RM_PATH, CHK_PATH, MACHINE_SET, MACHINE_REC} then 1 else 0)"
  using run
proof (cases rule: dev_ioctl_cases)
  case (handled i t)
  let ?s = "s\<lparr>input_objects := input_objects s + 1\<rparr>"
  have "input_objects t = input_objects ?s"
    using handled(3) path_handlers_objects [of _ ?s t r E C i] by blast
  with handled show ?thesis by auto
qed auto

section \<open>Properties\<close>

text \<open>
  C8. What a request can change, and only with the right password: the tree of protected paths
  changes only while the recording toggle is on and by a request to add or remove a path; a toggle
  changes only by a request for a toggle; the configured hash never changes.
\<close>

theorem dev_ioctl_guarded:
  assumes "dev_ioctl E C obj code user s = Inr (s', r)"
  shows "hash_compressed (k_password s') = hash_compressed (k_password s) \<and>
    hashed_password (k_password s') = hashed_password (k_password s) \<and>
    (ps_tree (k_store s') \<noteq> ps_tree (k_store s) \<longrightarrow>
      (\<exists>i. user = Some i \<and> right_password C i s) \<and> rec_toggle (k_machine s) = ON \<and>
      code AND CODE_MASK \<in> {ADD_PATH, RM_PATH}) \<and>
    (rec_toggle (k_machine s') \<noteq> rec_toggle (k_machine s) \<or>
      set_toggle (k_machine s') \<noteq> set_toggle (k_machine s) \<longrightarrow>
      (\<exists>i. user = Some i \<and> right_password C i s) \<and> code AND CODE_MASK \<in> {MACHINE_SET, MACHINE_REC})"
  using dev_ioctl_frame [OF assms] by (auto simp: same_toggles_def request_kind_def)

definition demo_klrm :: klrm where
  "demo_klrm = \<lparr>k_machine = \<lparr>rec_sem = rw_init, set_sem = rw_init, rec_toggle = ON, set_toggle = ON\<rparr>,
     k_store = demo_store, k_password = demo_password, input_objects = 0\<rparr>"

definition demo_input :: "string \<Rightarrow> string \<Rightarrow> klrm_input" where
  "demo_input pw word =
     \<lparr>password = pw @ NUL # replicate (127 - length pw) NUL, pathName = word @ NUL # replicate (4095 - length word) NUL\<rparr>"

lemma demo_input_bytes [simp]:
  "terminated (password_bytes (demo_input pw word))" "terminated (pathName (demo_input pw word))"
  "NUL \<notin> set pw \<Longrightarrow> c_str (password_bytes (demo_input pw word)) = pw"
  "NUL \<notin> set word \<Longrightarrow> c_str (pathName (demo_input pw word)) = word"
  by (simp_all add: password_bytes_def demo_input_def)

lemma demo_right_password [simp]:
  "right_password demo_crypto (demo_input [] word) demo_klrm"
  "\<not> right_password demo_crypto (demo_input ''x'' word) demo_klrm"
  by (simp_all add: right_password_def demo_crypto_def demo_klrm_def demo_password_def)

lemma demo_codes:
  "well_sized (MACHINE_REC OR 4224)" "request_kind (MACHINE_REC OR 4224) = MACHINE_REC"
  "well_sized 4224" "request_kind 4224 = ADD_PATH"
  "well_sized (CHK_PATH OR 4224)" "request_kind (CHK_PATH OR 4224) = CHK_PATH"
  by (simp_all add: well_sized_def request_kind_def request_codes CODE_MASK_def SIZEOF_INPUT_def
      PASSWORD_SIZE_def PATHNAME_SIZE_def)

lemma demo_klrm_free [simp]: "\<not> rw_writer (rec_sem (k_machine demo_klrm))"
  "rec_toggle (k_machine demo_klrm) = ON" "k_store demo_klrm = demo_store"
  "rw_readers (rec_sem (k_machine demo_klrm)) = 0"
  by (simp_all add: demo_klrm_def rw_init_def)

theorem dev_ioctl_guarded_witness:
  "\<exists>s' r. dev_ioctl demo_env demo_crypto True (MACHINE_REC OR 4224) (Some (demo_input ''x'' ''off'')) demo_klrm
      = Inr (s', r) \<and> ps_tree (k_store s') = ps_tree demo_store \<and> rec_toggle (k_machine s') = ON"
proof -
  obtain s' r where run: "dev_ioctl demo_env demo_crypto True (MACHINE_REC OR 4224)
      (Some (demo_input ''x'' ''off'')) demo_klrm = Inr (s', r)"
    using intruder_step [of True "Some (demo_input ''x'' ''off'')" demo_crypto demo_klrm demo_env "MACHINE_REC OR 4224"]
    by auto
  from dev_ioctl_guarded [OF run] have "ps_tree (k_store s') = ps_tree demo_store" "rec_toggle (k_machine s') = ON"
    using demo_right_password(2) demo_klrm_free by auto
  with run show ?thesis by blast
qed

text \<open>
  Requests without the right password never fault or wait, and they change nothing that is
  protected: the store and the toggles stay. What they do leave behind is one reader of the recording
  section for each of them that reaches a handler of paths while recording is on.
\<close>

lemma intruders_only_pin:
  assumes "\<forall>q \<in> set qs. rq_object q \<and> (\<forall>i. rq_user q = Some i \<longrightarrow>
      terminated (password_bytes i) \<and> \<not> right_password (rq_crypto q) i s)"
    and "\<not> rw_writer (rec_sem (k_machine s))"
  shows "\<exists>s'. serve qs s = Inr s' \<and> k_store s' = k_store s \<and>
    k_machine s' = (k_machine s)\<lparr>rec_sem := (rec_sem (k_machine s))\<lparr>rw_readers :=
      rw_readers (rec_sem (k_machine s)) +
      (if rec_toggle (k_machine s) = ON then length (filter path_request qs) else 0)\<rparr>\<rparr>"
  using assms
proof (induction qs arbitrary: s)
  case Nil
  then show ?case by simp
next
  case (Cons q qs)
  have h: "rq_object q" "\<forall>i. rq_user q = Some i \<longrightarrow> terminated (password_bytes i) \<and> \<not> right_password (rq_crypto q) i s"
    using Cons.prems(1) by auto
  obtain t r where st: "dev_ioctl (rq_env q) (rq_crypto q) (rq_object q) (rq_code q) (rq_user q) s = Inr (t, r)"
    and t: "k_store t = k_store s" "hash_compressed (k_password t) = hash_compressed (k_password s)"
      "k_machine t = (if rec_toggle (k_machine s) = ON \<and> path_request q
      then (k_machine s)\<lparr>rec_sem := add_reader (rec_sem (k_machine s))\<rparr> else k_machine s)"
    using intruder_step [OF h Cons.prems(2), of "rq_env q" "rq_code q"] unfolding path_request_def by blast
  have "right_password C i t = right_password C i s" for C i by (simp add: right_password_def t(2))
  with Cons.prems have rest: "\<forall>q \<in> set qs. rq_object q \<and> (\<forall>i. rq_user q = Some i \<longrightarrow>
      terminated (password_bytes i) \<and> \<not> right_password (rq_crypto q) i t)"
    and free: "\<not> rw_writer (rec_sem (k_machine t))" by (auto simp: t(3) add_reader_def)
  from Cons.IH [OF rest free] show ?case
    by (auto simp: st t add_reader_def)
qed

text \<open>
  C12. One wrong password is enough to keep the monitor recording for good: after a request on paths
  with a wrong password while recording is on, no sequence of requests turns it off, whoever sends
  them; the request to turn it off with the right password waits for ever.
\<close>

theorem wrong_password_pins_recording:
  assumes "path_request q" and "rq_object q" and "rq_user q = Some i" and "terminated (password_bytes i)"
    and "\<not> right_password (rq_crypto q) i s"
    and "\<not> rw_writer (rec_sem (k_machine s))" and "rec_toggle (k_machine s) = ON"
  shows "\<exists>t. serve [q] s = Inr t \<and>
    (\<forall>qs s'. serve qs t = Inr s' \<longrightarrow> rec_toggle (k_machine s') = ON \<and>
      (\<forall>C j. right_password C j s' \<longrightarrow> terminated (password_bytes j) \<longrightarrow> c_str (pathName j) = ''off'' \<longrightarrow>
         terminated (pathName j) \<longrightarrow> klrm_rec C j s' = Inl Blocked))"
proof -
  have h: "\<forall>p \<in> set [q]. rq_object p \<and> (\<forall>i. rq_user p = Some i \<longrightarrow>
      terminated (password_bytes i) \<and> \<not> right_password (rq_crypto p) i s)" using assms by simp
  from intruders_only_pin [OF h assms(6)] obtain t where t: "serve [q] s = Inr t"
    and m: "rec_toggle (k_machine t) = ON" "0 < rw_readers (rec_sem (k_machine t))"
    using assms(1,7) by (auto simp del: serve.simps)
  have "klrm_rec C j s' = Inl Blocked" if lost: "0 < rw_readers (rec_sem (k_machine s'))"
    and right: "right_password C j s'" and j: "terminated (password_bytes j)" "c_str (pathName j) = ''off''"
      "terminated (pathName j)" for C j s'
  proof -
    obtain p rc where c: "check_password C (password_bytes j) (k_password s') = Inr (p, rc)"
      using check_password_runs [OF j(1)] by blast
    from check_password_result [OF c] right have "rc = 0" by simp
    with c j(2,3) lost show ?thesis
      by (simp add: klrm_rec_def toggle_word_def set_machine_rec_off_def down_write_def Let_def)
  qed
  with t serve_lost [OF _ m(2)] m(1) show ?thesis by (intro exI [of _ t]) auto
qed


theorem wrong_password_pins_recording_witness:
  "\<exists>t. serve [\<lparr>rq_env = demo_env, rq_crypto = demo_crypto, rq_object = True,
        rq_code = 4224, rq_user = Some (demo_input ''x'' ''/d'')\<rparr>] demo_klrm = Inr t \<and>
     (\<forall>qs s'. serve qs t = Inr s' \<longrightarrow> rec_toggle (k_machine s') = ON)"
  using wrong_password_pins_recording [of "\<lparr>rq_env = demo_env, rq_crypto = demo_crypto, rq_object = True,
        rq_code = 4224, rq_user = Some (demo_input ''x'' ''/d'')\<rparr>" "demo_input ''x'' ''/d''" demo_klrm]
  by (auto simp: path_request_def demo_codes)

text \<open>
  A request on paths with the right password while recording is on does to the store what the store's
  own function does, and nothing else.
\<close>

lemma ioctl_path_request:
  assumes pw: "right_password C i s" "terminated (password_bytes i)"
    and on: "rec_toggle (k_machine s) = ON" "\<not> rw_writer (rec_sem (k_machine s))" and code: "well_sized code"
    and run: "(code AND CODE_MASK = ADD_PATH \<and> path_store_add E (pathName i) (k_store s) = Inr (st, r)) \<or>
      (code AND CODE_MASK = RM_PATH \<and> path_store_rm E (pathName i) (k_store s) = Inr (st, r)) \<or>
      (code AND CODE_MASK = CHK_PATH \<and> path_store_check E (pathName i) (k_store s) = Inr (st, c) \<and> r = result_code c)"
  obtains p where "dev_ioctl E C True code (Some i) s = Inr (s\<lparr>k_password := p, k_store := st\<rparr>, r)"
    and "hash_compressed p = hash_compressed (k_password s)"
proof -
  obtain p rc where chk: "check_password C (password_bytes i) (k_password s) = Inr (p, rc)"
    using check_password_runs [OF pw(2)] by blast
  from check_password_result [OF chk] pw(1) have rc: "rc = 0" "hash_compressed p = hash_compressed (k_password s)"
    by simp_all
  let ?s = "s\<lparr>input_objects := input_objects s + 1\<rparr>"
  from run consider (add) "code AND CODE_MASK = ADD_PATH" "path_store_add E (pathName i) (k_store s) = Inr (st, r)"
    | (rm) "code AND CODE_MASK = RM_PATH" "path_store_rm E (pathName i) (k_store s) = Inr (st, r)"
    | (check) "code AND CODE_MASK = CHK_PATH" "path_store_check E (pathName i) (k_store s) = Inr (st, c)"
      "r = result_code c" by blast
  then have "dev_ioctl E C True code (Some i) s = Inr (s\<lparr>k_password := p, k_store := st\<rparr>, r)"
  proof cases
    case add
    have "klrm_path_add E C i ?s = Inr (?s\<lparr>k_password := p, k_store := st\<rparr>, r)"
      using on chk rc add(2) by (simp add: klrm_path_add_def enter_rec_cases rec_exit_enter Let_def)
    with code add(1) show ?thesis by (simp add: dev_ioctl_def well_sized_def free_input_def Let_def)
  next
    case rm
    have "klrm_path_rm E C i ?s = Inr (?s\<lparr>k_password := p, k_store := st\<rparr>, r)"
      using on chk rc rm(2) by (simp add: klrm_path_rm_def enter_rec_cases rec_exit_enter Let_def)
    with code rm(1) show ?thesis
      by (simp add: dev_ioctl_def well_sized_def free_input_def request_codes Let_def)
  next
    case check
    have "klrm_path_check E C i ?s = Inr (?s\<lparr>k_password := p, k_store := st\<rparr>, r)"
      using on chk rc check(2,3) by (simp add: klrm_path_check_def enter_rec_cases rec_exit_enter Let_def)
    with code check(1) show ?thesis
      by (simp add: dev_ioctl_def well_sized_def free_input_def request_codes Let_def)
  qed
  then show thesis using rc(2) by (rule that)
qed

text \<open>
  A request to add a path, with the right password while recording is on, adds the components of
  what the kernel resolves to the set of protected paths, registers exactly the inodes below it, and leaves
  the toggles, the locks and the argument objects as they were.
\<close>

theorem klrm_add_protects:
  assumes pw: "right_password C i s" "terminated (password_bytes i)"
    and on: "rec_toggle (k_machine s) = ON" "\<not> rw_writer (rec_sem (k_machine s))"
    and code: "well_sized code" "code AND CODE_MASK = ADD_PATH"
    and ok: "store_ok (k_store s)" and free: "rw_free (store_lock (k_store s))" and t: "terminated (pathName i)"
    and res: "resolve (file_system E) (c_str (pathName i)) = Some decree"
    and st: "storable (decree_path decree)" and nul: "NUL \<notin> set (decree_path decree)"
    and slab: "slab_ready E (length (path_components (decree_path decree))) (k_store s)"
    and ready: "walk_ready E (dentry_of decree)"
    and now: "nonce (it_inodes (ps_iter (k_store s))) \<noteq> ULLONG_MAX"
      "nonce (it_inodes (ps_iter (k_store s))) + 1 \<noteq> ULLONG_MAX"
  shows "\<exists>s'. dev_ioctl E C True code (Some i) s = Inr (s', 0) \<and> store_ok (k_store s') \<and>
    protected_paths (k_store s') = insert (path_components (decree_path decree)) (protected_paths (k_store s)) \<and>
    registered (k_store s') = registered (k_store s) \<union>
      key_of (file_system E) ` reach (next_dentries (file_system E)) (dentry_of decree) \<and>
    rw_free (store_lock (k_store s')) \<and> k_machine s' = k_machine s \<and> input_objects s' = input_objects s"
proof -
  obtain st' where a: "path_store_add E (pathName i) (k_store s) = Inr (st', 0)" "store_ok st'"
    "rw_free (store_lock st')"
    "protected_paths st' = insert (path_components (decree_path decree)) (protected_paths (k_store s))"
    "registered st' = registered (k_store s) \<union>
      key_of (file_system E) ` reach (next_dentries (file_system E)) (dentry_of decree)"
    using add_resolved [OF ok free t res st nul slab ready now] by blast
  from code(2) a(1) obtain p where
    "dev_ioctl E C True code (Some i) s = Inr (s\<lparr>k_password := p, k_store := st'\<rparr>, 0)"
    using ioctl_path_request [OF pw on code(1)] by metis
  with a(2-) show ?thesis by (intro exI [of _ "s\<lparr>k_password := p, k_store := st'\<rparr>"]) simp
qed

theorem klrm_add_protects_witness:
  "\<exists>s'. dev_ioctl demo_env demo_crypto True 4224 (Some (demo_input [] ''/d'')) demo_klrm = Inr (s', 0) \<and>
     protected_paths (k_store s') = {[''d'']} \<and> k_machine s' = k_machine demo_klrm"
proof -
  have c: "4224 AND CODE_MASK = ADD_PATH" using demo_codes(4) by (simp add: request_kind_def)
  have "c_str (pathName (demo_input [] ''/d'')) = ''/d''" by simp
  then have r: "resolve (file_system demo_env) (c_str (pathName (demo_input [] ''/d''))) =
      resolve (file_system demo_env) (c_str path_d)" by (simp only: demo_paths(1))
  have "\<exists>s'. dev_ioctl demo_env demo_crypto True 4224 (Some (demo_input [] ''/d'')) demo_klrm = Inr (s', 0) \<and>
    protected_paths (k_store s') = insert (path_components ''/d'') (protected_paths demo_store) \<and>
    k_machine s' = k_machine demo_klrm"
    using klrm_add_protects [OF demo_right_password(1) demo_input_bytes(1) demo_klrm_free(2,1) demo_codes(3) c
        _ _ demo_input_bytes(2) r [unfolded demo_resolve(1)]]
      demo_store_ok demo_paths(7) demo_slab_ready demo_walk_ready
    by (fastforce simp: demo_paths(4) demo_nonce ULLONG_MAX_def)
  then show ?thesis using demo_store_ok by (auto simp: demo_paths(4))
qed

text \<open>
  Over any sequence of requests the argument objects are given back, but for one that stays for
  each request with an operation the dispatch does not know.
\<close>

theorem serve_objects:
  assumes "serve qs s = Inr s'"
  shows "input_objects s' = input_objects s + int (length (filter (\<lambda>q. well_sized (rq_code q) \<and> rq_user q \<noteq> None \<and>
    request_kind (rq_code q) \<notin> {ADD_PATH, RM_PATH, CHK_PATH, MACHINE_SET, MACHINE_REC}) qs))"
  using assms
proof (induction qs arbitrary: s)
  case (Cons q qs)
  from Cons.prems obtain t r where
    st: "dev_ioctl (rq_env q) (rq_crypto q) (rq_object q) (rq_code q) (rq_user q) s = Inr (t, r)"
    and rest: "serve qs t = Inr s'" by (auto simp: bind_out_Inr_iff)
  have "input_objects t = input_objects s + (if well_sized (rq_code q) \<and> rq_user q \<noteq> None \<and>
    request_kind (rq_code q) \<notin> {ADD_PATH, RM_PATH, CHK_PATH, MACHINE_SET, MACHINE_REC} then 1 else 0)"
    using dev_ioctl_objects [OF st] by simp
  with Cons.IH [OF rest] show ?case by simp
qed simp

theorem serve_objects_witness:
  "\<exists>s'. serve [\<lparr>rq_env = demo_env, rq_crypto = demo_crypto, rq_object = True,
        rq_code = 0xa0001080, rq_user = Some (demo_input [] [])\<rparr>] demo_klrm = Inr s' \<and> input_objects s' = 1"
proof -
  have k: "well_sized 0xa0001080" "request_kind 0xa0001080 = 0xa0000000"
    by (simp_all add: well_sized_def request_kind_def CODE_MASK_def SIZEOF_INPUT_def
      PASSWORD_SIZE_def PATHNAME_SIZE_def)
  let ?q = "\<lparr>rq_env = demo_env, rq_crypto = demo_crypto, rq_object = True,
        rq_code = 0xa0001080, rq_user = Some (demo_input [] [])\<rparr>"
  obtain s' where run: "serve [?q] demo_klrm = Inr s'"
    using k by (simp add: dev_ioctl_def well_sized_def request_kind_def request_codes Let_def)
  from serve_objects [OF run] k have "input_objects s' = 1"
    by (simp add: request_codes demo_klrm_def)
  with run show ?thesis by blast
qed

end
