(* ===== verification/Log_Ring.thy ===== *)
theory Log_Ring
  imports KLRM_Prelude "HOL-Library.Signed_Division"
begin

text \<open>
  The log of the file system, \<open>lib/logfs/file.c\<close>: one file whose bytes live in a ring of
  blocks, read by \<open>onefilefs_read\<close>, written by \<open>logfilefs_write\<close> for user space and by
  \<open>internal_logfilefs_write\<close> for the logger. \<open>circular_buffer_end\<close> counts all the bytes
  ever logged, \<open>circular_buffer_start\<close> the ones that are lost; both are 64-bit words here.

  The specification is the history of the log, a list of characters. \<open>holds_log\<close> says that the
  ring holds the end of a history; writing appends to the history, reading reads it.
\<close>

section \<open>Devices and the state of the log\<close>

text \<open>
  \<open>sb_bread\<close> answers the buffer that caches a block, or NULL. The buffers stay in the cache after
  \<open>brelse\<close>; they get to the disk when they are marked dirty, which the source never does. Whether
  a call answers NULL is an argument of the operations, indexed by the calls made so far.
\<close>

type_synonym super_block = nat
type_synonym sector = "64 word"
type_synonym bread = "nat \<Rightarrow> super_block \<Rightarrow> sector \<Rightarrow> bool"

record device =
  disk :: "sector \<Rightarrow> char list"
  cache :: "sector \<Rightarrow> char list option"

record logfs =
  circular_buffer_start :: "64 word"
  circular_buffer_end :: "64 word"
  file_size :: "64 word"
  log_file_mutex :: bool
  mounted :: bool
  sb_lock :: bool
  singleton_sb :: "super_block option"
  devices :: "super_block \<Rightarrow> device"

abbreviation DEFAULT_BLOCK_SIZE :: nat where
  "DEFAULT_BLOCK_SIZE \<equiv> 4096"

definition buffer_of :: "device \<Rightarrow> sector \<Rightarrow> char list" where
  "buffer_of d b = (case cache d b of Some x \<Rightarrow> x | None \<Rightarrow> disk d b)"

definition b_data :: "super_block \<Rightarrow> sector \<Rightarrow> logfs \<Rightarrow> char list" where
  "b_data sb b s = buffer_of (devices s sb) b"

definition set_b_data :: "super_block \<Rightarrow> sector \<Rightarrow> char list \<Rightarrow> logfs \<Rightarrow> logfs" where
  "set_b_data sb b x s =
     s\<lparr>devices := (devices s)(sb := (devices s sb)\<lparr>cache := (cache (devices s sb))(b \<mapsto> x)\<rparr>)\<rparr>"

definition copy_at :: "char list \<Rightarrow> nat \<Rightarrow> char list \<Rightarrow> char list" where
  "copy_at b i xs = take i b @ xs @ drop (i + length xs) b"

section \<open>Writing\<close>

text \<open>
  Where the next bytes go, the same lines in both write functions: the index into the block, the
  number of bytes that fit, the sector. The position is an unsigned remainder that is then read as
  a signed \<open>long long\<close>, so the index and the block are C's signed remainder and quotient.
\<close>

definition log_slot :: "64 word \<Rightarrow> nat \<Rightarrow> nat \<Rightarrow> 64 word \<Rightarrow> int \<times> int \<times> sector" where
  "log_slot orig_end copied len fsize =
     (let circular_buffer_pos = sint ((orig_end + word_of_nat copied) mod fsize);
          pos_index = circular_buffer_pos smod int DEFAULT_BLOCK_SIZE;
          delta = int len - int copied;
          delta = (if pos_index + delta > int DEFAULT_BLOCK_SIZE
            then int DEFAULT_BLOCK_SIZE - pos_index else delta);
          selected_sector = circular_buffer_pos sdiv int DEFAULT_BLOCK_SIZE + 2
      in (pos_index, delta, word_of_int selected_sector))"

lemma smod_block: "x smod 4096 < (4096 :: int)" "- 4096 < x smod (4096 :: int)"
  using smod_int_range [of 4096 x] by auto

lemma log_slot_delta:
  "log_slot e c len fs = (p, d, b) \<Longrightarrow> d \<le> int len - int c \<and> (d = int len - int c \<or> 0 < d)"
  using smod_block [of "sint ((e + word_of_nat c) mod fs)"]
  by (auto simp: log_slot_def Let_def split: if_splits)

text \<open>The loop of the logger; no number of bytes when a block could not be had.\<close>

function internal_loop ::
  "bread \<Rightarrow> char list \<Rightarrow> nat \<Rightarrow> 64 word \<Rightarrow> nat \<Rightarrow> nat \<Rightarrow> logfs \<Rightarrow> (logfs \<times> nat option) outcome" where
  "internal_loop io payload len orig_end n copied s =
     (if file_size s = 0 then Inl Div_By_Zero
      else
        (case log_slot orig_end copied len (file_size s) of (pos_index, delta, selected_sector) \<Rightarrow>
        (case singleton_sb s of
           None \<Rightarrow> Inl Bad_Access
         | Some sb \<Rightarrow>
             if \<not> io n sb selected_sector then Inr (s, None)
             else if pos_index < 0 \<or> delta < 0 then Inl Bad_Access
             else
               let s = set_b_data sb selected_sector
                     (copy_at (b_data sb selected_sector s) (nat pos_index)
                       (take (nat delta) (drop copied payload))) s;
                   copied = copied + nat delta in
               if copied \<noteq> len then internal_loop io payload len orig_end (Suc n) copied s
               else Inr (s, Some copied))))"
  by pat_completeness auto
termination
  by (relation "measure (\<lambda>(io, payload, len, orig_end, n, copied, s). len - copied)")
    (auto dest!: log_slot_delta [OF sym])

declare internal_loop.simps [simp del]

text \<open>What both write functions do with the ends of the ring; the comparisons are unsigned.\<close>

definition advance :: "nat \<Rightarrow> logfs \<Rightarrow> logfs" where
  "advance copied s =
     (let s = (if file_size s \<le> circular_buffer_end s
               then s\<lparr>circular_buffer_start := circular_buffer_start s + word_of_nat copied\<rparr>
               else if file_size s \<le> circular_buffer_end s + word_of_nat copied
               then s\<lparr>circular_buffer_start := circular_buffer_start s +
                  (circular_buffer_end s + word_of_nat copied - file_size s)\<rparr>
               else s)
      in s\<lparr>circular_buffer_end := circular_buffer_end s + word_of_nat copied\<rparr>)"

definition internal_logfilefs_write :: "bread \<Rightarrow> char list \<Rightarrow> logfs \<Rightarrow> logfs outcome" where
  "internal_logfilefs_write io payload s =
     (if \<not> terminated payload then Inl Bad_Access
      else let len = strlen payload in
      if len = 0 then Inr s
      else if log_file_mutex s then Inl Blocked
      else
        let s = s\<lparr>log_file_mutex := True\<rparr> in
        if \<not> mounted s then Inr (s\<lparr>log_file_mutex := False\<rparr>)
        else
          bind_out (internal_loop io payload len (circular_buffer_end s) 0 0 s) (\<lambda>(s, result).
            (case result of
               None \<Rightarrow> Inr (s\<lparr>log_file_mutex := False\<rparr>)
             | Some copied \<Rightarrow> Inr ((advance copied s)\<lparr>log_file_mutex := False\<rparr>))))"

text \<open>
  The loop for user space. \<open>buf\<close> holds the bytes that can be read behind the pointer of the
  caller; \<open>copy_from_user\<close> copies those, fills the rest of the destination with zeros and
  answers how many it could not copy.
\<close>

function user_loop ::
  "bread \<Rightarrow> char list \<Rightarrow> nat \<Rightarrow> 64 word \<Rightarrow> nat \<Rightarrow> nat \<Rightarrow> logfs \<Rightarrow> (logfs \<times> nat) outcome" where
  "user_loop io buf len orig_end n copied s =
     (if file_size s = 0 then Inl Div_By_Zero
      else
        (case log_slot orig_end copied len (file_size s) of (pos_index, delta, selected_sector) \<Rightarrow>
        (case singleton_sb s of
           None \<Rightarrow> Inl Bad_Access
         | Some sb \<Rightarrow>
             if \<not> io n sb selected_sector then Inr (s, copied)
             else if pos_index < 0 \<or> delta < 0 then Inl Bad_Access
             else
               let src = take (nat delta) (drop copied buf);
                   copied_result = nat delta - length src;
                   s = set_b_data sb selected_sector
                     (copy_at (b_data sb selected_sector s) (nat pos_index)
                       (src @ replicate copied_result NUL)) s in
               if copied_result \<noteq> 0 then Inr (s, copied + (nat delta - copied_result))
               else
                 let copied = copied + nat delta in
                 if copied \<noteq> len then user_loop io buf len orig_end (Suc n) copied s
                 else Inr (s, copied))))"
  by pat_completeness auto
termination
  by (relation "measure (\<lambda>(io, buf, len, orig_end, n, copied, s). len - copied)")
    (auto dest!: log_slot_delta [OF sym])

declare user_loop.simps [simp del]

text \<open>The result: the state, the number of bytes copied, the new offset of the open file.\<close>

definition logfilefs_write ::
  "bread \<Rightarrow> char list \<Rightarrow> nat \<Rightarrow> logfs \<Rightarrow> (logfs \<times> nat \<times> 64 word) outcome" where
  "logfilefs_write io buf len s =
     (if log_file_mutex s then Inl Blocked
      else
        let s = s\<lparr>log_file_mutex := True\<rparr> in
        bind_out (user_loop io buf len (circular_buffer_end s) 0 0 s) (\<lambda>(s, copied).
          let s = advance copied s in
          Inr (s\<lparr>log_file_mutex := False\<rparr>, copied, circular_buffer_end s)))"

section \<open>Reading\<close>

text \<open>
  \<open>room\<close> is the number of bytes that can be written behind the pointer of the caller. The result:
  the state, the bytes the caller gets, the C value, the new offset. The index of the block is an
  \<open>int\<close>: 32 bits of it reach \<open>sb_bread\<close>, extended with the sign.
\<close>

definition onefilefs_read ::
  "bread \<Rightarrow> super_block \<Rightarrow> nat \<Rightarrow> 64 word \<Rightarrow> 64 word \<Rightarrow> logfs \<Rightarrow>
     (logfs \<times> char list \<times> int \<times> 64 word) outcome" where
  "onefilefs_read io sb room len off s =
     (if log_file_mutex s then Inl Blocked
      else
        let off = (if sint off < sint (circular_buffer_start s) then circular_buffer_start s else off) in
        if sint (circular_buffer_end s) \<le> sint off then Inr (s, [], 0, off)
        else
          let len = (if circular_buffer_end s < off + len then circular_buffer_end s - off else len) in
          if file_size s = 0 then Inl Div_By_Zero
          else
            let circular_pos = off mod file_size s;
                len = (if (off + len) mod file_size s < circular_pos then file_size s - circular_pos else len);
                offset = sint circular_pos smod int DEFAULT_BLOCK_SIZE;
                len = (if word_of_nat DEFAULT_BLOCK_SIZE < word_of_int offset + len
                  then word_of_nat DEFAULT_BLOCK_SIZE - word_of_int offset else len);
                block_to_read = (word_of_int (sint circular_pos sdiv int DEFAULT_BLOCK_SIZE + 2) :: 32 word) in
            if \<not> io 0 sb (scast block_to_read) then Inr (s, [], - EIO, off)
            else if offset < 0 \<or> DEFAULT_BLOCK_SIZE < nat offset + unat len then Inl Bad_Access
            else
              let out = take (min (unat len) room) (drop (nat offset) (b_data sb (scast block_to_read) s));
                  ret = unat len - min (unat len) room in
              Inr (s, out, int (unat len - ret), off + (len - word_of_nat ret)))"

section \<open>The contract of a ring of blocks\<close>

text \<open>
  What the log needs of the blocks: a run of bytes that stays inside one block can be put at a position,
  and is read back there and nowhere else. \<open>contents\<close> says that the ring of \<open>m\<close>
  positions holds the end of a list, each element at its index modulo \<open>m\<close>.
\<close>

definition contents :: "(nat \<Rightarrow> 'b) \<Rightarrow> nat \<Rightarrow> 'b list \<Rightarrow> bool" where
  "contents g m l = (\<forall>i. length l - m \<le> i \<and> i < length l \<longrightarrow> g (i mod m) = l ! i)"

lemma mod_fits:
  assumes "B dvd m" and "(0::nat) < m" and "q mod B + n \<le> B"
  shows "q mod m + n \<le> m"
proof -
  obtain k where m: "m = B * k" using assms(1) by (elim dvdE)
  have B: "0 < B" "0 < k" using assms(2) m by auto
  have r: "q mod m mod B = q mod B" using assms(1) by (simp add: mod_mod_cancel)
  have "q mod m div B < k" using m assms(2) by (simp add: less_mult_imp_div_less mult.commute)
  then have "B * (q mod m div B) + B \<le> m" unfolding m by (metis Suc_leI mult_Suc_right add.commute mult_le_mono2)
  moreover have "q mod m = B * (q mod m div B) + q mod B" using r by (metis mult_div_mod_eq)
  ultimately show ?thesis using assms(3) by linarith
qed

lemma mod_shift:
  assumes "(e::nat) mod m + j < m"
  shows "(e + j) mod m = e mod m + j"
  using assms by (metis mod_add_left_eq mod_less)

locale chunk_ring =
  fixes get :: "'s \<Rightarrow> nat \<Rightarrow> 'b"
    and put :: "nat \<Rightarrow> 'b list \<Rightarrow> 's \<Rightarrow> 's"
    and ok :: "nat \<Rightarrow> 's \<Rightarrow> bool"
    and block :: nat
  assumes ok_size: "ok m s \<Longrightarrow> 0 < m \<and> block dvd m"
    and put_ok: "ok m s \<Longrightarrow> q < m \<Longrightarrow> q mod block + length xs \<le> block \<Longrightarrow> ok m (put q xs s)"
    and get_put: "ok m s \<Longrightarrow> q < m \<Longrightarrow> q mod block + length xs \<le> block \<Longrightarrow> p < m \<Longrightarrow>
      get (put q xs s) p = (if q \<le> p \<and> p < q + length xs then xs ! (p - q) else get s p)"
begin

lemma put_appends:
  assumes ok: "ok m s" and c: "contents (get s) m l"
    and fit: "length l mod block + length xs \<le> block"
  shows "ok m (put (length l mod m) xs s)" and "contents (get (put (length l mod m) xs s)) m (l @ xs)"
proof -
  let ?q = "length l mod m"
  from ok_size [OF ok] have m: "0 < m" and dvd: "block dvd m" by auto
  have q: "?q < m" using m by simp
  have fitq: "?q mod block + length xs \<le> block" using fit dvd by (simp add: mod_mod_cancel)
  show "ok m (put ?q xs s)" using put_ok [OF ok q fitq] .
  have top: "?q + length xs \<le> m" using mod_fits [OF dvd m fit] .
  show "contents (get (put ?q xs s)) m (l @ xs)"
    unfolding contents_def
  proof (intro allI impI)
    fix i
    assume i: "length (l @ xs) - m \<le> i \<and> i < length (l @ xs)"
    note gp = get_put [OF ok q fitq, of "i mod m"]
    show "get (put ?q xs s) (i mod m) = (l @ xs) ! i"
    proof (cases "i < length l")
      case False
      then obtain j where j: "i = length l + j" by (metis le_iff_add linorder_not_less)
      with i have j: "i = length l + j" "j < length xs" by auto
      then have "i mod m = ?q + j" using mod_shift [of "length l" m j] top by simp
      then show ?thesis using gp j m top by (simp add: nth_append)
    next
      case True
      have "\<not> (?q \<le> i mod m \<and> i mod m < ?q + length xs)"
      proof
        assume "?q \<le> i mod m \<and> i mod m < ?q + length xs"
        then obtain j where j: "i mod m = ?q + j" "j < length xs"
          by (metis add_less_cancel_left le_iff_add)
        then have "(length l + j) mod m = i mod m" using mod_shift [of "length l" m j] top by simp
        then have "m dvd length l + j - i" using True by (simp add: mod_eq_dvd_iff_nat)
        then have "m \<le> length l + j - i" using True by (auto dest: dvd_imp_le)
        with i j(2) True show False by simp
      qed
      moreover have "length l - m \<le> i" using i by (simp only: length_append) linarith
      ultimately show ?thesis using gp c True m by (auto simp: contents_def nth_append)
    qed
  qed
qed

end

section \<open>The ring on the blocks of a device\<close>

definition ring_byte :: "super_block \<Rightarrow> logfs \<Rightarrow> nat \<Rightarrow> char" where
  "ring_byte sb s p = b_data sb (word_of_nat (p div DEFAULT_BLOCK_SIZE + 2)) s ! (p mod DEFAULT_BLOCK_SIZE)"

definition put_ring :: "super_block \<Rightarrow> nat \<Rightarrow> char list \<Rightarrow> logfs \<Rightarrow> logfs" where
  "put_ring sb q xs s =
     (let b = word_of_nat (q div DEFAULT_BLOCK_SIZE + 2)
      in set_b_data sb b (copy_at (b_data sb b s) (q mod DEFAULT_BLOCK_SIZE) xs) s)"

definition ring_ok :: "super_block \<Rightarrow> nat \<Rightarrow> logfs \<Rightarrow> bool" where
  "ring_ok sb m s =
     (0 < m \<and> DEFAULT_BLOCK_SIZE dvd m \<and> m < 2 ^ 62 \<and>
      (\<forall>b < m div DEFAULT_BLOCK_SIZE. length (b_data sb (word_of_nat (b + 2)) s) = DEFAULT_BLOCK_SIZE))"

lemma b_data_set [simp]: "b_data sb b (set_b_data sb c x s) = (if b = c then x else b_data sb b s)"
  by (simp add: b_data_def set_b_data_def buffer_of_def split: option.splits)

lemma set_b_data_frame [simp]:
  "circular_buffer_start (set_b_data sb c x s) = circular_buffer_start s"
  "circular_buffer_end (set_b_data sb c x s) = circular_buffer_end s"
  "file_size (set_b_data sb c x s) = file_size s" "singleton_sb (set_b_data sb c x s) = singleton_sb s"
  "log_file_mutex (set_b_data sb c x s) = log_file_mutex s" "mounted (set_b_data sb c x s) = mounted s"
  "sb_lock (set_b_data sb c x s) = sb_lock s"
  by (simp_all add: set_b_data_def)

lemma length_copy_at [simp]: "i + length xs \<le> length b \<Longrightarrow> length (copy_at b i xs) = length b"
  by (simp add: copy_at_def)

lemma nth_copy_at:
  "i + length xs \<le> length b \<Longrightarrow> k < length b \<Longrightarrow>
   copy_at b i xs ! k = (if i \<le> k \<and> k < i + length xs then xs ! (k - i) else b ! k)"
  by (auto simp: copy_at_def nth_append)

lemma sector_inj:
  assumes "a + 2 < 2 ^ 64" and "b + 2 < 2 ^ 64"
  shows "(word_of_nat (a + 2) :: sector) = word_of_nat (b + 2) \<longleftrightarrow> a = b"
proof -
  have "unat (word_of_nat (a + 2) :: sector) = a + 2" "unat (word_of_nat (b + 2) :: sector) = b + 2"
    using assms by (simp_all only: unat_of_nat len_of_numeral_defs) simp_all
  then show ?thesis by (metis add_right_cancel)
qed

interpretation log_ring: chunk_ring "ring_byte sb" "put_ring sb" "ring_ok sb" DEFAULT_BLOCK_SIZE for sb
proof unfold_locales
  fix m s
  assume "ring_ok sb m s"
  then show "0 < m \<and> DEFAULT_BLOCK_SIZE dvd m" by (simp add: ring_ok_def)
next
  fix m s q and xs :: "char list"
  assume ok: "ring_ok sb m s" and q: "q < m" and fit: "q mod DEFAULT_BLOCK_SIZE + length xs \<le> DEFAULT_BLOCK_SIZE"
  have qb: "q div DEFAULT_BLOCK_SIZE < m div DEFAULT_BLOCK_SIZE" if "q < m" for q
    using that ok by (auto simp: ring_ok_def less_mult_imp_div_less elim!: dvdE)
  have blk: "length (b_data sb (word_of_nat (b + 2)) s) = DEFAULT_BLOCK_SIZE"
    if "b < m div DEFAULT_BLOCK_SIZE" for b using ok that by (simp add: ring_ok_def)
  have small: "b + 2 < 2 ^ 64" if "b < m div DEFAULT_BLOCK_SIZE" for b
    using ok that div_le_dividend [of m DEFAULT_BLOCK_SIZE] unfolding ring_ok_def by (simp del: div_le_dividend)
  show "ring_ok sb m (put_ring sb q xs s)"
    using ok blk [OF qb [OF q]] fit by (simp add: ring_ok_def put_ring_def Let_def)
  fix p
  assume p: "p < m"
  let ?B = DEFAULT_BLOCK_SIZE
  have same: "(word_of_nat (p div ?B + 2) :: sector) = word_of_nat (q div ?B + 2) \<longleftrightarrow> p div ?B = q div ?B"
    using sector_inj small qb p q by blast
  show "ring_byte sb (put_ring sb q xs s) p =
      (if q \<le> p \<and> p < q + length xs then xs ! (p - q) else ring_byte sb s p)"
  proof (cases "p div ?B = q div ?B")
    case True
    have pq: "p = ?B * (q div ?B) + p mod ?B" "q = ?B * (q div ?B) + q mod ?B"
      using True by (metis mult_div_mod_eq) simp
    have "(q mod ?B \<le> p mod ?B \<and> p mod ?B < q mod ?B + length xs) = (q \<le> p \<and> p < q + length xs)"
      "p mod ?B - q mod ?B = p - q" using pq by linarith+
    then show ?thesis
      using blk [OF qb [OF q]] fit same True
      by (simp add: ring_byte_def put_ring_def Let_def nth_copy_at)
  next
    case False
    have "\<not> (q \<le> p \<and> p < q + length xs)"
    proof
      assume a: "q \<le> p \<and> p < q + length xs"
      have "q = ?B * (q div ?B) + q mod ?B" by simp
      then have "p < ?B * (q div ?B) + ?B" using a fit by linarith
      then have "p div ?B < q div ?B + 1" by (simp add: less_mult_imp_div_less algebra_simps)
      moreover have "q div ?B \<le> p div ?B" using a by (simp add: div_le_mono)
      ultimately show False using False by simp
    qed
    then show ?thesis using same False by (simp only: ring_byte_def put_ring_def Let_def b_data_set if_False simp_thms)
  qed
qed



section \<open>The loops\<close>

text \<open>The slot of a position, when nothing overflows.\<close>

lemma sint_word_of_nat: "n < 2 ^ 63 \<Longrightarrow> sint (word_of_nat n :: 64 word) = int n"
  by (simp add: signed_of_nat signed_take_bit_int_eq_self)

lemma word_pos:
  assumes "e + c < 2 ^ 63" and "m < 2 ^ 63"
  shows "(word_of_nat e + word_of_nat c) mod (word_of_nat m :: 64 word) = word_of_nat ((e + c) mod m)"
proof -
  have "e + c < 2 ^ 64" using assms(1) by simp
  then have "(e + c) mod m < 2 ^ 64" by (rule le_less_trans [OF mod_less_eq_dividend])
  with assms show ?thesis
    by (simp add: word_eq_iff_unsigned [where ?'a = nat] unat_mod_distrib unat_of_nat flip: of_nat_add)
qed

lemma smod_nat: "int a smod 4096 = int (a mod 4096)" "int a sdiv 4096 = int (a div 4096)"
  by (cases "a = 0"; simp add: smod_int_alt_def signed_divide_int_def zmod_int zdiv_int)+

lemma log_slot_nat:
  assumes "e + len < 2 ^ 63" and "0 < m" and "m < 2 ^ 62" and "c \<le> len"
  shows "log_slot (word_of_nat e) c len (word_of_nat m) =
    (int ((e + c) mod m mod 4096), int (min (len - c) (4096 - (e + c) mod m mod 4096)),
     word_of_nat ((e + c) mod m div 4096 + 2))"
proof -
  have b: "(e + c) mod m < 2 ^ 63" 
    using mod_less_divisor [OF assms(2), of "e + c"] assms(3) by simp
  have p: "sint ((word_of_nat e + word_of_nat c) mod (word_of_nat m :: 64 word)) = int ((e + c) mod m)"
    using assms b by (subst word_pos) (simp_all add: sint_word_of_nat)
  have "(e + c) mod m mod 4096 < 4096" by simp
  then show ?thesis
    using assms(4) unfolding log_slot_def Let_def p of_nat_numeral smod_nat
    by (auto simp: of_nat_diff min_def simp flip: of_nat_add)
qed

text \<open>One round of a loop appends the bytes that fit in the block.\<close>

definition next_chunk :: "nat \<Rightarrow> nat \<Rightarrow> nat \<Rightarrow> nat \<Rightarrow> nat" where
  "next_chunk e m len c = min (len - c) (4096 - (e + c) mod m mod 4096)"

definition next_sector :: "nat \<Rightarrow> nat \<Rightarrow> nat \<Rightarrow> sector" where
  "next_sector e m c = word_of_nat ((e + c) mod m div 4096 + 2)"

lemma internal_loop_step:
  assumes "file_size s = word_of_nat m" and "e + len < 2 ^ 63" and "0 < m" and "m < 2 ^ 62" and "c < len"
    and "singleton_sb s = Some sb"
  shows "internal_loop io payload len (word_of_nat e) n c s =
    (if \<not> io n sb (next_sector e m c) then Inr (s, None)
     else
       let d = next_chunk e m len c; t = put_ring sb ((e + c) mod m) (take d (drop c payload)) s in
       if c + d \<noteq> len then internal_loop io payload len (word_of_nat e) (Suc n) (c + d) t
       else Inr (t, Some (c + d)))"
proof -
  have m: "(word_of_nat m :: 64 word) \<noteq> 0"
    using assms(3,4) by (auto simp: word_of_nat_eq_0_iff dest!: dvd_imp_le)
  have slot: "log_slot (word_of_nat e) c len (word_of_nat m) =
    (int ((e + c) mod m mod 4096), int (next_chunk e m len c), next_sector e m c)"
    using log_slot_nat [of e len m c] assms by (simp add: next_chunk_def next_sector_def)
  show ?thesis
    by (subst internal_loop.simps)
      (simp add: assms(1,6) m slot put_ring_def next_sector_def Let_def)
qed

lemma user_loop_step:
  assumes "file_size s = word_of_nat m" and "e + len < 2 ^ 63" and "0 < m" and "m < 2 ^ 62" and "c \<le> len"
    and "singleton_sb s = Some sb"
  shows "user_loop io buf len (word_of_nat e) n c s =
    (if \<not> io n sb (next_sector e m c) then Inr (s, c)
     else
       let d = next_chunk e m len c; src = take d (drop c buf);
         t = put_ring sb ((e + c) mod m) (src @ replicate (d - length src) NUL) s in
       if length src \<noteq> d then Inr (t, c + length src)
       else if c + d \<noteq> len then user_loop io buf len (word_of_nat e) (Suc n) (c + d) t
       else Inr (t, c + d))"
proof -
  have m: "(word_of_nat m :: 64 word) \<noteq> 0"
    using assms(3,4) by (auto simp: word_of_nat_eq_0_iff dest!: dvd_imp_le)
  have slot: "log_slot (word_of_nat e) c len (word_of_nat m) =
    (int ((e + c) mod m mod 4096), int (next_chunk e m len c), next_sector e m c)"
    using log_slot_nat [of e len m c] assms by (simp add: next_chunk_def next_sector_def)
  have l: "(d - length (take d xs) \<noteq> 0) = (length (take d xs) \<noteq> d)"
    "d - (d - length (take d xs)) = length (take d xs)" for d and xs :: "char list" by auto
  show ?thesis
    by (subst user_loop.simps)
      (simp only: assms(1,6) m slot put_ring_def next_sector_def Let_def option.case prod.case if_False
         of_nat_less_0_iff nat_int simp_thms l)
qed


section \<open>Writing appends\<close>

text \<open>
  The ring of \<open>m\<close> positions on the device of \<open>sb\<close> holds the end of a history.
\<close>

definition ring_holds :: "super_block \<Rightarrow> nat \<Rightarrow> logfs \<Rightarrow> char list \<Rightarrow> bool" where
  "ring_holds sb m s l = (ring_ok sb m s \<and> contents (ring_byte sb s) m l)"

lemma put_ring_frame [simp]:
  "circular_buffer_start (put_ring sb q xs s) = circular_buffer_start s"
  "circular_buffer_end (put_ring sb q xs s) = circular_buffer_end s"
  "file_size (put_ring sb q xs s) = file_size s" "singleton_sb (put_ring sb q xs s) = singleton_sb s"
  "log_file_mutex (put_ring sb q xs s) = log_file_mutex s" "mounted (put_ring sb q xs s) = mounted s"
  "sb_lock (put_ring sb q xs s) = sb_lock s"
  by (simp_all add: put_ring_def Let_def)

definition same_globals :: "logfs \<Rightarrow> logfs \<Rightarrow> bool" where
  "same_globals s t =
     (circular_buffer_start t = circular_buffer_start s \<and> circular_buffer_end t = circular_buffer_end s \<and>
      file_size t = file_size s \<and> singleton_sb t = singleton_sb s \<and> log_file_mutex t = log_file_mutex s \<and>
      mounted t = mounted s \<and> sb_lock t = sb_lock s)"

lemma same_globals_refl [simp]: "same_globals s s"
  by (simp add: same_globals_def)

lemma same_globals_put [simp]: "same_globals s (put_ring sb q xs t) = same_globals s t"
  by (simp add: same_globals_def)

lemma ring_holds_chunk:
  assumes h: "ring_holds sb m s (h @ take c p)" and c: "c \<le> length p"
    and x: "length x \<le> 4096 - (length h + c) mod m mod 4096"
  shows "ring_holds sb m (put_ring sb ((length h + c) mod m) x s) (h @ take c p @ x)"
proof -
  have ok: "ring_ok sb m s" and k: "contents (ring_byte sb s) m (h @ take c p)"
    using h by (simp_all add: ring_holds_def)
  have l: "length (h @ take c p) = length h + c" using c by simp
  have "4096 dvd m" using ok by (simp add: ring_ok_def)
  then have b: "(length h + c) mod m mod 4096 = (length h + c) mod 4096" by (simp add: mod_mod_cancel)
  have "(length h + c) mod 4096 < 4096" by simp
  with x have fit: "length (h @ take c p) mod 4096 + length x \<le> 4096" unfolding l b by linarith
  from log_ring.put_appends [OF ok k fit] show ?thesis unfolding l ring_holds_def by simp
qed

lemma take_chunk: "d \<le> length p - c \<Longrightarrow> take c p @ take d (drop c p) = take (c + d) p"
  by (simp add: take_add)

lemma internal_loop_appends:
  assumes "file_size s = word_of_nat m" and "length h + len < 2 ^ 63" and "singleton_sb s = Some sb"
    and "c < len" and "len \<le> length p"
    and "ring_holds sb m s (h @ take c p)"
    and "\<forall>n k. k < len \<longrightarrow> io n sb (next_sector (length h) m k)"
  shows "\<exists>t. internal_loop io p len (word_of_nat (length h)) n c s = Inr (t, Some len) \<and>
    ring_holds sb m t (h @ take len p) \<and> same_globals s t"
  using assms
proof (induction "len - c" arbitrary: c n s rule: less_induct)
  case less
  let ?e = "length h"
  let ?d = "next_chunk ?e m len c"
  let ?t = "put_ring sb ((?e + c) mod m) (take ?d (drop c p)) s"
  have m: "0 < m" "m < 2 ^ 62" using less.prems(6) by (simp_all add: ring_holds_def ring_ok_def)
  have "(?e + c) mod m mod 4096 < 4096" by simp
  then have d: "0 < ?d" "?d \<le> len - c" "?d \<le> 4096 - (?e + c) mod m mod 4096"
    using less.prems(4) by (auto simp: next_chunk_def)
  have io: "io n sb (next_sector ?e m c)" using less.prems(4,7) by blast
  have "ring_holds sb m ?t (h @ take c p @ take ?d (drop c p))"
    by (rule ring_holds_chunk [OF less.prems(6)]) (use less.prems(4,5) d in auto)
  then have t: "ring_holds sb m ?t (h @ take (c + ?d) p)"
    using d(2) less.prems(5) by (simp add: take_chunk)
  note step = internal_loop_step [OF less.prems(1,2) m less.prems(4,3), of io p n]
  show ?case
  proof (cases "c + ?d = len")
    case True
    with step io t show ?thesis by (simp add: Let_def)
  next
    case False
    have "\<exists>u. internal_loop io p len (word_of_nat ?e) (Suc n) (c + ?d) ?t = Inr (u, Some len) \<and>
      ring_holds sb m u (h @ take len p) \<and> same_globals ?t u"
      by (rule less.hyps) (use less.prems t d False in auto)
    with step io False show ?thesis by (auto simp: Let_def same_globals_def)
  qed
qed



text \<open>
  A copy from user space that stops early fills the rest of its run with zeros. The zeros lie behind the
  end of the history; on a full ring their positions are those of the oldest bytes. \<open>wiped m z l\<close> is
  the history \<open>l\<close> after \<open>z\<close> zeros were written behind its end.
\<close>

definition wiped :: "nat \<Rightarrow> nat \<Rightarrow> char list \<Rightarrow> char list" where
  "wiped m z l = map (\<lambda>i. if length l \<le> i + m \<and> i + m < length l + z then NUL else l ! i) [0..<length l]"

lemma length_wiped [simp]: "length (wiped m z l) = length l"
  by (simp add: wiped_def)

lemma wiped_same: "length l + z \<le> m \<or> z = 0 \<Longrightarrow> wiped m z l = l"
  by (rule nth_equalityI) (auto simp: wiped_def)

lemma contents_wiped:
  assumes c: "contents g m (l @ replicate z NUL)" and z: "z \<le> m"
  shows "contents g m (wiped m z l)"
  unfolding contents_def length_wiped
proof (intro allI impI)
  fix i
  assume i: "length l - m \<le> i \<and> i < length l"
  show "g (i mod m) = wiped m z l ! i"
  proof (cases "i + m < length l + z")
    case True
    have "g ((i + m) mod m) = (l @ replicate z NUL) ! (i + m)"
      using i z True by (intro c [unfolded contents_def, rule_format]) auto
    with i True show ?thesis by (auto simp: wiped_def nth_append)
  next
    case False
    then have "g (i mod m) = (l @ replicate z NUL) ! i"
      using c i by (auto simp: contents_def)
    with i False show ?thesis by (simp add: wiped_def nth_append)
  qed
qed

lemma next_chunk_rest:
  assumes "4096 dvd m" and "r < next_chunk e m len c"
  shows "next_chunk e m len (c + r) = next_chunk e m len c - r"
proof -
  have b: "x mod m mod 4096 = x mod 4096" for x using assms(1) by (simp add: mod_mod_cancel)
  have "(e + c) mod 4096 + r < 4096" 
    using assms(2) mod_less_divisor [of 4096 "e + c"] unfolding next_chunk_def b by linarith
  then have "(e + (c + r)) mod 4096 = (e + c) mod 4096 + r" using mod_shift [of "e + c" 4096 r] by (simp add: add.assoc)
  then show ?thesis unfolding next_chunk_def b by linarith
qed

text \<open>
  For user space the loop ends in every case, with the bytes it reports in the ring, and zeros up to the
  end of the block (or of the request) behind them when the copy stopped early.
\<close>

lemma user_loop_short:
  assumes h: "ring_holds sb m s (h @ take c p)" and c: "c \<le> length p"
    and s: "length (take (next_chunk (length h) m len c) (drop c p)) < next_chunk (length h) m len c"
  defines "r \<equiv> length (take (next_chunk (length h) m len c) (drop c p))"
  shows "c + r = length p"
    and "ring_holds sb m (put_ring sb ((length h + c) mod m)
      (take (next_chunk (length h) m len c) (drop c p) @ replicate (next_chunk (length h) m len c - r) NUL) s)
      (wiped m (next_chunk (length h) m len (c + r)) (h @ take (c + r) p))"
proof -
  let ?d = "next_chunk (length h) m len c"
  let ?z = "?d - r"
  have m: "0 < m" "4096 dvd m" using h by (simp_all add: ring_holds_def ring_ok_def)
  have d: "?d \<le> 4096 - (length h + c) mod m mod 4096" by (simp add: next_chunk_def)
  show r: "c + r = length p" using s c by (simp add: r_def min_def split: if_splits)
  then have src: "take ?d (drop c p) = drop c p" using s c by (simp add: r_def min_def split: if_splits)
  have "ring_holds sb m (put_ring sb ((length h + c) mod m) (take ?d (drop c p) @ replicate ?z NUL) s)
    (h @ take c p @ take ?d (drop c p) @ replicate ?z NUL)"
    by (rule ring_holds_chunk [OF h c]) (use d s in \<open>simp add: r_def\<close>)
  then have "ring_holds sb m (put_ring sb ((length h + c) mod m) (take ?d (drop c p) @ replicate ?z NUL) s)
    ((h @ take (c + r) p) @ replicate ?z NUL)"
    by (simp add: src r) (metis append_assoc append_take_drop_id)
  moreover have "?z \<le> m" using d dvd_imp_le [OF m(2,1)] by linarith
  moreover have "next_chunk (length h) m len (c + r) = ?z"
    by (rule next_chunk_rest [OF m(2)]) (use s in \<open>simp add: r_def\<close>)
  ultimately show "ring_holds sb m (put_ring sb ((length h + c) mod m) (take ?d (drop c p) @ replicate ?z NUL) s)
      (wiped m (next_chunk (length h) m len (c + r)) (h @ take (c + r) p))"
    by (simp add: ring_holds_def contents_wiped)
qed

lemma user_loop_appends:
  assumes "file_size s = word_of_nat m" and "length h + len < 2 ^ 63" and "singleton_sb s = Some sb"
    and "c \<le> len" and "c \<le> length p" and "ring_holds sb m s (h @ take c p)"
  shows "\<exists>t k z. user_loop io p len (word_of_nat (length h)) n c s = Inr (t, k) \<and>
    c \<le> k \<and> k \<le> min len (length p) \<and> ring_holds sb m t (wiped m z (h @ take k p)) \<and>
    (z = 0 \<or> z = next_chunk (length h) m len k) \<and> same_globals s t \<and>
    ((\<forall>n k. k \<le> len \<longrightarrow> io n sb (next_sector (length h) m k)) \<longrightarrow>
      k = min len (length p) \<and> z = next_chunk (length h) m len k)"
  using assms
proof (induction "len - c" arbitrary: c n s rule: less_induct)
  case less
  let ?e = "length h"
  let ?d = "next_chunk ?e m len c"
  let ?src = "take ?d (drop c p)"
  let ?t = "put_ring sb ((?e + c) mod m) ?src s"
  have m: "0 < m" "m < 2 ^ 62" using less.prems(6) by (simp_all add: ring_holds_def ring_ok_def)
  have "(?e + c) mod m mod 4096 < 4096" by simp
  then have d: "c < len \<Longrightarrow> 0 < ?d" "?d \<le> len - c" "?d \<le> 4096 - (?e + c) mod m mod 4096"
    by (auto simp: next_chunk_def)
  note step = user_loop_step [OF less.prems(1,2) m less.prems(4,3), of io p n]
  have t: "ring_holds sb m ?t (h @ take (c + ?d) p)" if "length ?src = ?d"
  proof -
    have "ring_holds sb m ?t (h @ take c p @ ?src)"
      by (rule ring_holds_chunk [OF less.prems(6,5)]) (use d in auto)
    with that show ?thesis by (simp add: take_add)
  qed
  consider (null) "\<not> io n sb (next_sector ?e m c)"
    | (short) "io n sb (next_sector ?e m c)" "length ?src < ?d"
    | (last) "io n sb (next_sector ?e m c)" "length ?src = ?d" "c + ?d = len"
    | (more) "io n sb (next_sector ?e m c)" "length ?src = ?d" "c + ?d \<noteq> len" by fastforce
  then show ?case
  proof cases
    case null
    with step less.prems(4-6) show ?thesis
      by (intro exI [of _ s] exI [of _ c] exI [of _ 0]) (auto simp: wiped_same)
  next
    case short
    note S = user_loop_short [OF less.prems(6,5) short(2)]
    from short step have "user_loop io p len (word_of_nat ?e) n c s = Inr (put_ring sb ((?e + c) mod m)
      (?src @ replicate (?d - length ?src) NUL) s, c + length ?src)" by (simp only: Let_def if_True if_False simp_thms less_imp_neq)
    moreover have "c + length ?src \<le> len" using short(2) d(2) by linarith
    ultimately show ?thesis using S by (intro exI conjI) (assumption | simp)+
  next
    case last
    then have "len \<le> length p" using less.prems(5) by (auto simp: min_def split: if_splits)
    moreover have "next_chunk ?e m len len = 0" by (simp add: next_chunk_def)
    ultimately show ?thesis using last step t
      by (intro exI [of _ ?t] exI [of _ len] exI [of _ 0]) (auto simp: Let_def wiped_same)
  next
    case more
    then have c: "c < len" "c + ?d \<le> len" using d(2) less.prems(4) by linarith+
    have p: "c + ?d \<le> length p" using more(2) less.prems(5) by (simp add: min_def split: if_splits)
    have run: "user_loop io p len (word_of_nat ?e) n c s = user_loop io p len (word_of_nat ?e) (Suc n) (c + ?d) ?t"
      using step by (simp only: Let_def more not_True_eq_False not_False_eq_True if_True if_False
        diff_self_eq_0 replicate_0 append_Nil2 simp_thms)
    have "\<exists>u k z. user_loop io p len (word_of_nat ?e) (Suc n) (c + ?d) ?t = Inr (u, k) \<and>
      c + ?d \<le> k \<and> k \<le> min len (length p) \<and> ring_holds sb m u (wiped m z (h @ take k p)) \<and>
      (z = 0 \<or> z = next_chunk (length h) m len k) \<and> same_globals ?t u \<and>
      ((\<forall>n k. k \<le> len \<longrightarrow> io n sb (next_sector (length h) m k)) \<longrightarrow>
        k = min len (length p) \<and> z = next_chunk (length h) m len k)"
    proof (rule less.hyps)
      show "len - (c + ?d) < len - c" using d(1) c by linarith
      show "ring_holds sb m ?t (h @ take (c + ?d) p)" by (rule t [OF more(2)])
    qed (use less.prems(1-3) c(2) p in simp_all)
    then obtain u k z where "user_loop io p len (word_of_nat ?e) (Suc n) (c + ?d) ?t = Inr (u, k)"
      "c + ?d \<le> k" "k \<le> min len (length p)" "ring_holds sb m u (wiped m z (h @ take k p))"
      "z = 0 \<or> z = next_chunk (length h) m len k" "same_globals ?t u"
      "(\<forall>n k. k \<le> len \<longrightarrow> io n sb (next_sector (length h) m k)) \<longrightarrow>
        k = min len (length p) \<and> z = next_chunk (length h) m len k" by blast
    then show ?thesis unfolding run by (intro exI [of _ u] exI [of _ k] exI [of _ z]) (simp add: same_globals_def)
  qed
qed

text \<open>
  The specification: the ring of a mounted device holds the end of the history \<open>h\<close>, and the two
  counters are its length and the number of bytes that are lost.
\<close>

definition holds_log :: "super_block \<Rightarrow> logfs \<Rightarrow> char list \<Rightarrow> bool" where
  "holds_log sb s h =
     (ring_holds sb (unat (file_size s)) s h \<and> length h < 2 ^ 62 \<and> singleton_sb s = Some sb \<and>
      circular_buffer_end s = word_of_nat (length h) \<and>
      circular_buffer_start s = word_of_nat (length h - unat (file_size s)))"

lemma ring_holds_frame:
  assumes "devices t = devices s"
  shows "ring_holds sb m t = ring_holds sb m s"
proof -
  have b: "b_data sb b t = b_data sb b s" for b by (simp only: b_data_def assms)
  then have "ring_byte sb t = ring_byte sb s" by (intro ext) (simp only: ring_byte_def)
  with b show ?thesis by (intro ext) (simp only: ring_holds_def ring_ok_def)
qed

lemma word_of_nat_le: "a < 2 ^ 64 \<Longrightarrow> b < 2 ^ 64 \<Longrightarrow> (word_of_nat a :: 64 word) \<le> word_of_nat b \<longleftrightarrow> a \<le> b"
  by (simp add: word_le_nat_alt unat_of_nat)

lemma devices_advance [simp]: "devices (advance n s) = devices s"
  "file_size (advance n s) = file_size s" "singleton_sb (advance n s) = singleton_sb s"
  "mounted (advance n s) = mounted s" "sb_lock (advance n s) = sb_lock s"
  by (simp_all add: advance_def Let_def)

lemma advance_counts:
  assumes e: "circular_buffer_end s = word_of_nat e" and st: "circular_buffer_start s = word_of_nat (e - unat (file_size s))"
    and small: "e + n < 2 ^ 62" "unat (file_size s) < 2 ^ 62"
  shows "circular_buffer_end (advance n s) = word_of_nat (e + n) \<and>
    circular_buffer_start (advance n s) = word_of_nat (e + n - unat (file_size s))"
proof -
  let ?m = "unat (file_size s)"
  have m: "file_size s = word_of_nat ?m" by simp
  have c1: "file_size s \<le> word_of_nat e \<longleftrightarrow> ?m \<le> e"
    by (subst m, rule word_of_nat_le) (use small in auto)
  have c2: "file_size s \<le> word_of_nat e + word_of_nat n \<longleftrightarrow> ?m \<le> e + n"
    unfolding of_nat_add [symmetric] by (subst m, rule word_of_nat_le) (use small in auto)
  consider "?m \<le> e" | "e < ?m" "?m \<le> e + n" | "e + n < ?m" by linarith
  then show ?thesis
  proof cases
    case 1
    then have "word_of_nat (e + n - ?m) = (word_of_nat (e - ?m) + word_of_nat n :: 64 word)"
      by (simp flip: of_nat_add)
    with 1 show ?thesis by (simp add: advance_def Let_def c1 c2 st e)
  next
    case 2
    then have "word_of_nat (e + n - ?m) = (word_of_nat e + word_of_nat n - file_size s :: 64 word)"
      by (simp add: of_nat_diff)
    with 2 show ?thesis by (simp add: advance_def Let_def c1 c2 st e)
  next
    case 3
    then show ?thesis by (simp add: advance_def Let_def c1 c2 st e)
  qed
qed

lemma holds_log_advance:
  assumes h: "holds_log sb s h" and t: "same_globals s t"
    and r: "ring_holds sb (unat (file_size s)) t h'" and small: "length h + n < 2 ^ 62" "length h' = length h + n"
  shows "holds_log sb ((advance n t)\<lparr>log_file_mutex := b\<rparr>) h'"
proof -
  have f: "file_size t = file_size s" "circular_buffer_end t = word_of_nat (length h)"
    "circular_buffer_start t = word_of_nat (length h - unat (file_size t))" "singleton_sb t = Some sb"
    using h t by (auto simp: holds_log_def same_globals_def)
  have m: "unat (file_size t) < 2 ^ 62" using r by (simp add: ring_holds_def ring_ok_def f(1))
  have fr: "ring_holds sb k ((advance n t)\<lparr>log_file_mutex := b\<rparr>) = ring_holds sb k t" for k
    by (rule ring_holds_frame) simp
  from advance_counts [OF f(2,3) small(1) m] show ?thesis
    using r small f by (simp add: holds_log_def fr)
qed


lemma holds_log_size:
  assumes "holds_log sb s h"
  shows "file_size s = word_of_nat (unat (file_size s))" "0 < unat (file_size s)" "unat (file_size s) < 2 ^ 62"
    "4096 dvd unat (file_size s)" "singleton_sb s = Some sb" "ring_holds sb (unat (file_size s)) s h"
    "circular_buffer_end s = word_of_nat (length h)"
  using assms by (simp_all add: holds_log_def ring_holds_def ring_ok_def)

lemma ring_holds_mutex [simp]:
  "ring_holds sb m (s\<lparr>log_file_mutex := b\<rparr>) = ring_holds sb m s"
  by (rule ring_holds_frame) simp

lemma holds_log_mutex [simp]: "holds_log sb (s\<lparr>log_file_mutex := b\<rparr>) h = holds_log sb s h"
  by (simp add: holds_log_def)

lemma internal_write_appends_log:
  assumes h: "holds_log sb s h" and free: "\<not> log_file_mutex s" "mounted s" and t: "terminated p"
    and small: "length h + strlen p < 2 ^ 62"
    and io: "\<forall>n k. k < strlen p \<longrightarrow> io n sb (next_sector (length h) (unat (file_size s)) k)"
  shows "\<exists>s'. internal_logfilefs_write io p s = Inr s' \<and> holds_log sb s' (h @ c_str p) \<and>
    \<not> log_file_mutex s' \<and> mounted s' \<and> sb_lock s' = sb_lock s \<and> file_size s' = file_size s"
proof (cases "strlen p = 0")
  case True
  then have "c_str p = []" by (simp add: strlen_def)
  with True t h free show ?thesis by (auto simp: internal_logfilefs_write_def Let_def)
next
  case False
  let ?m = "unat (file_size s)" and ?s = "s\<lparr>log_file_mutex := True\<rparr>"
  note S = holds_log_size [OF h]
  have tk: "take (strlen p) p = c_str p" using t
    by (metis append_eq_conv_conj strlen_def terminated_split)
  have len: "strlen p \<le> length p" using t by (metis length_append le_add1 strlen_def terminated_split)
  have "\<exists>u. internal_loop io p (strlen p) (word_of_nat (length h)) 0 0 ?s = Inr (u, Some (strlen p)) \<and>
    ring_holds sb ?m u (h @ take (strlen p) p) \<and> same_globals ?s u"
    by (rule internal_loop_appends) (use S small False len io in auto)
  then obtain u where u: "internal_loop io p (strlen p) (word_of_nat (length h)) 0 0 ?s = Inr (u, Some (strlen p))"
    "ring_holds sb ?m u (h @ c_str p)" "same_globals ?s u" unfolding tk by blast
  have "holds_log sb ((advance (length (c_str p)) u)\<lparr>log_file_mutex := False\<rparr>) (h @ c_str p)"
    by (rule holds_log_advance [OF _ u(3)]) (use h u(2) small in \<open>auto simp: strlen_def\<close>)
  then show ?thesis
    using t False free u(1,3) S(7)
    by (auto simp: internal_logfilefs_write_def Let_def strlen_def same_globals_def)
qed

lemma user_write_appends_log:
  assumes h: "holds_log sb s h" and free: "\<not> log_file_mutex s" and small: "length h + len < 2 ^ 62"
  shows "\<exists>s' k z. logfilefs_write io buf len s = Inr (s', k, word_of_nat (length h + k)) \<and>
    k \<le> min len (length buf) \<and> holds_log sb s' (wiped (unat (file_size s)) z (h @ take k buf)) \<and>
    (z = 0 \<or> z = next_chunk (length h) (unat (file_size s)) len k) \<and>
    ((\<forall>n k. k \<le> len \<longrightarrow> io n sb (next_sector (length h) (unat (file_size s)) k)) \<longrightarrow>
      k = min len (length buf) \<and> z = next_chunk (length h) (unat (file_size s)) len k) \<and>
    \<not> log_file_mutex s' \<and> mounted s' = mounted s \<and> file_size s' = file_size s"
proof -
  let ?m = "unat (file_size s)" and ?s = "s\<lparr>log_file_mutex := True\<rparr>"
  note S = holds_log_size [OF h]
  have "\<exists>t k z. user_loop io buf len (word_of_nat (length h)) 0 0 ?s = Inr (t, k) \<and>
    0 \<le> k \<and> k \<le> min len (length buf) \<and> ring_holds sb ?m t (wiped ?m z (h @ take k buf)) \<and>
    (z = 0 \<or> z = next_chunk (length h) ?m len k) \<and> same_globals ?s t \<and>
    ((\<forall>n k. k \<le> len \<longrightarrow> io n sb (next_sector (length h) ?m k)) \<longrightarrow>
      k = min len (length buf) \<and> z = next_chunk (length h) ?m len k)"
    by (rule user_loop_appends) (use S small in auto)
  then obtain t k z where r: "user_loop io buf len (word_of_nat (length h)) 0 0 ?s = Inr (t, k)"
    "k \<le> min len (length buf)" "ring_holds sb ?m t (wiped ?m z (h @ take k buf))" "same_globals ?s t"
    "z = 0 \<or> z = next_chunk (length h) ?m len k"
    "(\<forall>n k. k \<le> len \<longrightarrow> io n sb (next_sector (length h) ?m k)) \<longrightarrow>
      k = min len (length buf) \<and> z = next_chunk (length h) ?m len k" by blast
  have fin: "holds_log sb ((advance k t)\<lparr>log_file_mutex := False\<rparr>) (wiped ?m z (h @ take k buf))"
    by (rule holds_log_advance [OF _ r(4)]) (use h r(2,3) small in auto)
  then have "circular_buffer_end (advance k t) = word_of_nat (length h + k)"
    using r(2) by (simp add: holds_log_def)
  then have run: "logfilefs_write io buf len s =
      Inr ((advance k t)\<lparr>log_file_mutex := False\<rparr>, k, word_of_nat (length h + k))"
    using r(1) S(7) free by (simp add: logfilefs_write_def Let_def)
  have g: "mounted t = mounted s" "file_size t = file_size s" using r(4) by (simp_all add: same_globals_def)
  show ?thesis
    by (rule exI [of _ "(advance k t)\<lparr>log_file_mutex := False\<rparr>"], rule exI [of _ k], rule exI [of _ z], intro conjI)
      (use run r(2,5,6) fin g in simp_all)
qed



section \<open>Reading\<close>

text \<open>What one call of \<open>onefilefs_read\<close> gives: no more than is left in the log and in the block.\<close>

definition read_span :: "nat \<Rightarrow> nat \<Rightarrow> nat \<Rightarrow> nat" where
  "read_span e pos l = min l (min (e - pos) (4096 - pos mod 4096))"

lemma sint_small: "unat (w :: 64 word) < 2 ^ 63 \<Longrightarrow> sint w = int (unat w)"
  using sint_word_of_nat [of "unat w"] by simp

lemma word_of_nat_less: "a < 2 ^ 64 \<Longrightarrow> b < 2 ^ 64 \<Longrightarrow> (word_of_nat a :: 64 word) < word_of_nat b \<longleftrightarrow> a < b"
  by (simp add: word_less_nat_alt unat_of_nat)

lemma block_mod:
  assumes "4096 dvd m" and "(0::nat) < m" and "pos mod 4096 + j < 4096"
  shows "(pos + j) mod m = pos mod m + j" and "(pos mod m + j) div 4096 = pos mod m div 4096"
    and "(pos mod m + j) mod 4096 = pos mod 4096 + j"
proof -
  have "pos mod m + Suc j \<le> m" by (rule mod_fits [OF assms(1,2)]) (use assms(3) in simp)
  then show "(pos + j) mod m = pos mod m + j" by (intro mod_shift) simp
  have r: "pos mod m mod 4096 = pos mod 4096" using assms(1) by (simp add: mod_mod_cancel)
  have e: "pos mod m + j = (pos mod 4096 + j) + 4096 * (pos mod m div 4096)"
    using r by (metis add.assoc add.commute mult_div_mod_eq)
  show "(pos mod m + j) div 4096 = pos mod m div 4096"
    unfolding e using assms(3) by (subst div_mult_self2) simp_all
  show "(pos mod m + j) mod 4096 = pos mod 4096 + j"
    unfolding e using assms(3) by (subst mod_mult_self2) simp
qed

lemma wrap_clamp:
  assumes "4096 dvd m" and "(0::nat) < m"
  shows "min (if (pos + l) mod m < pos mod m then m - pos mod m else l) (4096 - pos mod 4096) =
    min l (4096 - pos mod 4096)"
proof (cases "(pos + l) mod m < pos mod m")
  case True
  have "m \<le> pos mod m + l"
  proof (rule ccontr)
    assume "\<not> m \<le> pos mod m + l"
    then have "(pos + l) mod m = pos mod m + l" by (intro mod_shift) simp
    with True show False by simp
  qed
  moreover have "pos mod m + (4096 - pos mod 4096) \<le> m"
    by (rule mod_fits [OF assms]) (simp add: le_diff_conv2 order_less_imp_le)
  ultimately show ?thesis using True by simp
qed simp

lemma ring_block:
  assumes h: "ring_holds sb m s h" and pos: "length h - m \<le> pos"
    and n: "n \<le> length h - pos" "n \<le> 4096 - pos mod 4096"
  shows "take n (drop (pos mod 4096) (b_data sb (word_of_nat (pos mod m div 4096 + 2)) s)) = take n (drop pos h)"
proof (rule nth_equalityI)
  have m: "0 < m" "4096 dvd m" and ok: "ring_ok sb m s" using h by (simp_all add: ring_holds_def ring_ok_def)
  have "pos mod m div 4096 < m div 4096"
    using m by (auto simp: less_mult_imp_div_less elim!: dvdE)
  then have len: "length (b_data sb (word_of_nat (pos mod m div 4096 + 2)) s) = 4096"
    using ok by (simp add: ring_ok_def)
  show l: "length (take n (drop (pos mod 4096) (b_data sb (word_of_nat (pos mod m div 4096 + 2)) s))) =
      length (take n (drop pos h))" using len n by simp
  fix j
  assume "j < length (take n (drop (pos mod 4096) (b_data sb (word_of_nat (pos mod m div 4096 + 2)) s)))"
  then have "j < length (take n (drop pos h))" by (simp only: l)
  then have j0: "j < n" by simp
  then have j: "j < n" "pos mod 4096 + j < 4096" "pos + j < length h" using n by linarith+
  note B = block_mod [OF m(2,1) j(2)]
  have "ring_byte sb s ((pos + j) mod m) = h ! (pos + j)"
    using h pos j(3) by (simp add: ring_holds_def contents_def)
  then show "take n (drop (pos mod 4096) (b_data sb (word_of_nat (pos mod m div 4096 + 2)) s)) ! j =
      take n (drop pos h) ! j"
    using j len unfolding ring_byte_def B by simp
qed

lemma sector_32:
  assumes "b + 2 < 2 ^ 31"
  shows "(scast (word_of_int (int (b + 2)) :: 32 word) :: sector) = word_of_nat (b + 2)"
proof -
  have "sint (word_of_int (int (b + 2)) :: 32 word) = int (b + 2)"
    unfolding signed_of_int by (subst signed_take_bit_int_eq_self) (use assms in simp_all)
  then show ?thesis by (simp only: scast_eq of_int_of_nat_eq)
qed


lemma clamp_word:
  assumes n: "min l (4096 - r) = n" and r: "r < 4096" and l: "l < 2 ^ 62"
  shows "(if word_of_nat DEFAULT_BLOCK_SIZE < word_of_int (int r) + (word_of_nat l :: 64 word)
     then word_of_nat DEFAULT_BLOCK_SIZE - word_of_int (int r) else word_of_nat l) = (word_of_nat n :: 64 word)"
proof -
  have "(word_of_nat DEFAULT_BLOCK_SIZE :: 64 word) < word_of_nat (r + l) \<longleftrightarrow> DEFAULT_BLOCK_SIZE < r + l"
    by (rule word_of_nat_less) (use r l in simp_all)
  then have lt: "(word_of_nat DEFAULT_BLOCK_SIZE :: 64 word) < word_of_int (int r) + word_of_nat l \<longleftrightarrow> 4096 < r + l"
    by (simp only: of_int_of_nat_eq of_nat_add)
  have df: "word_of_nat DEFAULT_BLOCK_SIZE - word_of_int (int r) = (word_of_nat (4096 - r) :: 64 word)"
    using r by (simp only: of_int_of_nat_eq of_nat_diff order_less_imp_le)
  show ?thesis
  proof (cases "4096 < r + l")
    case True
    then have "n = 4096 - r" using n by (simp add: min_def split: if_splits)
    with True df lt show ?thesis by simp
  next
    case False
    then have "n = l" using n by (simp add: min_def split: if_splits)
    with False show ?thesis by (simp only: lt if_False)
  qed
qed

text \<open>A read at any offset, when the counters are small.\<close>

lemma read_log:
  assumes h: "holds_log sb s h" and free: "\<not> log_file_mutex s"
    and small: "unat off < 2 ^ 62" "unat len < 2 ^ 62" "unat (file_size s) div 4096 + 2 < 2 ^ 31"
    and pos: "pos = max (unat off) (length h - unat (file_size s))"
  shows "onefilefs_read io sb room len off s =
    (if length h \<le> pos then Inr (s, [], 0, word_of_nat pos)
     else if \<not> io 0 sb (word_of_nat (pos mod unat (file_size s) div 4096 + 2))
     then Inr (s, [], - EIO, word_of_nat pos)
     else let k = min (read_span (length h) pos (unat len)) room in
       Inr (s, take k (drop pos h), int k, word_of_nat (pos + k)))"
proof -
  let ?m = "unat (file_size s)" and ?e = "length h"
  note S = holds_log_size [OF h]
  have e: "?e < 2 ^ 62" and st: "circular_buffer_start s = word_of_nat (?e - ?m)"
    using h by (simp_all add: holds_log_def)
  have p62: "pos < 2 ^ 62" using small(1) e pos by simp
  have fs: "file_size s \<noteq> 0" using S(2) by auto
  have o1: "(if sint off < sint (circular_buffer_start s) then circular_buffer_start s else off) = word_of_nat pos"
  proof -
    have "sint off = int (unat off)" "sint (circular_buffer_start s) = int (?e - ?m)"
      using small(1) e by (simp_all add: st sint_word_of_nat sint_small)
    then have lt: "sint off < sint (circular_buffer_start s) \<longleftrightarrow> unat off < ?e - ?m"
      by (simp only: of_nat_less_iff)
    have "?e - ?m = unat off \<Longrightarrow> word_of_nat (?e - ?m) = off" by simp
    then show ?thesis unfolding lt using pos by (auto simp: st max_def)
  qed
  have o2: "sint (circular_buffer_end s) \<le> sint (word_of_nat pos :: 64 word) \<longleftrightarrow> ?e \<le> pos"
    using e p62 by (simp add: S(7) sint_word_of_nat)
  show ?thesis
  proof (cases "?e \<le> pos")
    case True
    then show ?thesis unfolding onefilefs_read_def Let_def o1 o2 using free by simp
  next
    case False
    let ?l1 = "min (unat len) (?e - pos)"
    let ?l2 = "if (pos + ?l1) mod ?m < pos mod ?m then ?m - pos mod ?m else ?l1"
    let ?r = "pos mod 4096" and ?n = "read_span ?e pos (unat len)"
    have l1: "(if circular_buffer_end s < word_of_nat pos + len then circular_buffer_end s - word_of_nat pos else len) =
        word_of_nat ?l1"
    proof -
      have "word_of_nat pos + len = word_of_nat (pos + unat len)" by simp
      moreover have "(word_of_nat ?e :: 64 word) < word_of_nat (pos + unat len) \<longleftrightarrow> ?e < pos + unat len"
        by (rule word_of_nat_less) (use e p62 small(2) in auto)
      ultimately show ?thesis using False by (auto simp: S(7) min_def of_nat_diff)
    qed
    have mm: "word_of_nat pos mod file_size s = word_of_nat (pos mod ?m)"
      using word_pos [of pos 0 ?m] p62 S(3) by simp
    have ml: "(word_of_nat pos + word_of_nat ?l1) mod file_size s = word_of_nat ((pos + ?l1) mod ?m)"
      using word_pos [of pos ?l1 ?m] p62 S(3) e False by simp
    have lt: "a mod ?m < 2 ^ 62" for a :: nat
      using mod_less_divisor [OF S(2), of a] S(3) by linarith
    have l2: "(if word_of_nat ((pos + ?l1) mod ?m) < (word_of_nat (pos mod ?m) :: 64 word)
        then file_size s - word_of_nat (pos mod ?m) else word_of_nat ?l1) = word_of_nat ?l2"
    proof -
      have "word_of_nat ((pos + ?l1) mod ?m) < (word_of_nat (pos mod ?m) :: 64 word) \<longleftrightarrow>
          (pos + ?l1) mod ?m < pos mod ?m"
        by (rule word_of_nat_less) (use lt [of pos] lt [of "pos + ?l1"] in auto)
      moreover have "file_size s - word_of_nat (pos mod ?m) = word_of_nat (?m - pos mod ?m)"
        using S(2) by (simp add: of_nat_diff less_imp_le)
      ultimately show ?thesis by simp
    qed
    have sp: "sint (word_of_nat (pos mod ?m) :: 64 word) = int (pos mod ?m)"
      using lt [of pos] by (intro sint_word_of_nat) simp
    have off: "sint (word_of_nat (pos mod ?m) :: 64 word) smod int DEFAULT_BLOCK_SIZE = int ?r"
      "sint (word_of_nat (pos mod ?m) :: 64 word) sdiv int DEFAULT_BLOCK_SIZE = int (pos mod ?m div 4096)"
      using S(4) by (simp_all add: sp smod_nat mod_mod_cancel del: zmod_int)
    have nspan: "min ?l2 (4096 - ?r) = ?n"
      unfolding wrap_clamp [OF S(4,2)] by (simp add: read_span_def min.assoc)
    have l2b: "?l2 < 2 ^ 62" using S(3) e False by auto
    have l3: "(if word_of_nat DEFAULT_BLOCK_SIZE < word_of_int (int ?r) + (word_of_nat ?l2 :: 64 word)
        then word_of_nat DEFAULT_BLOCK_SIZE - word_of_int (int ?r) else word_of_nat ?l2) = (word_of_nat ?n :: 64 word)"
      by (rule clamp_word [OF nspan _ l2b]) simp
    have b: "(scast (word_of_int (int (pos mod ?m div 4096) + 2) :: 32 word) :: sector) =
        word_of_nat (pos mod ?m div 4096 + 2)"
    proof -
      have "pos mod ?m div 4096 \<le> ?m div 4096" using S(2) by (simp add: div_le_mono less_imp_le)
      then have "pos mod ?m div 4096 + 2 < 2 ^ 31" using small(3) by linarith
      from sector_32 [OF this] show ?thesis by (simp only: of_nat_add of_nat_numeral)
    qed
    have n: "?n < 2 ^ 62" "?n \<le> ?e - pos" "?n \<le> 4096 - ?r" using e by (auto simp: read_span_def)
    have un: "unat (word_of_nat ?n :: 64 word) = ?n" using n(1) by (simp add: unat_of_nat)
    have fit: "\<not> (int ?r < 0 \<or> DEFAULT_BLOCK_SIZE < nat (int ?r) + unat (word_of_nat ?n :: 64 word))"
      using n(3) unfolding un by simp
    have out: "take k (drop (nat (int ?r)) (b_data sb (word_of_nat (pos mod ?m div 4096 + 2)) s)) = take k (drop pos h)"
      if "k \<le> ?n" for k
    proof -
      have "?e - ?m \<le> pos" "k \<le> ?e - pos" "k \<le> 4096 - ?r" using pos n that by linarith+
      from ring_block [OF S(6) this] show ?thesis by (simp only: nat_int)
    qed
    have ret: "?n - (?n - min ?n room) = min ?n room" by simp
    have off': "word_of_nat pos + (word_of_nat ?n - word_of_nat (?n - min ?n room)) =
        (word_of_nat (pos + min ?n room) :: 64 word)"
      by (simp add: of_nat_diff)
    show ?thesis
      unfolding onefilefs_read_def Let_def o1 o2 l1 mm ml l2 off l3 b un ret off'
      using False free fs fit [unfolded un] out [of "min ?n room"]
      by (simp only: if_False if_True simp_thms un)
  qed
qed



text \<open>A block that cannot be had ends the logger's loop, with the bytes before it in the ring.\<close>

lemma next_sector_chunk:
  assumes "c \<le> k" and "k < c + next_chunk e m len c" and "4096 dvd m" and "0 < m"
  shows "next_sector e m k = next_sector e m c"
proof -
  have "k - c < 4096 - (e + c) mod 4096"
    using assms by (auto simp: next_chunk_def mod_mod_cancel)
  then have j: "(e + c) mod 4096 + (k - c) < 4096" by linarith
  have "e + k = (e + c) + (k - c)" using assms(1) by simp
  then show ?thesis unfolding next_sector_def using block_mod(1,2) [OF assms(3,4) j] by simp
qed

lemma internal_loop_stops:
  assumes "file_size s = word_of_nat m" and "length h + len < 2 ^ 63" and "singleton_sb s = Some sb"
    and "c \<le> k" and "k < len" and "len \<le> length p"
    and "ring_holds sb m s (h @ take c p)"
    and "\<forall>n. \<not> io n sb (next_sector (length h) m k)"
  shows "\<exists>t j. internal_loop io p len (word_of_nat (length h)) n c s = Inr (t, None) \<and> j \<le> k \<and>
    ring_holds sb m t (h @ take j p) \<and> same_globals s t"
  using assms
proof (induction "len - c" arbitrary: c n s rule: less_induct)
  case less
  let ?e = "length h"
  let ?d = "next_chunk ?e m len c"
  let ?t = "put_ring sb ((?e + c) mod m) (take ?d (drop c p)) s"
  have m: "0 < m" "m < 2 ^ 62" "4096 dvd m" using less.prems(7) by (simp_all add: ring_holds_def ring_ok_def)
  have cl: "c < len" using less.prems(4,5) by simp
  note step = internal_loop_step [OF less.prems(1,2) m(1,2) cl less.prems(3), of io p n]
  show ?case
  proof (cases "io n sb (next_sector ?e m c)")
    case False
    with step less.prems(4,7) show ?thesis by auto
  next
    case True
    have "\<not> k < c + ?d" using next_sector_chunk [OF less.prems(4) _ m(3,1)] less.prems(8) True by metis
    then have k: "c + ?d \<le> k" "c + ?d \<noteq> len" using less.prems(5) by auto
    have "(?e + c) mod m mod 4096 < 4096" by simp
    then have d: "0 < ?d" "?d \<le> len - c" "?d \<le> 4096 - (?e + c) mod m mod 4096"
      using cl by (auto simp: next_chunk_def)
    have "ring_holds sb m ?t (h @ take c p @ take ?d (drop c p))"
      by (rule ring_holds_chunk [OF less.prems(7)]) (use cl less.prems(6) d in auto)
    then have t: "ring_holds sb m ?t (h @ take (c + ?d) p)"
      using d(2) less.prems(6) by (simp add: take_chunk)
    have "\<exists>u j. internal_loop io p len (word_of_nat ?e) (Suc n) (c + ?d) ?t = Inr (u, None) \<and> j \<le> k \<and>
      ring_holds sb m u (h @ take j p) \<and> same_globals ?t u"
      by (rule less.hyps) (use less.prems t d k cl in auto)
    with step True k(2) show ?thesis by (auto simp: Let_def same_globals_def)
  qed
qed

lemma ring_holds_prefix:
  assumes "ring_holds sb m s (h @ x)" and "length h + length x \<le> m"
  shows "ring_holds sb m s h"
  using assms by (auto simp: ring_holds_def contents_def nth_append)

text \<open>The logger's write when a block in the way cannot be had, before the ring wraps.\<close>

lemma internal_write_aborts:
  assumes h: "holds_log sb s h" and free: "\<not> log_file_mutex s" "mounted s" and t: "terminated p"
    and small: "length h + strlen p < 2 ^ 62"
    and k: "k < strlen p" "length h + k \<le> unat (file_size s)"
    and bad: "\<forall>n. \<not> io n sb (next_sector (length h) (unat (file_size s)) k)"
  shows "\<exists>s'. internal_logfilefs_write io p s = Inr s' \<and> holds_log sb s' h \<and>
    \<not> log_file_mutex s' \<and> mounted s' \<and> sb_lock s' = sb_lock s \<and> file_size s' = file_size s"
proof -
  let ?m = "unat (file_size s)" and ?s = "s\<lparr>log_file_mutex := True\<rparr>"
  note S = holds_log_size [OF h]
  have len: "strlen p \<le> length p" using t by (metis length_append le_add1 strlen_def terminated_split)
  have "\<exists>u j. internal_loop io p (strlen p) (word_of_nat (length h)) 0 0 ?s = Inr (u, None) \<and> j \<le> k \<and>
    ring_holds sb ?m u (h @ take j p) \<and> same_globals ?s u"
    by (rule internal_loop_stops) (use S small k len bad in auto)
  then obtain u j where u: "internal_loop io p (strlen p) (word_of_nat (length h)) 0 0 ?s = Inr (u, None)"
    "j \<le> k" "ring_holds sb ?m u (h @ take j p)" "same_globals ?s u" by blast
  have "ring_holds sb ?m u h" by (rule ring_holds_prefix [OF u(3)]) (use u(2) k in auto)
  then have "holds_log sb (u\<lparr>log_file_mutex := False\<rparr>) h"
    using h u(4) by (simp add: holds_log_def same_globals_def)
  then show ?thesis using t k u(1,4) S(7) free
    by (auto simp: internal_logfilefs_write_def Let_def same_globals_def)
qed

text \<open>Whatever the blocks do, the logger's write returns.\<close>

lemma internal_loop_returns:
  assumes "file_size s = word_of_nat m" and "e + len < 2 ^ 63" and "0 < m" and "m < 2 ^ 62" and "c < len"
    and "singleton_sb s = Some sb"
  shows "\<exists>t r. internal_loop io p len (word_of_nat e) n c s = Inr (t, r)"
  using assms
proof (induction "len - c" arbitrary: c n s rule: less_induct)
  case less
  let ?d = "next_chunk e m len c"
  have "(e + c) mod m mod 4096 < 4096" by simp
  then have d: "0 < ?d" "?d \<le> len - c" using less.prems(5) by (auto simp: next_chunk_def)
  have "\<exists>t r. internal_loop io p len (word_of_nat e) (Suc n) (c + ?d)
      (put_ring sb ((e + c) mod m) (take ?d (drop c p)) s) = Inr (t, r)" if "c + ?d \<noteq> len"
    by (rule less.hyps) (use less.prems d that in auto)
  with internal_loop_step [OF less.prems, of io p n] show ?case by (auto simp: Let_def)
qed

lemma internal_write_returns:
  assumes h: "holds_log sb s h" and free: "\<not> log_file_mutex s" and t: "terminated p"
    and small: "length h + strlen p < 2 ^ 62"
  shows "\<exists>s'. internal_logfilefs_write io p s = Inr s'"
proof (cases "strlen p = 0 \<or> \<not> mounted s")
  case True
  with t free show ?thesis by (auto simp: internal_logfilefs_write_def Let_def)
next
  case False
  let ?s = "s\<lparr>log_file_mutex := True\<rparr>"
  note S = holds_log_size [OF h]
  have "\<exists>u r. internal_loop io p (strlen p) (word_of_nat (length h)) 0 0 ?s = Inr (u, r)"
    by (rule internal_loop_returns) (use S small False in auto)
  then show ?thesis using t free False S(7)
    by (auto simp: internal_logfilefs_write_def Let_def split: option.splits)
qed

section \<open>Properties\<close>

text \<open>
  A program that reads the whole file: calls of \<open>onefilefs_read\<close> with the same count, until one
  gives nothing.
\<close>

fun read_on :: "nat \<Rightarrow> bread \<Rightarrow> super_block \<Rightarrow> 64 word \<Rightarrow> 64 word \<Rightarrow> logfs \<Rightarrow> char list outcome" where
  "read_on 0 io sb len off s = Inl Runaway"
| "read_on (Suc fuel) io sb len off s =
     bind_out (onefilefs_read io sb (unat len) len off s) (\<lambda>(s, out, ret, off).
       if ret \<le> 0 then Inr [] else map_sum id (\<lambda>rest. out @ rest) (read_on fuel io sb len off s))"

lemma read_on_rest:
  assumes h: "holds_log sb s h" and free: "\<not> log_file_mutex s"
    and len: "0 < unat len" "unat len < 2 ^ 62" and blocks: "unat (file_size s) div 4096 + 2 < 2 ^ 31"
    and io: "\<forall>b. io 0 sb b"
    and off: "unat off < 2 ^ 62" "pos = max (unat off) (length h - unat (file_size s))"
    and fuel: "length h - pos < fuel"
  shows "read_on fuel io sb len off s = Inr (drop pos h)"
  using off fuel
proof (induction fuel arbitrary: off pos)
  case (Suc fuel)
  let ?k = "read_span (length h) pos (unat len)"
  have e: "length h < 2 ^ 62" using h by (simp add: holds_log_def)
  note r = read_log [OF h free Suc.prems(1) len(2) blocks Suc.prems(2), of io "unat len"]
  show ?case
  proof (cases "length h \<le> pos")
    case True
    with r show ?thesis by simp
  next
    case False
    have k: "min ?k (unat len) = ?k" "0 < ?k" "?k \<le> length h - pos"
      using False len(1) by (auto simp: read_span_def)
    have one: "onefilefs_read io sb (unat len) len off s = Inr (s, take ?k (drop pos h), int ?k, word_of_nat (pos + ?k))"
      using r False io by (simp add: k(1) Let_def)
    have u: "unat (word_of_nat (pos + ?k) :: 64 word) = pos + ?k"
    proof -
      have "pos + ?k < 2 ^ LENGTH(64)" using k(3) e False by simp
      then show ?thesis by (simp only: unat_of_nat mod_less)
    qed
    have "read_on fuel io sb len (word_of_nat (pos + ?k)) s = Inr (drop (pos + ?k) h)"
    proof (rule Suc.IH)
      show "unat (word_of_nat (pos + ?k) :: 64 word) < 2 ^ 62" unfolding u using k(3) e False by linarith
      show "pos + ?k = max (unat (word_of_nat (pos + ?k) :: 64 word)) (length h - unat (file_size s))"
        unfolding u using Suc.prems(2) by simp
      show "length h - (pos + ?k) < fuel" using Suc.prems(3) k(2,3) False by linarith
    qed
    moreover have "take ?k (drop pos h) @ drop (pos + ?k) h = drop pos h"
      by (metis add.commute append_take_drop_id drop_drop)
    ultimately show ?thesis using k(2) one by simp
  qed
qed simp

text \<open>
  C9. The logger's write refines appending to the history: when the blocks can be had, the whole
  payload is in the ring at its place, the oldest bytes make room for it, both counters follow, and
  the mutex is given back.
\<close>

theorem internal_write_appends:
  assumes "holds_log sb s h" and "\<not> log_file_mutex s" and "mounted s" and "terminated p"
    and "length h + strlen p < 2 ^ 62" and "\<forall>n b. io n sb b"
  shows "\<exists>s'. internal_logfilefs_write io p s = Inr s' \<and> holds_log sb s' (h @ c_str p) \<and>
    \<not> log_file_mutex s' \<and> mounted s' \<and> file_size s' = file_size s"
  using internal_write_appends_log [OF assms(1-5), of io] assms(6) by blast

definition blank_device :: device where
  "blank_device = \<lparr>disk = (\<lambda>_. replicate 4096 NUL), cache = (\<lambda>_. None)\<rparr>"

definition demo_log :: logfs where
  "demo_log = \<lparr>circular_buffer_start = 0, circular_buffer_end = 0, file_size = 8192, log_file_mutex = False,
     mounted = True, sb_lock = False, singleton_sb = Some 7, devices = (\<lambda>_. blank_device)\<rparr>"

lemma demo_holds: "holds_log 7 demo_log []"
  by (simp add: holds_log_def ring_holds_def ring_ok_def contents_def demo_log_def b_data_def buffer_of_def blank_device_def)

lemma demo_log_simps [simp]: "\<not> log_file_mutex demo_log" "mounted demo_log"
  "unat (file_size demo_log) = 8192"
  by (simp_all add: demo_log_def)

abbreviation log_line :: "char list" where
  "log_line \<equiv> ''hash:ab'' @ [NUL]"

theorem internal_write_appends_witness:
  "\<exists>s'. internal_logfilefs_write (\<lambda>_ _ _. True) log_line demo_log = Inr s' \<and> holds_log 7 s' ''hash:ab'' \<and>
     circular_buffer_end s' = 7"
proof -
  have c: "c_str log_line = ''hash:ab''" "terminated log_line" "strlen log_line = 7"
    by (simp_all add: strlen_def c_str_def terminated_def)
  obtain s' where "internal_logfilefs_write (\<lambda>_ _ _. True) log_line demo_log = Inr s'" "holds_log 7 s' ''hash:ab''"
    using internal_write_appends [OF demo_holds demo_log_simps(1,2) c(2), of "\<lambda>_ _ _. True"] c(1,3) by auto
  moreover from this have "circular_buffer_end s' = 7" by (simp add: holds_log_def)
  ultimately show ?thesis by blast
qed

text \<open>
  C10. Reading from any offset until nothing comes gives the bytes of the history from that offset on,
  from the oldest byte still in the ring when the offset is older: the ring holds exactly the last
  \<open>file_size\<close> bytes logged, and the loop of reads ends.
\<close>

theorem read_whole_log:
  assumes "holds_log sb s h" and "\<not> log_file_mutex s" and "0 < unat len" and "unat len < 2 ^ 62"
    and "unat (file_size s) div 4096 + 2 < 2 ^ 31" and "\<forall>b. io 0 sb b" and "unat off < 2 ^ 62"
    and "length h < fuel"
  shows "read_on fuel io sb len off s = Inr (drop (max (unat off) (length h - unat (file_size s))) h)"
  by (rule read_on_rest [where sb = sb and s = s and io = io]) (use assms in auto)

theorem read_whole_log_witness:
  "\<exists>s'. internal_logfilefs_write (\<lambda>_ _ _. True) log_line demo_log = Inr s' \<and>
     read_on 8 (\<lambda>_ _ _. True) 7 3 2 s' = Inr ''sh:ab''"
proof -
  have c: "c_str log_line = ''hash:ab''" "terminated log_line" "strlen log_line = 7"
    by (simp_all add: strlen_def c_str_def terminated_def)
  obtain s' where s': "internal_logfilefs_write (\<lambda>_ _ _. True) log_line demo_log = Inr s'"
    "holds_log 7 s' ''hash:ab''" "\<not> log_file_mutex s'" "file_size s' = 8192"
    using internal_write_appends_log [OF demo_holds demo_log_simps(1,2) c(2), of "\<lambda>_ _ _. True"] c(1,3)
    by (auto simp: demo_log_def)
  have "read_on 8 (\<lambda>_ _ _. True) 7 3 2 s' = Inr (drop (max (unat (2 :: 64 word)) (length ''hash:ab'' - unat (file_size s'))) ''hash:ab'')"
    by (rule read_whole_log [OF s'(2,3)]) (use s'(4) in simp_all)
  with s' show ?thesis by auto
qed

text \<open>
  The write of user space reports exactly what it put in the ring, whatever goes wrong: the
  history grows by the reported beginning of the buffer, all of it (or all of what can be read) when
  the blocks can be had. When the buffer cannot be read to its end, the zeros of the copy run behind the
  new end of the history: nothing is lost while the ring has room for them, on a full ring they replace
  its oldest bytes, which the counters still count as readable.
\<close>

theorem user_write_appends:
  assumes "holds_log sb s h" and "\<not> log_file_mutex s" and "length h + len < 2 ^ 62"
  shows "\<exists>s' k z. logfilefs_write io buf len s = Inr (s', k, word_of_nat (length h + k)) \<and>
    k \<le> min len (length buf) \<and> holds_log sb s' (wiped (unat (file_size s)) z (h @ take k buf)) \<and>
    z \<in> {0, next_chunk (length h) (unat (file_size s)) len k} \<and> \<not> log_file_mutex s' \<and>
    ((\<forall>n b. io n sb b) \<longrightarrow>
      k = min len (length buf) \<and> z = next_chunk (length h) (unat (file_size s)) len k)"
  using user_write_appends_log [OF assms, of io buf] by blast

theorem user_write_appends_witness:
  "\<exists>s'. logfilefs_write (\<lambda>_ _ _. True) ''abc'' 5 demo_log = Inr (s', 3, 3) \<and> holds_log 7 s' ''abc''"
  using user_write_appends [OF demo_holds demo_log_simps(1), of 5 "\<lambda>_ _ _. True" "''abc''"]
  by (auto simp: wiped_same next_chunk_def)

end
