(* ===== verification/Log_Mount.thy ===== *)
theory Log_Mount
  imports Log_Ring
begin

text \<open>
  The file system around the log: \<open>lib/logfs/logfilefs_src.c\<close> mounts and unmounts it,
  \<open>lib/logfs/dir.c\<close> lists its directory, \<open>onefilefs_lookup\<close> of \<open>lib/logfs/file.c\<close> finds its
  file, and \<open>user/logfilemakefs.c\<close> writes an empty image. The superblock and the inode are
  structures over the bytes of blocks 0 and 1, and are read and written here byte by byte.
\<close>

section \<open>Structures over bytes\<close>

text \<open>A number as little-endian bytes.\<close>

fun le_bytes :: "nat \<Rightarrow> nat \<Rightarrow> char list" where
  "le_bytes 0 n = []"
| "le_bytes (Suc k) n = char_of n # le_bytes k (n div 256)"

fun le_nat :: "char list \<Rightarrow> nat" where
  "le_nat [] = 0"
| "le_nat (c # cs) = of_char c + 256 * le_nat cs"

lemma length_le_bytes [simp]: "length (le_bytes k n) = k"
  by (induction k n rule: le_bytes.induct) auto

lemma le_nat_bytes: "le_nat (le_bytes k n) = n mod 256 ^ k"
  by (induction k n rule: le_bytes.induct) (simp_all add: of_char_of mod_mult2_eq)

text \<open>A field of 64 bits at an offset.\<close>

definition get_field :: "nat \<Rightarrow> char list \<Rightarrow> 64 word" where
  "get_field off b = word_of_nat (le_nat (take 8 (drop off b)))"

definition set_field :: "nat \<Rightarrow> 64 word \<Rightarrow> char list \<Rightarrow> char list" where
  "set_field off w b = copy_at b off (le_bytes 8 (unat w))"

lemma get_bytes: "get_field 0 (le_bytes 8 (unat w) @ r) = w"
proof -
  have "unat w < 256 ^ 8" using unsigned_less [of w, where ?'a = nat] by simp
  then show ?thesis by (simp add: get_field_def le_nat_bytes)
qed

lemma get_field_drop: "get_field off b = get_field 0 (drop off b)"
  by (simp add: get_field_def)

lemma get_set_field:
  assumes "off + 8 \<le> length b"
  shows "get_field off (set_field off w b) = w"
  using assms unfolding get_field_drop [of off] set_field_def copy_at_def by (simp add: get_bytes)

lemma get_set_other:
  assumes "off + 8 \<le> length b" and "k + 8 \<le> off \<or> off + 8 \<le> k"
  shows "get_field k (set_field off w b) = get_field k b"
proof -
  have "take 8 (drop k (copy_at b off (le_bytes 8 (unat w)))) = take 8 (drop k b)"
    using assms(2)
  proof
    assume k: "k + 8 \<le> off"
    let ?x = "copy_at b off (le_bytes 8 (unat w))"
    have "take (k + 8) ?x = take (k + 8) b" using k assms(1) by (simp add: copy_at_def)
    then have "drop k (take (k + 8) ?x) = drop k (take (k + 8) b)" by simp
    then show ?thesis by (simp add: drop_take)
  next
    assume "off + 8 \<le> k"
    then show ?thesis using assms(1) by (simp add: copy_at_def)
  qed
  then show ?thesis by (simp add: get_field_def set_field_def)
qed

lemma length_set_field [simp]: "off + 8 \<le> length b \<Longrightarrow> length (set_field off w b) = length b"
  by (simp add: set_field_def)

text \<open>The offsets of the fields the code uses, in \<open>onefilefs_sb_info\<close> and \<open>onefilefs_inode\<close>.\<close>

abbreviation SB_MAGIC :: nat where "SB_MAGIC \<equiv> 8"
abbreviation INODE_START :: nat where "INODE_START \<equiv> 24"
abbreviation INODE_END :: nat where "INODE_END \<equiv> 32"
abbreviation INODE_FILE_SIZE :: nat where "INODE_FILE_SIZE \<equiv> 40"

definition MAGIC :: "64 word" where "MAGIC = 0x69420694"
definition SB_BLOCK_NUMBER :: sector where "SB_BLOCK_NUMBER = 0"
definition SINGLEFILEFS_ROOT_INODE_NUMBER :: nat where "SINGLEFILEFS_ROOT_INODE_NUMBER = 10"
definition SINGLEFILEFS_FILE_INODE_NUMBER :: nat where "SINGLEFILEFS_FILE_INODE_NUMBER = 1"
definition SINGLEFILEFS_INODES_BLOCK_NUMBER :: sector where "SINGLEFILEFS_INODES_BLOCK_NUMBER = 1"
definition UNIQUE_FILE_NAME :: string where "UNIQUE_FILE_NAME = ''SOAFileKLRM.log''"

section \<open>Mounting\<close>

text \<open>
  \<open>root_inode\<close> and \<open>root_dentry\<close> say whether \<open>iget_locked\<close> and \<open>d_make_root\<close> give an object.
  The first block is not checked for NULL: the test is on the superblock, which is never NULL.
\<close>

definition singlefilefs_fill_super ::
  "bread \<Rightarrow> bool \<Rightarrow> bool \<Rightarrow> super_block \<Rightarrow> logfs \<Rightarrow> (logfs \<times> int) outcome" where
  "singlefilefs_fill_super io root_inode root_dentry sb s =
     (if mounted s then Inr (s, - EBUSY)
      else if \<not> io 0 sb SB_BLOCK_NUMBER then Inl Bad_Access
      else
        let magic = get_field SB_MAGIC (b_data sb SB_BLOCK_NUMBER s) in
        if magic \<noteq> MAGIC then Inr (s, - EBADF)
        else if \<not> io 1 sb 1 then Inr (s, - EIO)
        else
          let inode_disk = b_data sb 1 s;
              s = s\<lparr>file_size := get_field INODE_FILE_SIZE inode_disk\<rparr>;
              s = s\<lparr>circular_buffer_start := get_field INODE_START inode_disk\<rparr>;
              s = s\<lparr>circular_buffer_end := get_field INODE_END inode_disk\<rparr> in
          if \<not> root_inode then Inr (s, - ENOMEM)
          else if \<not> root_dentry then Inr (s, - ENOMEM)
          else if sb_lock s then Inl Blocked
          else
            let s = s\<lparr>sb_lock := True\<rparr>;
                s = s\<lparr>singleton_sb := Some sb, mounted := True\<rparr> in
            Inr (s\<lparr>sb_lock := False\<rparr>, 0))"

text \<open>
  \<open>sync_filesystem\<close> and \<open>kill_block_super\<close> are arguments, as what they do to the device. When the
  block of the inode cannot be had the function returns with the spin lock held.
\<close>

definition on_device :: "super_block \<Rightarrow> (device \<Rightarrow> device) \<Rightarrow> logfs \<Rightarrow> logfs" where
  "on_device sb f s = s\<lparr>devices := (devices s)(sb := f (devices s sb))\<rparr>"

definition singlefilefs_kill_superblock ::
  "bread \<Rightarrow> (device \<Rightarrow> device) \<Rightarrow> (device \<Rightarrow> device) \<Rightarrow> super_block \<Rightarrow> logfs \<Rightarrow> logfs outcome" where
  "singlefilefs_kill_superblock io sync_filesystem kill_block_super sb s =
     (if sb_lock s then Inl Blocked
      else
        let s = s\<lparr>sb_lock := True\<rparr> in
        if \<not> io 0 sb 1 then Inr s
        else
          let inode_disk = b_data sb 1 s;
              inode_disk = set_field INODE_START (circular_buffer_start s) inode_disk;
              inode_disk = set_field INODE_END (circular_buffer_end s) inode_disk;
              s = set_b_data sb 1 inode_disk s;
              s = on_device sb sync_filesystem s;
              s = s\<lparr>singleton_sb := None, mounted := False\<rparr>;
              s = s\<lparr>sb_lock := False\<rparr> in
          Inr (on_device sb kill_block_super s))"

text \<open>\<open>singlefilefs_mount\<close> gives the two callbacks to \<open>mount_bdev\<close>, which is an argument.\<close>

type_synonym fill_callback = "super_block \<Rightarrow> logfs \<Rightarrow> (logfs \<times> int) outcome"
type_synonym kill_callback = "super_block \<Rightarrow> logfs \<Rightarrow> logfs outcome"

definition singlefilefs_mount ::
  "(fill_callback \<Rightarrow> kill_callback \<Rightarrow> super_block \<Rightarrow> logfs \<Rightarrow> (logfs \<times> int) outcome) \<Rightarrow>
   bread \<Rightarrow> bool \<Rightarrow> bool \<Rightarrow> (device \<Rightarrow> device) \<Rightarrow> (device \<Rightarrow> device) \<Rightarrow> super_block \<Rightarrow> logfs \<Rightarrow>
   (logfs \<times> int) outcome" where
  "singlefilefs_mount mount_bdev io root_inode root_dentry sync kill sb s =
     mount_bdev (singlefilefs_fill_super io root_inode root_dentry)
       (singlefilefs_kill_superblock io sync kill) sb s"

text \<open>
  The documented behaviour of \<open>mount_bdev\<close> on a device that is not mounted yet: fill the superblock,
  and when that fails deactivate it again, which calls the \<open>kill_sb\<close> of the file system type.
\<close>

definition mount_documented ::
  "(fill_callback \<Rightarrow> kill_callback \<Rightarrow> super_block \<Rightarrow> logfs \<Rightarrow> (logfs \<times> int) outcome) \<Rightarrow> bool" where
  "mount_documented mount_bdev =
     (\<forall>fill kill sb s. mount_bdev fill kill sb s =
        bind_out (fill sb s) (\<lambda>(s, r).
          if r = 0 then Inr (s, 0) else bind_out (kill sb s) (\<lambda>s. Inr (s, r))))"

text \<open>\<open>singlefilefs_init\<close> initialises the two locks and registers the type.\<close>

definition singlefilefs_init :: "int \<Rightarrow> logfs \<Rightarrow> logfs \<times> int" where
  "singlefilefs_init register_filesystem s =
     (s\<lparr>sb_lock := False, log_file_mutex := False\<rparr>, register_filesystem)"

section \<open>The directory\<close>

text \<open>
  \<open>dir_emit\<close> takes an entry unless the buffer of the caller is full; whether it does is an argument,
  as it depends on what is there already.
\<close>

record dir_context =
  ctx_pos :: int
  emitted :: "(string \<times> nat) list"

definition emit_at ::
  "((string \<times> nat) list \<Rightarrow> string \<times> nat \<Rightarrow> bool) \<Rightarrow> string \<times> nat \<Rightarrow> dir_context \<Rightarrow> dir_context option" where
  "emit_at dir_emit e ctx =
     (if dir_emit (emitted ctx) e
      then Some (ctx\<lparr>emitted := emitted ctx @ [e], ctx_pos := ctx_pos ctx + 1\<rparr>) else None)"

definition onefilefs_iterate ::
  "((string \<times> nat) list \<Rightarrow> string \<times> nat \<Rightarrow> bool) \<Rightarrow> dir_context \<Rightarrow> dir_context" where
  "onefilefs_iterate dir_emit ctx =
     (if ctx_pos ctx \<ge> 2 + 1 then ctx
      else
        (case (if ctx_pos ctx = 0 then emit_at dir_emit (''.'', SINGLEFILEFS_ROOT_INODE_NUMBER) ctx else Some ctx) of
           None \<Rightarrow> ctx
         | Some ctx \<Rightarrow>
             (case (if ctx_pos ctx = 1 then emit_at dir_emit (''..'', 1) ctx else Some ctx) of
                None \<Rightarrow> ctx
              | Some ctx \<Rightarrow>
                  (if ctx_pos ctx = 2
                   then (case emit_at dir_emit (UNIQUE_FILE_NAME, SINGLEFILEFS_FILE_INODE_NUMBER) ctx of
                           None \<Rightarrow> ctx | Some ctx \<Rightarrow> ctx)
                   else ctx))))"

text \<open>
  \<open>onefilefs_lookup\<close>: the answer, and what happens to the inode and the entry of the name. A new
  inode of the cache comes locked. \<open>iget_locked\<close> is an argument: nothing, an inode that was cached
  already, or a new one.
\<close>

datatype lookup_result = Lookup_Error int | Child | No_Entry

record lookup_effect =
  lk_result :: lookup_result
  lk_size :: "64 word option"
  lk_attached :: bool
  lk_inode_refs :: int
  lk_dentry_refs :: int
  lk_unlocked :: bool

definition onefilefs_lookup ::
  "bread \<Rightarrow> bool option \<Rightarrow> super_block \<Rightarrow> string \<Rightarrow> logfs \<Rightarrow> lookup_effect" where
  "onefilefs_lookup io iget_locked sb d_name s =
     (let nothing = \<lparr>lk_result = No_Entry, lk_size = None, lk_attached = False, lk_inode_refs = 0,
        lk_dentry_refs = 0, lk_unlocked = False\<rparr> in
      if d_name = UNIQUE_FILE_NAME then
        (case iget_locked of
           None \<Rightarrow> nothing\<lparr>lk_result := Lookup_Error (- ENOMEM)\<rparr>
         | Some False \<Rightarrow> nothing\<lparr>lk_result := Child, lk_inode_refs := 1, lk_unlocked := True\<rparr>
         | Some True \<Rightarrow>
             if \<not> io 0 sb SINGLEFILEFS_INODES_BLOCK_NUMBER
             then nothing\<lparr>lk_result := Lookup_Error (- EIO)\<rparr>
             else nothing\<lparr>lk_result := Child, lk_attached := True, lk_inode_refs := 1, lk_dentry_refs := 1,
               lk_size := Some (get_field INODE_FILE_SIZE (b_data sb SINGLEFILEFS_INODES_BLOCK_NUMBER s)),
               lk_unlocked := True\<rparr>)
      else nothing)"

section \<open>The image\<close>

text \<open>
  \<open>logfilemakefs\<close>: the superblock, the inode, the padding of its block, written one after the
  other to the device. The fields that are not set, the padding of the structure and the memory of
  \<open>malloc\<close> are whatever they are; \<open>result n\<close> is what the write number \<open>n\<close> returns when it is
  short. The size is an \<open>int\<close> product, taken at 32 bits and extended with the sign.
\<close>

definition S_IFREG :: nat where "S_IFREG = 0x8000"

definition mkfs_sb :: "char list \<Rightarrow> char list" where
  "mkfs_sb rest = le_bytes 8 1 @ le_bytes 8 (unat MAGIC) @ le_bytes 8 DEFAULT_BLOCK_SIZE @ take 4072 rest"

definition mkfs_size :: "int \<Rightarrow> 64 word" where
  "mkfs_size blocks = scast (word_of_int (blocks * int DEFAULT_BLOCK_SIZE) :: 32 word)"

definition mkfs_inode :: "int \<Rightarrow> char list \<Rightarrow> char list" where
  "mkfs_inode blocks rest =
     le_bytes 4 S_IFREG @ take 4 rest @ le_bytes 8 SINGLEFILEFS_FILE_INODE_NUMBER @ take 8 (drop 4 rest) @
     le_bytes 8 0 @ le_bytes 8 0 @ le_bytes 8 (unat (mkfs_size blocks))"

definition write_image :: "nat \<Rightarrow> char list \<Rightarrow> int option \<Rightarrow> char list \<Rightarrow> char list" where
  "write_image fd_pos xs result img =
     (let xs = (case result of None \<Rightarrow> xs | Some r \<Rightarrow> take (nat r) xs)
      in take fd_pos img @ xs @ drop (fd_pos + length xs) img)"

definition mkfs ::
  "int \<Rightarrow> bool \<Rightarrow> char list \<Rightarrow> char list \<Rightarrow> char list \<Rightarrow> (nat \<Rightarrow> int option) \<Rightarrow> char list \<Rightarrow> char list \<times> int" where
  "mkfs blocks opened rest_sb rest_inode rest_pad result img =
     (if \<not> opened then (img, -1)
      else
        let img = write_image 0 (mkfs_sb rest_sb) (result 0) img in
        case result 0 of Some ret \<Rightarrow> (img, ret)
        | None \<Rightarrow>
            let img = write_image DEFAULT_BLOCK_SIZE (mkfs_inode blocks rest_inode) (result 1) img in
            if result 1 \<noteq> None then (img, -1)
            else
              let nbytes = DEFAULT_BLOCK_SIZE - 48;
                  img = write_image (DEFAULT_BLOCK_SIZE + 48) (take nbytes rest_pad) (result 2) img in
              if result 2 \<noteq> None then (img, -1) else (img, 0))"

text \<open>
  A block device over an image, with nothing cached. \<open>sb_bread\<close> has no blocks behind the end of the
  image; what \<open>disk\<close> says of them is never read.
\<close>

definition image_device :: "char list \<Rightarrow> device" where
  "image_device img =
     \<lparr>disk = (\<lambda>b. take DEFAULT_BLOCK_SIZE (drop (unat b * DEFAULT_BLOCK_SIZE) img @ replicate DEFAULT_BLOCK_SIZE NUL)), cache = (\<lambda>_. None)\<rparr>"



section \<open>What is on the disk\<close>

text \<open>The logger's writes one after the other.\<close>

fun log_all :: "bread \<Rightarrow> char list list \<Rightarrow> logfs \<Rightarrow> logfs outcome" where
  "log_all io [] s = Inr s"
| "log_all io (p # ps) s = bind_out (internal_logfilefs_write io p s) (log_all io ps)"

definition disk_of :: "logfs \<Rightarrow> super_block \<Rightarrow> sector \<Rightarrow> char list" where
  "disk_of s = (\<lambda>sb. disk (devices s sb))"

lemma disk_set [simp]: "disk_of (set_b_data sb b x s) = disk_of s"
  by (auto simp: disk_of_def set_b_data_def)

lemma disk_globals [simp]:
  "disk_of (s\<lparr>log_file_mutex := a\<rparr>) = disk_of s" "disk_of (s\<lparr>mounted := a\<rparr>) = disk_of s"
  "disk_of (s\<lparr>singleton_sb := t\<rparr>) = disk_of s" "disk_of (s\<lparr>sb_lock := a\<rparr>) = disk_of s"
  "disk_of (advance k s) = disk_of s"
  by (simp_all add: disk_of_def)

lemma internal_loop_disk:
  "internal_loop io p len e n c s = Inr (t, r) \<Longrightarrow> disk_of t = disk_of s"
proof (induction io p len e n c s rule: internal_loop.induct)
  case (1 io p len e n c s)
  obtain q d b where slot: "log_slot e c len (file_size s) = (q, d, b)" by (metis prod_cases3)
  from 1 show ?case
    by (subst (asm) (2) internal_loop.simps)
      (auto simp: slot Let_def split: option.splits if_split_asm)
qed

lemma internal_write_disk:
  assumes "internal_logfilefs_write io p s = Inr t"
  shows "disk_of t = disk_of s"
  using assms
  by (auto simp: internal_logfilefs_write_def Let_def bind_out_Inr_iff dest!: internal_loop_disk
      split: if_split_asm option.splits)

lemma log_all_disk: "log_all io ps s = Inr t \<Longrightarrow> disk_of t = disk_of s"
  by (induction ps arbitrary: s) (auto simp: bind_out_Inr_iff internal_write_disk)



text \<open>What unmounting and mounting again compute, when nothing goes wrong.\<close>

lemma b_data_frame [simp]:
  "b_data sb b (s\<lparr>mounted := x\<rparr>) = b_data sb b s" "b_data sb b (s\<lparr>singleton_sb := y\<rparr>) = b_data sb b s"
  "b_data sb b (s\<lparr>sb_lock := x\<rparr>) = b_data sb b s" "b_data sb b (s\<lparr>file_size := w\<rparr>) = b_data sb b s"
  "b_data sb b (s\<lparr>circular_buffer_start := w\<rparr>) = b_data sb b s"
  "b_data sb b (s\<lparr>circular_buffer_end := w\<rparr>) = b_data sb b s"
  by (simp_all add: b_data_def)

lemma on_device_frame [simp]:
  "mounted (on_device sb f s) = mounted s" "sb_lock (on_device sb f s) = sb_lock s"
  "file_size (on_device sb f s) = file_size s" "log_file_mutex (on_device sb f s) = log_file_mutex s"
  "singleton_sb (on_device sb f s) = singleton_sb s"
  "circular_buffer_start (on_device sb f s) = circular_buffer_start s"
  "circular_buffer_end (on_device sb f s) = circular_buffer_end s"
  by (simp_all add: on_device_def)

text \<open>The buffers of a device before and after.\<close>

definition same_buffers :: "(device \<Rightarrow> device) \<Rightarrow> bool" where
  "same_buffers f = (\<forall>d b. buffer_of (f d) b = buffer_of d b)"

lemma b_data_same [simp]: "same_buffers f \<Longrightarrow> b_data sb' b (on_device sb f s) = b_data sb' b s"
  by (auto simp: same_buffers_def b_data_def on_device_def)

lemma kill_stores:
  assumes "\<not> sb_lock s" and "io 0 sb 1" and "length (b_data sb 1 s) = DEFAULT_BLOCK_SIZE"
    and "same_buffers sync" and "same_buffers kill"
  shows "\<exists>t. singlefilefs_kill_superblock io sync kill sb s = Inr t \<and> \<not> mounted t \<and> \<not> sb_lock t \<and>
    log_file_mutex t = log_file_mutex s \<and>
    b_data sb 1 t = set_field INODE_END (circular_buffer_end s)
      (set_field INODE_START (circular_buffer_start s) (b_data sb 1 s)) \<and>
    (\<forall>b. b \<noteq> 1 \<longrightarrow> b_data sb b t = b_data sb b s)"
  using assms by (simp add: singlefilefs_kill_superblock_def Let_def)

lemma fill_super_reads:
  assumes "\<not> mounted s" and "\<forall>n b. b \<in> {0, 1} \<longrightarrow> io n sb b" and "\<not> sb_lock s"
    and "get_field SB_MAGIC (b_data sb 0 s) = MAGIC"
  shows "\<exists>t. singlefilefs_fill_super io True True sb s = Inr (t, 0) \<and> mounted t \<and> \<not> sb_lock t \<and>
    singleton_sb t = Some sb \<and> log_file_mutex t = log_file_mutex s \<and>
    circular_buffer_start t = get_field INODE_START (b_data sb 1 s) \<and>
    circular_buffer_end t = get_field INODE_END (b_data sb 1 s) \<and>
    file_size t = get_field INODE_FILE_SIZE (b_data sb 1 s) \<and> (\<forall>b. b_data sb b t = b_data sb b s)"
  using assms by (simp add: singlefilefs_fill_super_def SB_BLOCK_NUMBER_def Let_def)

lemma data_sector: "b < m div 4096 \<Longrightarrow> m < 2 ^ 62 \<Longrightarrow> (word_of_nat (b + 2) :: sector) \<noteq> 0 \<and> (word_of_nat (b + 2) :: sector) \<noteq> 1"
proof -
  assume a: "b < m div 4096" "m < 2 ^ 62"
  have "b + 2 < 2 ^ LENGTH(64)" using a less_le_trans [OF a(1) div_le_dividend] by simp
  then have "unat (word_of_nat (b + 2) :: sector) = b + 2" by (simp only: unat_of_nat mod_less)
  then show ?thesis by (metis One_nat_def Suc_eq_plus1 add_2_eq_Suc' nat.distinct(1) nat.inject unat_0 unat_1)
qed

lemma ring_holds_blocks:
  assumes h: "ring_holds sb m s h" and b: "\<forall>b. b \<noteq> 0 \<and> b \<noteq> 1 \<longrightarrow> b_data sb b t = b_data sb b s"
  shows "ring_holds sb m t h"
proof -
  have m: "0 < m" "m < 2 ^ 62" "4096 dvd m" using h by (simp_all add: ring_holds_def ring_ok_def)
  have d: "b_data sb (word_of_nat (i + 2)) t = b_data sb (word_of_nat (i + 2)) s" if "i < m div 4096" for i
    using b data_sector [OF that m(2)] by blast
  have "ring_byte sb t (i mod m) = ring_byte sb s (i mod m)" for i
  proof -
    have "i mod m div 4096 < m div 4096" using m by (auto simp: less_mult_imp_div_less elim!: dvdE)
    then show ?thesis unfolding ring_byte_def by (simp only: d)
  qed
  with h d show ?thesis by (simp only: ring_holds_def ring_ok_def contents_def) simp
qed



text \<open>Writing to the ring leaves the blocks of the superblock and of the inode alone.\<close>

lemma put_ring_system:
  assumes "4096 dvd m" and "m < 2 ^ 62" and "q < m" and "b \<in> {0, 1}"
  shows "b_data sb b (put_ring sb q xs s) = b_data sb b s"
proof -
  have "q div 4096 < m div 4096" using assms(1,3) by (auto simp: less_mult_imp_div_less elim!: dvdE)
  from data_sector [OF this assms(2)] assms(4) show ?thesis by (auto simp: put_ring_def Let_def)
qed

lemma internal_loop_system:
  assumes "file_size s = word_of_nat m" and "e + len < 2 ^ 63" and "0 < m" "m < 2 ^ 62" "4096 dvd m"
    and "singleton_sb s = Some sb" and "c < len" and "b \<in> {0, 1}"
    and "internal_loop io p len (word_of_nat e) n c s = Inr (t, r)"
  shows "b_data sb b t = b_data sb b s"
  using assms
proof (induction "len - c" arbitrary: c n s rule: less_induct)
  case less
  let ?d = "next_chunk e m len c"
  let ?t = "put_ring sb ((e + c) mod m) (take ?d (drop c p)) s"
  have same: "b_data sb b ?t = b_data sb b s"
    by (rule put_ring_system [OF less.prems(5,4) _ less.prems(8)]) (use less.prems(3) in simp)
  have "(e + c) mod m mod 4096 < 4096" by simp
  then have d: "0 < ?d" "?d \<le> len - c" using less.prems(7) by (auto simp: next_chunk_def)
  note step = internal_loop_step [OF less.prems(1,2,3,4,7,6), of io p n]
  consider "\<not> io n sb (next_sector e m c)" | "io n sb (next_sector e m c)" "c + ?d = len"
    | (more) "io n sb (next_sector e m c)" "c + ?d \<noteq> len" by blast
  then show ?case
  proof cases
    case more
    then have "internal_loop io p len (word_of_nat e) (Suc n) (c + ?d) ?t = Inr (t, r)"
      using step less.prems(9) by (simp add: Let_def)
    moreover have "len - (c + ?d) < len - c" "c + ?d < len" using d more(2) less.prems(7) by linarith+
    ultimately show ?thesis using less.hyps [of "c + ?d" ?t "Suc n"] less.prems same by simp
  qed (use step less.prems(9) same in \<open>auto simp: Let_def\<close>)
qed

lemma user_loop_system:
  assumes "file_size s = word_of_nat m" and "e + len < 2 ^ 63" and "0 < m" "m < 2 ^ 62" "4096 dvd m"
    and "singleton_sb s = Some sb" and "c \<le> len" and "b \<in> {0, 1}"
    and "user_loop io p len (word_of_nat e) n c s = Inr (t, r)"
  shows "b_data sb b t = b_data sb b s"
  using assms
proof (induction "len - c" arbitrary: c n s rule: less_induct)
  case less
  let ?d = "next_chunk e m len c"
  let ?src = "take ?d (drop c p)"
  let ?t = "put_ring sb ((e + c) mod m) (?src @ replicate (?d - length ?src) NUL) s"
  have same: "b_data sb b ?t = b_data sb b s"
    by (rule put_ring_system [OF less.prems(5,4) _ less.prems(8)]) (use less.prems(3) in simp)
  have "(e + c) mod m mod 4096 < 4096" by simp
  then have d: "c < len \<Longrightarrow> 0 < ?d" "?d \<le> len - c" by (auto simp: next_chunk_def)
  note step = user_loop_step [OF less.prems(1,2,3,4,7,6), of io p n]
  consider "\<not> io n sb (next_sector e m c)" | (short) "io n sb (next_sector e m c)" "length ?src \<noteq> ?d"
    | "io n sb (next_sector e m c)" "length ?src = ?d" "c + ?d = len"
    | (more) "io n sb (next_sector e m c)" "length ?src = ?d" "c + ?d \<noteq> len" by blast
  then show ?case
  proof cases
    case short
    then have "user_loop io p len (word_of_nat e) n c s = Inr (?t, c + length ?src)"
      using step by (simp only: Let_def not_True_eq_False not_False_eq_True if_True if_False)
    with less.prems(9) same show ?thesis by (simp del: length_take)
  next
    case more
    then have "user_loop io p len (word_of_nat e) (Suc n) (c + ?d) ?t = Inr (t, r)"
      using step less.prems(9) by (simp only: Let_def not_True_eq_False not_False_eq_True if_True if_False simp_thms)
    moreover have "len - (c + ?d) < len - c" "c + ?d \<le> len" using d more(3) less.prems(7) by linarith+
    ultimately show ?thesis using less.hyps [of "c + ?d" ?t "Suc n"] less.prems same by simp
  qed (use step less.prems(9) same in \<open>auto simp: Let_def\<close>)
qed

lemma user_loop_disk:
  "user_loop io p len e n c s = Inr (t, r) \<Longrightarrow> disk_of t = disk_of s"
proof (induction io p len e n c s rule: user_loop.induct)
  case (1 io p len e n c s)
  obtain q d b where slot: "log_slot e c len (file_size s) = (q, d, b)" by (metis prod_cases3)
  from 1 show ?case
    by (subst (asm) (2) user_loop.simps)
      (auto simp: slot Let_def split: option.splits if_split_asm)
qed

text \<open>What the two write functions leave alone.\<close>

definition same_system :: "super_block \<Rightarrow> logfs \<Rightarrow> logfs \<Rightarrow> bool" where
  "same_system sb s t = (b_data sb 0 t = b_data sb 0 s \<and> b_data sb 1 t = b_data sb 1 s \<and> disk_of t = disk_of s)"

lemma b_data_advance [simp]:
  "b_data sb b (advance k s) = b_data sb b s" "b_data sb b (s\<lparr>log_file_mutex := x\<rparr>) = b_data sb b s"
  by (simp_all add: b_data_def)

lemma internal_write_system:
  assumes h: "holds_log sb s h" and small: "length h + strlen p < 2 ^ 62"
    and run: "internal_logfilefs_write io p s = Inr t"
  shows "same_system sb s t"
proof -
  note S = holds_log_size [OF h]
  have disk: "disk_of t = disk_of s" by (rule internal_write_disk [OF run])
  have "b_data sb b t = b_data sb b s" if b: "b \<in> {0, 1}" for b
  proof -
    have loop: "b_data sb b u = b_data sb b s"
      if "internal_loop io p (strlen p) (circular_buffer_end s) 0 0 (s\<lparr>log_file_mutex := True\<rparr>) = Inr (u, r)"
        and "strlen p \<noteq> 0" for u r
      using internal_loop_system [of "s\<lparr>log_file_mutex := True\<rparr>" "unat (file_size s)" "length h" "strlen p" sb 0 b io p 0 u r]
        that S small b by simp
    from run show ?thesis
      by (auto simp: internal_logfilefs_write_def Let_def bind_out_Inr_iff dest!: loop
          split: if_split_asm option.splits)
  qed
  with disk show ?thesis by (simp add: same_system_def)
qed

lemma user_write_system:
  assumes h: "holds_log sb s h" and small: "length h + len < 2 ^ 62"
    and run: "logfilefs_write io buf len s = Inr (t, k, off)"
  shows "same_system sb s t"
proof -
  note S = holds_log_size [OF h]
  from run obtain u where u: "user_loop io buf len (circular_buffer_end s) 0 0 (s\<lparr>log_file_mutex := True\<rparr>) = Inr (u, k)"
    and t: "t = (advance k u)\<lparr>log_file_mutex := False\<rparr>"
    by (auto simp: logfilefs_write_def Let_def bind_out_Inr_iff split: if_split_asm)
  have "b_data sb b u = b_data sb b s" if "b \<in> {0, 1}" for b
    using user_loop_system [of "s\<lparr>log_file_mutex := True\<rparr>" "unat (file_size s)" "length h" len sb 0 b io buf 0 u k]
      that S small u by simp
  with user_loop_disk [OF u] show ?thesis by (simp add: t same_system_def)
qed

lemma user_write_lock:
  assumes h: "holds_log sb s h" and small: "length h + len < 2 ^ 62"
    and run: "logfilefs_write io buf len s = Inr (t, k, off)"
  shows "sb_lock t = sb_lock s"
proof -
  let ?s = "s\<lparr>log_file_mutex := True\<rparr>"
  note S = holds_log_size [OF h]
  let ?m = "unat (file_size s)"
  have "\<exists>u k z. user_loop io buf len (word_of_nat (length h)) 0 0 ?s = Inr (u, k) \<and>
    0 \<le> k \<and> k \<le> min len (length buf) \<and> ring_holds sb ?m u (wiped ?m z (h @ take k buf)) \<and>
    (z = 0 \<or> z = next_chunk (length h) ?m len k) \<and> same_globals ?s u \<and>
    ((\<forall>n k. k \<le> len \<longrightarrow> io n sb (next_sector (length h) ?m k)) \<longrightarrow>
      k = min len (length buf) \<and> z = next_chunk (length h) ?m len k)"
    by (rule user_loop_appends) (use S small in auto)
  then obtain u j where "user_loop io buf len (word_of_nat (length h)) 0 0 ?s = Inr (u, j)" "same_globals ?s u" by blast
  with run S(7) show ?thesis
    by (auto simp: logfilefs_write_def Let_def same_globals_def split: if_split_asm)
qed

section \<open>Mounting a new image\<close>

lemma length_mkfs_sb: "4072 \<le> length r \<Longrightarrow> length (mkfs_sb r) = 4096"
  by (simp add: mkfs_sb_def)

lemma length_mkfs_inode: "12 \<le> length r \<Longrightarrow> length (mkfs_inode b r) = 48"
  by (simp add: mkfs_inode_def)

lemma mkfs_image:
  assumes "4072 \<le> length rsb" and "12 \<le> length rin" and "4048 \<le> length rpad" and "8192 \<le> length img"
  shows "mkfs blocks True rsb rin rpad (\<lambda>_. None) img =
    (mkfs_sb rsb @ mkfs_inode blocks rin @ take 4048 rpad @ drop 8192 img, 0)"
  using assms by (simp add: mkfs_def write_image_def Let_def length_mkfs_sb length_mkfs_inode)

lemma mkfs_fields:
  assumes "4072 \<le> length rsb" and "12 \<le> length rin" and "length tail = 4048"
  shows "get_field SB_MAGIC (mkfs_sb rsb) = MAGIC"
    and "get_field INODE_START (mkfs_inode blocks rin @ tail) = 0"
    and "get_field INODE_END (mkfs_inode blocks rin @ tail) = 0"
    and "get_field INODE_FILE_SIZE (mkfs_inode blocks rin @ tail) = mkfs_size blocks"
  using assms get_bytes [of MAGIC] get_bytes [of 0] get_bytes [of "mkfs_size blocks"]
  by (simp_all add: get_field_drop [of SB_MAGIC] get_field_drop [of INODE_START] get_field_drop [of INODE_END]
      get_field_drop [of INODE_FILE_SIZE] mkfs_sb_def mkfs_inode_def)

lemma scast_32: "x < 2 ^ 31 \<Longrightarrow> (scast (word_of_int (int x) :: 32 word) :: 64 word) = word_of_nat x"
proof -
  assume x: "x < 2 ^ 31"
  have "sint (word_of_int (int x) :: 32 word) = int x"
    unfolding signed_of_int by (subst signed_take_bit_int_eq_self) (use x in simp_all)
  then show ?thesis by (simp only: scast_eq of_int_of_nat_eq)
qed

lemma mkfs_size_nat: "n * 4096 < 2 ^ 31 \<Longrightarrow> mkfs_size (int n) = word_of_nat (n * 4096)"
  using scast_32 [of "n * 4096"] by (simp add: mkfs_size_def)

text \<open>An image of \<open>n\<close> blocks that is formatted for \<open>n\<close> blocks mounts as an empty log of \<open>n\<close> blocks.\<close>

lemma mount_new_image:
  assumes len: "4072 \<le> length rsb" "12 \<le> length rin" "4048 \<le> length rpad" "length img = n * 4096"
    and n: "2 \<le> n" "n * 4096 < 2 ^ 31"
    and dev: "devices s sb = image_device (fst (mkfs (int n) True rsb rin rpad (\<lambda>_. None) img))"
    and free: "\<not> mounted s" "\<not> sb_lock s" "\<not> log_file_mutex s"
    and io: "\<forall>n b. b \<in> {0, 1} \<longrightarrow> io n sb b"
  shows "\<exists>t. singlefilefs_fill_super io True True sb s = Inr (t, 0) \<and> holds_log sb t [] \<and> mounted t \<and>
    \<not> log_file_mutex t \<and> unat (file_size t) = n * 4096"
proof -
  let ?tail = "take 4048 rpad"
  have img: "fst (mkfs (int n) True rsb rin rpad (\<lambda>_. None) img) =
      mkfs_sb rsb @ mkfs_inode (int n) rin @ ?tail @ drop 8192 img"
    using mkfs_image [OF len(1-3), of img "int n"] len(4) n(1) by simp
  have tl: "length ?tail = 4048" using len(3) by simp
  have b0: "b_data sb 0 s = mkfs_sb rsb" and b1: "b_data sb 1 s = mkfs_inode (int n) rin @ ?tail"
    using len tl length_mkfs_sb [OF len(1)] length_mkfs_inode [OF len(2)]
    by (simp_all add: b_data_def buffer_of_def dev image_device_def img)
  have bl: "length (b_data sb b s) = 4096" for b
    by (simp add: b_data_def buffer_of_def dev image_device_def)
  note F = mkfs_fields [OF len(1,2) tl]
  obtain t where t: "singlefilefs_fill_super io True True sb s = Inr (t, 0)" "mounted t"
    "singleton_sb t = Some sb" "log_file_mutex t = log_file_mutex s"
    "circular_buffer_start t = 0" "circular_buffer_end t = 0" "file_size t = mkfs_size (int n)"
    "\<forall>b. b_data sb b t = b_data sb b s"
    using fill_super_reads [where io = io, OF free(1) io free(2)] unfolding b0 b1 F by blast
  have fs: "unat (file_size t) = n * 4096"
  proof -
    have "n * 4096 < 2 ^ LENGTH(64)" using n(2) by simp
    then show ?thesis unfolding t(7) mkfs_size_nat [OF n(2)] by (simp only: unat_of_nat mod_less)
  qed
  have "holds_log sb t []"
    using n t(3,5,6,8) bl by (simp add: holds_log_def ring_holds_def ring_ok_def contents_def fs)
  with t free(3) fs show ?thesis by blast
qed

text \<open>The logger on such a device: blocks that are not there stop it.\<close>

definition keep_fitting :: "nat \<Rightarrow> char list \<Rightarrow> char list \<Rightarrow> char list" where
  "keep_fitting room h p = (if length h + strlen p \<le> room then h @ c_str p else h)"

lemma log_step:
  assumes h: "holds_log sb s h" "length h \<le> (n - 2) * 4096" and fs: "unat (file_size s) = n * 4096"
    and free: "\<not> log_file_mutex s" "mounted s" and p: "terminated p" "strlen p < 2 ^ 60"
    and n: "2 \<le> n" "n * 4096 < 2 ^ 31" and io: "\<forall>k b. io k sb b = (unat b < n)"
  shows "\<exists>t. internal_logfilefs_write io p s = Inr t \<and> holds_log sb t (keep_fitting ((n - 2) * 4096) h p) \<and>
    \<not> log_file_mutex t \<and> mounted t \<and> file_size t = file_size s"
proof -
  let ?cap = "(n - 2) * 4096"
  have cap: "?cap + 8192 = n * 4096" using n(1) by (simp add: diff_mult_distrib)
  have small: "length h + strlen p < 2 ^ 62" using h(2) p(2) cap n(2) by simp
  have sec: "unat (next_sector (length h) (n * 4096) k) = (length h + k) div 4096 + 2"
    if "length h + k \<le> ?cap" for k
  proof -
    have "length h + k < n * 4096" using that cap by linarith
    moreover have "(length h + k) div 4096 + 2 < 2 ^ LENGTH(64)"
      using that cap n(2) le_less_trans [OF div_le_dividend [of "length h + k" 4096]] by simp
    ultimately show ?thesis unfolding next_sector_def by (simp only: mod_less unat_of_nat)
  qed
  show ?thesis
  proof (cases "length h + strlen p \<le> ?cap")
    case True
    have "io i sb (next_sector (length h) (unat (file_size s)) k)" if "k < strlen p" for i k
    proof -
      have k: "length h + k < (n - 2) * 4096" using that True by linarith
      then have "(length h + k) div 4096 < n - 2" by (simp add: less_mult_imp_div_less)
      with sec [of k] k n(1) io show ?thesis unfolding fs by simp
    qed
    then have "\<forall>i k. k < strlen p \<longrightarrow> io i sb (next_sector (length h) (unat (file_size s)) k)" by blast
    from internal_write_appends_log [where io = io, OF h(1) free p(1) small this] True show ?thesis
      by (auto simp: keep_fitting_def)
  next
    case False
    let ?k = "?cap - length h"
    have k: "?k < strlen p" "length h + ?k = ?cap" using False h(2) by linarith+
    have "unat (next_sector (length h) (n * 4096) ?k) = n"
      using sec [of ?k] k(2) n(1) by simp
    then have bad: "\<forall>i. \<not> io i sb (next_sector (length h) (unat (file_size s)) ?k)" unfolding fs using io by simp
    have "length h + ?k \<le> unat (file_size s)" unfolding k(2) fs using cap by linarith
    from internal_write_aborts [where io = io, OF h(1) free p(1) small k(1) this bad] False show ?thesis
      by (auto simp: keep_fitting_def)
  qed
qed

lemma keep_fitting_length: "length h \<le> m \<Longrightarrow> length (keep_fitting m h p) \<le> m"
  by (simp add: keep_fitting_def strlen_def)

lemma log_all_fitting:
  assumes "holds_log sb s h" and "length h \<le> (n - 2) * 4096" and "unat (file_size s) = n * 4096"
    and "\<not> log_file_mutex s" and "mounted s" and "\<forall>p \<in> set ps. terminated p \<and> strlen p < 2 ^ 60"
    and n: "2 \<le> n" "n * 4096 < 2 ^ 31" and io: "\<forall>k b. io k sb b = (unat b < n)"
  shows "\<exists>t. log_all io ps s = Inr t \<and> file_size t = file_size s \<and>
    holds_log sb t (foldl (keep_fitting ((n - 2) * 4096)) h ps)"
  using assms(1-6)
proof (induction ps arbitrary: s h)
  case (Cons p ps)
  have p: "terminated p" "strlen p < 2 ^ 60" using Cons.prems(6) by simp_all
  obtain t where t: "internal_logfilefs_write io p s = Inr t"
    "holds_log sb t (keep_fitting ((n - 2) * 4096) h p)" "\<not> log_file_mutex t" "mounted t" "file_size t = file_size s"
    using log_step [where io = io, OF Cons.prems(1-5) p n io] by blast
  have "\<exists>u. log_all io ps t = Inr u \<and> file_size u = file_size t \<and>
      holds_log sb u (foldl (keep_fitting ((n - 2) * 4096)) (keep_fitting ((n - 2) * 4096) h p) ps)"
    by (rule Cons.IH) (use t Cons.prems keep_fitting_length in auto)
  with t(1,5) show ?case by simp
qed simp

section \<open>Properties\<close>

text \<open>
  C15. Unmounting saves the counters in the block of the inode and mounting reads them back: as long as
  the buffers of the device survive in between, the log continues with the same history.
\<close>

theorem remount_restores:
  assumes "holds_log sb s h" and "\<not> sb_lock s" and "\<forall>n b. b \<in> {0, 1} \<longrightarrow> io n sb b"
    and "length (b_data sb 1 s) = DEFAULT_BLOCK_SIZE" and "same_buffers sync" and "same_buffers kill"
    and "get_field SB_MAGIC (b_data sb 0 s) = MAGIC" and "get_field INODE_FILE_SIZE (b_data sb 1 s) = file_size s"
  shows "\<exists>t u. singlefilefs_kill_superblock io sync kill sb s = Inr t \<and> \<not> mounted t \<and>
    singlefilefs_fill_super io True True sb t = Inr (u, 0) \<and> mounted u \<and> \<not> sb_lock u \<and> holds_log sb u h"
proof -
  have io: "io 0 sb 1" using assms(3) by simp
  obtain t where t: "singlefilefs_kill_superblock io sync kill sb s = Inr t" "\<not> mounted t" "\<not> sb_lock t"
    "b_data sb 1 t = set_field INODE_END (circular_buffer_end s)
      (set_field INODE_START (circular_buffer_start s) (b_data sb 1 s))"
    "\<forall>b. b \<noteq> 1 \<longrightarrow> b_data sb b t = b_data sb b s"
    using kill_stores [where io = io, OF assms(2) io assms(4-6)] by blast
  have "b_data sb 0 t = b_data sb 0 s" using t(5) by simp
  then have magic: "get_field SB_MAGIC (b_data sb 0 t) = MAGIC" using assms(7) by simp
  obtain u where u: "singlefilefs_fill_super io True True sb t = Inr (u, 0)" "mounted u" "\<not> sb_lock u"
    "singleton_sb u = Some sb" "circular_buffer_start u = get_field INODE_START (b_data sb 1 t)"
    "circular_buffer_end u = get_field INODE_END (b_data sb 1 t)"
    "file_size u = get_field INODE_FILE_SIZE (b_data sb 1 t)" "\<forall>b. b_data sb b u = b_data sb b t"
    using fill_super_reads [where io = io, OF t(2) assms(3) t(3) magic] by blast
  have f: "circular_buffer_start u = circular_buffer_start s" "circular_buffer_end u = circular_buffer_end s"
    "file_size u = file_size s"
    using assms(4,8) by (simp_all add: u(5-7) t(4) get_set_field get_set_other)
  have "ring_holds sb (unat (file_size s)) u h"
    by (rule ring_holds_blocks [of _ _ s]) (use assms(1) t(5) u(8) in \<open>auto simp: holds_log_def\<close>)
  then have "holds_log sb u h" using assms(1) by (simp add: holds_log_def f u(4))
  with t(1,2) u(1-3) show ?thesis by blast
qed

text \<open>
  But nothing marks a buffer dirty, so nothing is ever written to the disk: whatever is logged, when
  the buffers are dropped at the unmount the next mount finds the device as it was on disk before, with
  the old counters.
\<close>

lemma unmount_loses_log:
  assumes "log_all io ps s = Inr t" and "\<not> sb_lock t" and "\<forall>n b. b \<in> {0, 1} \<longrightarrow> io n sb b"
    and "\<forall>d. sync d = d" and "\<forall>d. kill d = d\<lparr>cache := (\<lambda>_. None)\<rparr>"
    and "get_field SB_MAGIC (disk_of s sb 0) = MAGIC"
  shows "\<exists>u v. singlefilefs_kill_superblock io sync kill sb t = Inr u \<and>
    singlefilefs_fill_super io True True sb u = Inr (v, 0) \<and>
    circular_buffer_end v = get_field INODE_END (disk_of s sb 1) \<and>
    (\<forall>b. b_data sb b v = disk_of s sb b)"
proof -
  have d: "disk (devices t sb) = disk (devices s sb)"
    using log_all_disk [OF assms(1)] by (metis disk_of_def)
  let ?x = "set_field INODE_END (circular_buffer_end t) (set_field INODE_START (circular_buffer_start t) (b_data sb 1 t))"
  define u where "u = on_device sb kill ((on_device sb sync (set_b_data sb 1 ?x (t\<lparr>sb_lock := True\<rparr>)))
    \<lparr>singleton_sb := None, mounted := False, sb_lock := False\<rparr>)"
  have k: "singlefilefs_kill_superblock io sync kill sb t = Inr u"
    using assms(2,3) by (simp add: singlefilefs_kill_superblock_def Let_def u_def)
  have g: "\<not> mounted u" "\<not> sb_lock u" by (simp_all add: u_def)
  have b: "b_data sb b u = disk_of s sb b" for b
    by (simp add: u_def b_data_def buffer_of_def on_device_def assms(4,5) set_b_data_def disk_of_def d)
  have magic: "get_field SB_MAGIC (b_data sb 0 u) = MAGIC" using assms(6) by (simp add: b)
  obtain v where "singlefilefs_fill_super io True True sb u = Inr (v, 0)"
    "circular_buffer_end v = get_field INODE_END (b_data sb 1 u)" "\<forall>b. b_data sb b v = b_data sb b u"
    using fill_super_reads [where io = io, OF g(1) assms(3) g(2) magic] by blast
  with k b show ?thesis by auto
qed

text \<open>
  C16. Trying to mount a second device while the log is mounted fails with \<open>-EBUSY\<close>, but \<open>mount_bdev\<close>
  then calls the \<open>kill_sb\<close> of the type on the device that failed, which unmounts the log: from there on
  the logger drops what it is given.
\<close>

theorem second_mount_stops_log:
  assumes "mount_documented mount_bdev" and "mounted s" and "\<not> sb_lock s" and "\<not> log_file_mutex s"
    and "io 0 other 1"
  shows "\<exists>t. singlefilefs_mount mount_bdev io root_inode root_dentry sync kill other s = Inr (t, - EBUSY) \<and>
    \<not> mounted t \<and> singleton_sb t = None \<and>
    (\<forall>io' p. terminated p \<longrightarrow> internal_logfilefs_write io' p t = Inr t)"
proof -
  have "singlefilefs_fill_super io root_inode root_dentry other s = Inr (s, - EBUSY)"
    using assms(2) by (simp add: singlefilefs_fill_super_def)
  moreover obtain t where t: "singlefilefs_kill_superblock io sync kill other s = Inr t"
    "\<not> mounted t" "singleton_sb t = None" "\<not> log_file_mutex t"
    using assms(3-5) by (simp add: singlefilefs_kill_superblock_def Let_def)
  ultimately have "singlefilefs_mount mount_bdev io root_inode root_dentry sync kill other s = Inr (t, - EBUSY)"
    using assms(1) by (simp add: singlefilefs_mount_def mount_documented_def EBUSY_def)
  moreover have "internal_logfilefs_write io' p t = Inr t" if "terminated p" for io' p
    using that t(2,4) by (simp add: internal_logfilefs_write_def Let_def)
  ultimately show ?thesis using t by blast
qed

text \<open>
  C17. The tool that formats an image gives the log one block for each block it is told the image has,
  though two of them hold the superblock and the inode. An image of \<open>n\<close> blocks that is formatted for
  its own \<open>n\<close> blocks mounts as an empty log whose ring is as large as the whole device, two blocks
  more than the \<open>n - 2\<close> that hold data. The log keeps every line while it fits in the blocks that
  are there; a line that does not fit is dropped, and the log never holds more: the ring never turns.
\<close>

theorem mkfs_log_never_wraps:
  assumes "4072 \<le> length rsb" "12 \<le> length rin" "4048 \<le> length rpad" "length img = n * DEFAULT_BLOCK_SIZE"
    and "2 \<le> n" "n * DEFAULT_BLOCK_SIZE < 2 ^ 31"
    and "devices s sb = image_device (fst (mkfs (int n) True rsb rin rpad (\<lambda>_. None) img))"
    and "\<not> mounted s" "\<not> sb_lock s" "\<not> log_file_mutex s"
    and "\<forall>k b. io k sb b = (unat b < n)"
    and "\<forall>p \<in> set ps. terminated p \<and> strlen p < 2 ^ 60"
  shows "\<exists>t u. singlefilefs_fill_super io True True sb s = Inr (t, 0) \<and> log_all io ps t = Inr u \<and>
    file_size u = word_of_nat (n * DEFAULT_BLOCK_SIZE) \<and>
    holds_log sb u (foldl (keep_fitting ((n - 2) * DEFAULT_BLOCK_SIZE)) [] ps)"
proof -
  have io: "\<forall>k b. b \<in> {0, 1} \<longrightarrow> io k sb b" using assms(5,11) by auto
  obtain t where t: "singlefilefs_fill_super io True True sb s = Inr (t, 0)" "holds_log sb t []" "mounted t"
    "\<not> log_file_mutex t" "unat (file_size t) = n * 4096"
    using mount_new_image [where io = io, OF assms(1-10) io] by blast
  obtain u where u: "log_all io ps t = Inr u" "file_size u = file_size t"
    "holds_log sb u (foldl (keep_fitting ((n - 2) * 4096)) [] ps)"
    using log_all_fitting [where io = io, OF t(2) _ t(5,4,3) assms(12,5,6,11)] by auto
  have "file_size u = word_of_nat (unat (file_size t))" using u(2) by simp
  then have "file_size u = word_of_nat (n * 4096)" by (simp only: t(5))
  with t(1) u show ?thesis by blast
qed



text \<open>
  A device for the examples: formatted for two blocks, with three bytes in the first block of the log
  that a mounted file system knows of and the inode on disk does not.
\<close>

definition demo_device :: device where
  "demo_device = \<lparr>disk = (\<lambda>b. if b = 0 then mkfs_sb (replicate 4072 NUL)
     else if b = 1 then mkfs_inode 2 (replicate 12 NUL) @ replicate 4048 NUL
     else ''abc'' @ replicate 4093 NUL), cache = (\<lambda>_. None)\<rparr>"

definition demo_mounted :: logfs where
  "demo_mounted = \<lparr>circular_buffer_start = 0, circular_buffer_end = 3, file_size = 8192, log_file_mutex = False,
     mounted = True, sb_lock = False, singleton_sb = Some 7, devices = (\<lambda>_. demo_device)\<rparr>"

lemma demo_fields:
  "get_field SB_MAGIC (mkfs_sb (replicate 4072 NUL)) = MAGIC"
  "get_field INODE_END (mkfs_inode 2 (replicate 12 NUL) @ replicate 4048 NUL) = 0"
  "get_field INODE_FILE_SIZE (mkfs_inode 2 (replicate 12 NUL) @ replicate 4048 NUL) = 8192"
  "length (mkfs_sb (replicate 4072 NUL)) = 4096"
  "length (mkfs_inode 2 (replicate 12 NUL) @ replicate 4048 NUL) = 4096"
  using mkfs_fields(1) [where rsb = "replicate 4072 NUL" and rin = "replicate 12 NUL" and tail = "replicate 4048 NUL"]
    mkfs_fields(2-4) [where rsb = "replicate 4072 NUL" and rin = "replicate 12 NUL" and tail = "replicate 4048 NUL"
      and blocks = 2] mkfs_size_nat [of 2]
    length_mkfs_sb [of "replicate 4072 NUL"] length_mkfs_inode [of "replicate 12 NUL" 2]
  by (simp_all)

lemma demo_data: "b_data 7 b demo_mounted = disk demo_device b"
  by (simp add: b_data_def buffer_of_def demo_mounted_def demo_device_def)

lemma demo_mounted_holds: "holds_log 7 demo_mounted ''abc''"
proof -
  have len: "length (disk demo_device b) = 4096" for b
    using demo_fields(4,5) by (simp add: demo_device_def)
  have d2: "disk demo_device 2 = ''abc'' @ replicate 4093 NUL" by (simp add: demo_device_def)
  have "ring_byte 7 demo_mounted (i mod 8192) = ''abc'' ! i" if "i < 3" for i
    using that nth_append_left [of i "''abc''" "replicate 4093 NUL"] by (simp add: ring_byte_def demo_data d2)
  then have "contents (ring_byte 7 demo_mounted) 8192 ''abc''" by (simp add: contents_def)
  with len show ?thesis
    by (simp add: holds_log_def ring_holds_def ring_ok_def demo_data) (simp add: demo_mounted_def)
qed

lemma demo_mounted_simps [simp]: "\<not> sb_lock demo_mounted" "\<not> log_file_mutex demo_mounted"
  "mounted demo_mounted" "file_size demo_mounted = 8192"
  by (simp_all add: demo_mounted_def)

theorem remount_restores_witness:
  "\<exists>t u. singlefilefs_kill_superblock (\<lambda>_ _ _. True) (\<lambda>d. d) (\<lambda>d. d) 7 demo_mounted = Inr t \<and>
     singlefilefs_fill_super (\<lambda>_ _ _. True) True True 7 t = Inr (u, 0) \<and> holds_log 7 u ''abc''"
proof -
  have same: "same_buffers (\<lambda>d. d)" by (simp add: same_buffers_def)
  have l: "length (b_data 7 1 demo_mounted) = 4096" "get_field SB_MAGIC (b_data 7 0 demo_mounted) = MAGIC"
    "get_field INODE_FILE_SIZE (b_data 7 1 demo_mounted) = file_size demo_mounted"
    using demo_fields by (simp_all add: demo_data demo_device_def)
  show ?thesis
    using remount_restores [OF demo_mounted_holds demo_mounted_simps(1) _ l(1) same same l(2,3), of "\<lambda>_ _ _. True"]
    by blast
qed

theorem second_mount_stops_log_witness:
  "\<exists>t. singlefilefs_mount (\<lambda>fill kill sb s. bind_out (fill sb s) (\<lambda>(s, r).
        if r = 0 then Inr (s, 0) else bind_out (kill sb s) (\<lambda>s. Inr (s, r))))
      (\<lambda>_ _ _. True) True True (\<lambda>d. d) (\<lambda>d. d) 8 demo_mounted = Inr (t, - EBUSY) \<and>
     internal_logfilefs_write (\<lambda>_ _ _. True) log_line t = Inr t"
proof -
  have m: "mount_documented (\<lambda>fill kill sb s. bind_out (fill sb s) (\<lambda>(s, r).
        if r = 0 then Inr (s, 0) else bind_out (kill sb s) (\<lambda>s. Inr (s, r))))"
    by (simp add: mount_documented_def)
  have "terminated log_line" by (simp add: terminated_def)
  with second_mount_stops_log [OF m demo_mounted_simps(3,1,2), of "\<lambda>_ _ _. True" 8] show ?thesis by blast
qed

theorem mkfs_log_never_wraps_witness:
  "\<exists>t u. singlefilefs_fill_super (\<lambda>_ _ b. unat b < 3) True True 7
      (demo_mounted\<lparr>mounted := False, devices := (\<lambda>_. image_device (fst (mkfs 3 True (replicate 4072 NUL)
         (replicate 12 NUL) (replicate 4048 NUL) (\<lambda>_. None) (replicate 12288 NUL))))\<rparr>) = Inr (t, 0) \<and>
     log_all (\<lambda>_ _ b. unat b < 3) [replicate 5000 CHR ''x'' @ [NUL], log_line] t = Inr u \<and>
     holds_log 7 u ''hash:ab''"
proof -
  let ?s = "demo_mounted\<lparr>mounted := False, devices := (\<lambda>_. image_device (fst (mkfs 3 True (replicate 4072 NUL)
         (replicate 12 NUL) (replicate 4048 NUL) (\<lambda>_. None) (replicate 12288 NUL))))\<rparr>"
  let ?ps = "[replicate 5000 CHR ''x'' @ [NUL], log_line]"
  have s: "strlen (replicate 5000 CHR ''x'' @ [NUL]) = 5000" "strlen log_line = 7" "c_str log_line = ''hash:ab''"
    by (simp_all add: strlen_def c_str_def) (simp_all flip: c_str_def)
  have p: "\<forall>p \<in> set ?ps. terminated p \<and> strlen p < 2 ^ 60" using s(1,2) by (simp add: terminated_def)
  have "\<exists>t u. singlefilefs_fill_super (\<lambda>_ _ b. unat b < 3) True True 7 ?s = Inr (t, 0) \<and>
    log_all (\<lambda>_ _ b. unat b < 3) ?ps t = Inr u \<and> file_size u = word_of_nat (3 * 4096) \<and>
    holds_log 7 u (foldl (keep_fitting ((3 - 2) * 4096)) [] ?ps)"
    by (rule mkfs_log_never_wraps [where img = "replicate 12288 NUL"])
      (use p in \<open>simp_all\<close>)
  moreover have "foldl (keep_fitting ((3 - 2) * 4096)) [] ?ps = ''hash:ab''"
    using s by (simp add: keep_fitting_def)
  ultimately show ?thesis by auto
qed

definition dir_entries :: "(string \<times> nat) list" where
  "dir_entries = [(''.'', SINGLEFILEFS_ROOT_INODE_NUMBER), (''..'', 1), (UNIQUE_FILE_NAME, SINGLEFILEFS_FILE_INODE_NUMBER)]"

definition dir_ok :: "dir_context \<Rightarrow> bool" where
  "dir_ok c = (0 \<le> ctx_pos c \<and> ctx_pos c \<le> 3 \<and> emitted c = take (nat (ctx_pos c)) dir_entries)"

text \<open>
  C32. However often the directory is listed and however full the buffer of the caller gets, the entries
  handed out are the three of the file system in their order, each once: after every call a beginning of
  the list is out, and a call ends early only because the next entry was refused.
\<close>

theorem iterate_lists_once:
  assumes "dir_ok c"
  shows "dir_ok (onefilefs_iterate emit c) \<and> ctx_pos c \<le> ctx_pos (onefilefs_iterate emit c) \<and>
    (ctx_pos (onefilefs_iterate emit c) < 3 \<longrightarrow>
      \<not> emit (emitted (onefilefs_iterate emit c)) (dir_entries ! nat (ctx_pos (onefilefs_iterate emit c))))"
proof -
  from assms have "ctx_pos c = 0 \<or> ctx_pos c = 1 \<or> ctx_pos c = 2 \<or> ctx_pos c = 3"
    by (auto simp: dir_ok_def)
  with assms show ?thesis
    by (elim disjE) (simp_all add: dir_ok_def onefilefs_iterate_def emit_at_def dir_entries_def numeral_eq_Suc)
qed

theorem iterate_lists_once_witness:
  "emitted (onefilefs_iterate (\<lambda>es e. True)
     (onefilefs_iterate (\<lambda>es e. length es < 1) \<lparr>ctx_pos = 0, emitted = []\<rparr>)) = dir_entries"
proof -
  let ?a = "onefilefs_iterate (\<lambda>es e. length es < 1) \<lparr>ctx_pos = 0, emitted = []\<rparr>"
  have "dir_ok \<lparr>ctx_pos = 0, emitted = []\<rparr>" by (simp add: dir_ok_def)
  then have "dir_ok ?a" using iterate_lists_once by blast
  from iterate_lists_once [OF this, of "\<lambda>es e. True"] show ?thesis
    by (auto simp: dir_ok_def dir_entries_def not_less)
qed

end
