(* ===== verification/Klrm_Module.thy ===== *)
theory Klrm_Module
  imports Klrm_Ioctl Log_Mount
begin

text \<open>
  The module as a whole, \<open>mod_main.c\<close>: \<open>klrm_init\<close> sets the parts up in order, \<open>klrm_exit\<close> takes
  them down. The results of the password setup and of the registrations of the device and of the file
  system are ignored.
\<close>

section \<open>The whole state\<close>

text \<open>
  The monitor behind its device, the log, whether the cache of arguments and the device are registered,
  and whether the file system type is.
\<close>

record monitor =
  mo_klrm :: klrm
  mo_logfs :: logfs
  mo_api :: "bool \<times> bool"
  mo_fs_registered :: bool

text \<open>What the kernel grants during the setup.\<close>

record init_env =
  in_fs_cache :: bool
  in_inodes_cache :: bool
  in_dirs_cache :: bool
  in_slab :: "addr list \<Rightarrow> addr option"
  in_input_cache :: bool
  in_register_chrdev :: int
  in_register_kprobe :: "string \<Rightarrow> int \<times> 64 word"
  in_register_filesystem :: int

section \<open>Init and exit\<close>

definition klrm_init :: "init_env \<Rightarrow> monitor \<Rightarrow> (monitor \<times> int) outcome" where
  "klrm_init E s =
     (let k = mo_klrm s; k = k\<lparr>k_machine := setup_state_machine (k_machine k)\<rparr> in
      bind_out (setup_password (k_password k)) (\<lambda>(p, _).
        let k = k\<lparr>k_password := p\<rparr> in
        case setup_path_store (in_fs_cache E) (in_inodes_cache E) (in_dirs_cache E) (in_slab E) (k_store k) of
          None \<Rightarrow> Inr (s\<lparr>mo_klrm := k\<rparr>, 1)
        | Some st \<Rightarrow>
            let k = k\<lparr>k_store := st\<rparr>;
                (r, cache, device, probes, addr) = setup_api (in_input_cache E) (in_register_chrdev E) (in_register_kprobe E) in
            if r \<noteq> 0
            then bind_out (cleanup_path_store st) (\<lambda>(st, _).
              Inr (s\<lparr>mo_klrm := k\<lparr>k_store := st\<rparr>, mo_api := (cache, device)\<rparr>, 1))
            else
              let (fs, registered) = singlefilefs_init (in_register_filesystem E) (mo_logfs s) in
              Inr (s\<lparr>mo_klrm := k, mo_logfs := fs, mo_api := (cache, device), mo_fs_registered := (registered = 0)\<rparr>, 0)))"

definition klrm_exit :: "monitor \<Rightarrow> monitor outcome" where
  "klrm_exit s =
     bind_out (cleanup_path_store (k_store (mo_klrm s))) (\<lambda>(st, _).
       Inr (s\<lparr>mo_klrm := (mo_klrm s)\<lparr>k_store := st\<rparr>, mo_api := cleanup_api (mo_api s), mo_fs_registered := False\<rparr>))"

section \<open>Well-formed monitors\<close>

definition monitor_ok :: "monitor \<Rightarrow> bool" where
  "monitor_ok s =
     (store_ok (k_store (mo_klrm s)) \<and> rw_free (store_lock (k_store (mo_klrm s))) \<and>
      rw_free (rec_sem (k_machine (mo_klrm s))) \<and> rw_free (set_sem (k_machine (mo_klrm s))) \<and>
      \<not> log_file_mutex (mo_logfs s) \<and> \<not> sb_lock (mo_logfs s))"

definition loaded_image :: "monitor \<Rightarrow> path_tree \<Rightarrow> bool" where
  "loaded_image s t =
     (k_store (mo_klrm s) = module_image t \<and> mo_api s = (False, False) \<and> \<not> mo_fs_registered s \<and>
      (\<exists>j1 j2. k_machine (mo_klrm s) = bss_state_machine j1 j2) \<and>
      terminated (hashed_password (k_password (mo_klrm s))))"

lemma cleanup_empties:
  assumes "store_ok s" and "rw_free (store_lock s)"
  shows "\<exists>s' freed entries. cleanup_path_store s = Inr (s', freed, entries) \<and>
    pt_heap (ps_tree s') = Map.empty \<and> fs_stores (it_inodes (ps_iter s')) = []"
  using cleanup_frees [OF assms(1)] assms(2) by (simp only: if_True) blast

lemma init_ready:
  assumes "loaded_image s t" and "in_fs_cache E" and "in_inodes_cache E" and "in_dirs_cache E"
    and "in_input_cache E" and "slab_sound (in_slab E)" and "in_slab E [] \<noteq> None"
  shows "\<exists>s'. klrm_init E s = Inr (s', 0) \<and> monitor_ok s' \<and> protected_paths (k_store (mo_klrm s')) = {} \<and>
    registered (k_store (mo_klrm s')) = {} \<and> nonce (it_inodes (ps_iter (k_store (mo_klrm s')))) = 0 \<and>
    length (pt_allocations (ps_tree (k_store (mo_klrm s')))) = 1 \<and>
    rec_toggle (k_machine (mo_klrm s')) = ON \<and> set_toggle (k_machine (mo_klrm s')) = ON \<and>
    mo_api s' = (True, 0 \<le> in_register_chrdev E) \<and> mo_fs_registered s' = (in_register_filesystem E = 0) \<and>
    input_objects (mo_klrm s') = input_objects (mo_klrm s) \<and>
    hash_compressed (k_password (mo_klrm s')) =
      (if strlen (hashed_password (k_password (mo_klrm s))) = 128
       then pack_digits (take 128 (hashed_password (k_password (mo_klrm s))))
       else hash_compressed (k_password (mo_klrm s)))"
proof -
  obtain st where st: "setup_path_store True True True (in_slab E) (module_image t) = Some st"
    using assms(7) by (auto simp: setup_path_store_def setup_inode_store_def Let_def)
  note ok = setup_ok [OF st assms(6)]
  obtain j1 j2 where m: "k_machine (mo_klrm s) = bss_state_machine j1 j2"
    using assms(1) by (auto simp: loaded_image_def)
  have k: "k_store (mo_klrm s) = module_image t" "terminated (hashed_password (k_password (mo_klrm s)))"
    using assms(1) by (simp_all add: loaded_image_def)
  obtain probes addr where pr: "addr_kprobe_oracle (in_register_kprobe E) ''getname_kernel'' 0 = (probes, addr)"
    by fastforce
  show ?thesis
    using assms(2-5) st ok
    by (simp add: klrm_init_def Let_def setup_password_def k st setup_api_def pr singlefilefs_init_def monitor_ok_def m
        setup_state_machine_def bss_state_machine_def registered_def node_of_def [abs_def])
qed

section \<open>Properties\<close>

text \<open>
  C38. Loading the module, when the kernel grants the caches and the first slab object, gives a
  well-formed monitor: nothing is protected, no lock is held and both toggles are on. The device is there
  exactly if its registration succeeded, and the file system type if its did; the module loads either way,
  since neither result is looked at. The hash is the decoded one
  only if the configured one has 128 digits: the result of the decoding is not looked at, and with
  another length the module loads all the same with the hash of the zeroed image.
\<close>

theorem klrm_init_ready:
  assumes "loaded_image s t" and "in_fs_cache E" and "in_inodes_cache E" and "in_dirs_cache E"
    and "in_input_cache E" and "slab_sound (in_slab E)" and "in_slab E [] \<noteq> None"
  shows "\<exists>s'. klrm_init E s = Inr (s', 0) \<and> monitor_ok s' \<and> protected_paths (k_store (mo_klrm s')) = {} \<and>
    rec_toggle (k_machine (mo_klrm s')) = ON \<and> set_toggle (k_machine (mo_klrm s')) = ON \<and>
    mo_api s' = (True, 0 \<le> in_register_chrdev E) \<and> mo_fs_registered s' = (in_register_filesystem E = 0) \<and>
    hash_compressed (k_password (mo_klrm s')) =
      (if strlen (hashed_password (k_password (mo_klrm s))) = 128
       then pack_digits (take 128 (hashed_password (k_password (mo_klrm s))))
       else hash_compressed (k_password (mo_klrm s)))"
  using init_ready [OF assms] by blast

definition demo_image :: monitor where
  "demo_image = \<lparr>mo_klrm = demo_klrm\<lparr>k_machine := bss_state_machine rw_init rw_init,
       k_store := module_image \<lparr>pt_heap = Map.empty, pt_root = 0, pt_allocations = []\<rparr>\<rparr>,
     mo_logfs = demo_log\<lparr>mounted := False, singleton_sb := None\<rparr>, mo_api = (False, False), mo_fs_registered = False\<rparr>"

definition demo_init_env :: init_env where
  "demo_init_env = \<lparr>in_fs_cache = True, in_inodes_cache = True, in_dirs_cache = True, in_slab = demo_slab,
     in_input_cache = True, in_register_chrdev = 240,
     in_register_kprobe = (\<lambda>_. (0, 0xffffffff81000000)), in_register_filesystem = 0\<rparr>"

theorem klrm_init_ready_witness:
  "(\<exists>s'. klrm_init demo_init_env demo_image = Inr (s', 0) \<and> monitor_ok s' \<and> mo_api s' = (True, True) \<and>
     hash_compressed (k_password (mo_klrm s')) = replicate 64 0) \<and>
   (\<exists>s'. klrm_init (demo_init_env\<lparr>in_register_chrdev := - EBUSY\<rparr>) demo_image = Inr (s', 0) \<and> monitor_ok s' \<and>
     mo_api s' = (True, False))"
proof -
  have pw: "terminated (hashed_password demo_password)" "strlen (hashed_password demo_password) \<noteq> 128"
    "hash_compressed demo_password = replicate 64 0"
    by (simp_all add: demo_password_def terminated_def strlen_def c_str_def)
  have l: "loaded_image demo_image \<lparr>pt_heap = Map.empty, pt_root = 0, pt_allocations = []\<rparr>"
    using pw(1) by (auto simp: loaded_image_def demo_image_def demo_klrm_def)
  have k: "k_password (mo_klrm demo_image) = demo_password" by (simp add: demo_image_def demo_klrm_def)
  let ?E = "\<lambda>r. demo_init_env\<lparr>in_register_chrdev := r\<rparr>"
  have r: "in_slab (?E r) [] \<noteq> None" for r
    using demo_slab_roomy [of 1] by (simp add: demo_init_env_def slab_roomy_def)
  have e: "in_fs_cache (?E r)" "in_inodes_cache (?E r)" "in_dirs_cache (?E r)"
    "in_input_cache (?E r)" "slab_sound (in_slab (?E r))" for r
    using demo_slab_sound by (simp_all add: demo_init_env_def)
  have "?E 240 = demo_init_env" "in_register_chrdev demo_init_env = 240" by (simp_all add: demo_init_env_def)
  with klrm_init_ready [OF l e r, of 240] have "\<exists>s'. klrm_init demo_init_env demo_image = Inr (s', 0) \<and>
      monitor_ok s' \<and> mo_api s' = (True, True) \<and> hash_compressed (k_password (mo_klrm s')) = replicate 64 0"
    using pw by (auto simp: k)
  moreover from klrm_init_ready [OF l e r, of "- EBUSY"]
  have "\<exists>s'. klrm_init (?E (- EBUSY)) demo_image = Inr (s', 0) \<and> monitor_ok s' \<and> mo_api s' = (True, False)"
    by (auto simp: EBUSY_def)
  ultimately show ?thesis by blast
qed

text \<open>
  C39. A monitor that is well-formed can be unloaded: every entry, node and table of the store is given
  back, and the device and the file system type go. But one request to add a path that the kernel does
  not resolve, answered with success, makes the module impossible to unload: the removal waits for the
  lock of the store for ever.
\<close>

theorem unresolved_add_blocks_unload:
  assumes ok: "monitor_ok s" and pw: "right_password C i (mo_klrm s)" "terminated (password_bytes i)"
    and on: "rec_toggle (k_machine (mo_klrm s)) = ON"
    and code: "well_sized code" "code AND CODE_MASK = ADD_PATH" and t: "terminated (pathName i)"
    and mem: "\<forall>n. kmem E n \<noteq> None" and res: "resolve (file_system E) (c_str (pathName i)) = None"
    and st: "storable (c_str (pathName i))"
    and slab: "slab_ready E (length (path_components (c_str (pathName i)))) (k_store (mo_klrm s))"
  shows "(\<exists>s'. klrm_exit s = Inr s' \<and> mo_api s' = (fst (mo_api s), False) \<and> \<not> mo_fs_registered s' \<and>
      pt_heap (ps_tree (k_store (mo_klrm s'))) = Map.empty \<and>
      fs_stores (it_inodes (ps_iter (k_store (mo_klrm s')))) = []) \<and>
    (\<exists>k. dev_ioctl E C True code (Some i) (mo_klrm s) = Inr (k, 0) \<and>
      protected_paths (k_store k) =
        insert (path_components (c_str (pathName i))) (protected_paths (k_store (mo_klrm s))) \<and>
      klrm_exit (s\<lparr>mo_klrm := k\<rparr>) = Inl Blocked)"
proof
  have so: "store_ok (k_store (mo_klrm s))" and free: "rw_free (store_lock (k_store (mo_klrm s)))"
    and rec: "\<not> rw_writer (rec_sem (k_machine (mo_klrm s)))"
    using ok by (simp_all add: monitor_ok_def rw_free_def)
  obtain st' freed entries where "cleanup_path_store (k_store (mo_klrm s)) = Inr (st', freed, entries)"
    "pt_heap (ps_tree st') = Map.empty" "fs_stores (it_inodes (ps_iter st')) = []"
    using cleanup_empties [OF so free] by blast
  then show "\<exists>s'. klrm_exit s = Inr s' \<and> mo_api s' = (fst (mo_api s), False) \<and> \<not> mo_fs_registered s' \<and>
      pt_heap (ps_tree (k_store (mo_klrm s'))) = Map.empty \<and>
      fs_stores (it_inodes (ps_iter (k_store (mo_klrm s')))) = []"
    by (simp add: klrm_exit_def cleanup_api_def)
  obtain p rc where c: "check_password C (password_bytes i) (k_password (mo_klrm s)) = Inr (p, rc)"
    using check_password_runs [OF pw(2)] by blast
  from check_password_result [OF c] pw(1) have rc: "rc = 0" by simp
  have m: "kmem E (kclock (it_held (ps_iter (k_store (mo_klrm s))))) \<noteq> None" using mem by blast
  obtain u where u: "path_store_add E (pathName i) (k_store (mo_klrm s)) = Inr (u, 0)" "rw_writer (store_lock u)"
    "protected_paths u = insert (path_components (c_str (pathName i))) (protected_paths (k_store (mo_klrm s)))"
    using add_unresolved [OF so free t m res st slab] by blast
  have "dev_ioctl E C True code (Some i) (mo_klrm s) = Inr ((mo_klrm s)\<lparr>k_password := p, k_store := u\<rparr>, 0)"
    using code rc rec on u(1)
    by (simp add: dev_ioctl_def well_sized_def free_input_def Let_def klrm_path_add_def enter_rec_cases
        rec_exit_enter c)
  moreover have "klrm_exit (s\<lparr>mo_klrm := (mo_klrm s)\<lparr>k_password := p, k_store := u\<rparr>\<rparr>) = Inl Blocked"
    using u(2) by (simp add: klrm_exit_def cleanup_path_store_def down_write_def)
  ultimately show "\<exists>k. dev_ioctl E C True code (Some i) (mo_klrm s) = Inr (k, 0) \<and>
      protected_paths (k_store k) =
        insert (path_components (c_str (pathName i))) (protected_paths (k_store (mo_klrm s))) \<and>
      klrm_exit (s\<lparr>mo_klrm := k\<rparr>) = Inl Blocked" using u(3) by auto
qed

theorem unresolved_add_blocks_unload_witness:
  "\<exists>k. dev_ioctl demo_env demo_crypto True 4224 (Some (demo_input [] ''/x'')) demo_klrm = Inr (k, 0) \<and>
     klrm_exit (demo_image\<lparr>mo_klrm := k\<rparr>) = Inl Blocked"
proof -
  let ?s = "demo_image\<lparr>mo_klrm := demo_klrm\<rparr>"
  have ok: "monitor_ok ?s" using demo_store_ok
    by (simp add: monitor_ok_def demo_klrm_def demo_image_def demo_log_def)
  have k: "mo_klrm ?s = demo_klrm" by simp
  have c: "4224 AND CODE_MASK = ADD_PATH" using demo_codes(4) by (simp add: request_kind_def)
  have x: "c_str (pathName (demo_input [] ''/x'')) = c_str path_x" using demo_paths(2) by simp
  have r: "resolve (file_system demo_env) (c_str (pathName (demo_input [] ''/x''))) = None"
    unfolding x using demo_resolve(2) .
  have st: "storable (c_str (pathName (demo_input [] ''/x'')))" unfolding x demo_paths(2) by (rule demo_paths(8))
  have sl: "slab_ready demo_env (length (path_components (c_str (pathName (demo_input [] ''/x''))))) demo_store"
    unfolding x demo_paths(2,5) by (rule demo_slab_ready) simp
  have m: "\<forall>n. kmem demo_env n \<noteq> None" using demo_mem by blast
  note all = unresolved_add_blocks_unload [where s = "?s", unfolded k demo_klrm_free(3), OF ok demo_right_password(1)
      demo_input_bytes(1) demo_klrm_free(2) demo_codes(3) c demo_input_bytes(2) m r st sl]
  from conjunct2 [OF all] obtain k where
    "dev_ioctl demo_env demo_crypto True 4224 (Some (demo_input [] ''/x'')) demo_klrm = Inr (k, 0)"
    "klrm_exit (?s\<lparr>mo_klrm := k\<rparr>) = Inl Blocked" by (elim exE conjE)
  moreover have "?s\<lparr>mo_klrm := k\<rparr> = demo_image\<lparr>mo_klrm := k\<rparr>" by simp
  ultimately show ?thesis by (intro exI [of _ k]) (simp only: simp_thms)
qed

end
