(* ===== verification/Client.thy ===== *)
theory Client
  imports Klrm_Ioctl
begin

text \<open>
  The program that talks to the monitor, \<open>user/client.c\<close>: it reads the password from the terminal into
  the structure of the request, copies the path behind it and sends one request.
\<close>

section \<open>Reading the password\<close>

abbreviation LF :: char where "LF \<equiv> CHR 0x0a"

text \<open>
  The structure is the list of its bytes, the password in the first 128 of them; a write behind its end
  is a fault. No result when the input ends. The loop goes on while the character is not a newline or
  the index has reached 127.
\<close>

fun read_password :: "char list \<Rightarrow> nat \<Rightarrow> char list \<Rightarrow> (char list \<times> nat \<times> char) option outcome" where
  "read_password [] idx input = Inr None"
| "read_password (c # rest) idx input =
     (if length input \<le> idx then Inl Bad_Access
      else
        let input = input[idx := c]; idx = Suc idx in
        if c \<noteq> LF \<or> idx = 127 then read_password rest idx input else Inr (Some (input, idx, c)))"

section \<open>The request\<close>

datatype client_result = Exit int | Request "32 word" klrm_input

definition request_of :: "char list \<Rightarrow> klrm_input" where
  "request_of input = \<lparr>password = take PASSWORD_SIZE input, pathName = drop PASSWORD_SIZE input\<rparr>"

definition client_strcpy :: "string \<Rightarrow> char list \<Rightarrow> char list outcome" where
  "client_strcpy path input =
     (if length path < PATHNAME_SIZE
      then Inr (take PASSWORD_SIZE input @ path @ NUL # drop (PASSWORD_SIZE + length path + 1) input)
      else Inl Bad_Access)"

text \<open>
  \<open>main\<close>, up to the request it sends; after a request it exits with 0. With too few arguments it
  prints its usage and goes on. \<open>opened\<close> says whether the device can be opened.
\<close>

definition client_main :: "string list \<Rightarrow> char list \<Rightarrow> bool \<Rightarrow> client_result outcome" where
  "client_main argv stdin opened =
     bind_out (read_password stdin 0 (replicate (PASSWORD_SIZE + PATHNAME_SIZE) NUL)) (\<lambda>r.
       (case r of
          None \<Rightarrow> Inr (Exit 1)
        | Some (input, idx, read) \<Rightarrow>
            let input = (if read = LF then input[idx - 1 := NUL] else input[idx := NUL]) in
            if length argv < 3 then Inl Bad_Access
            else
              bind_out (client_strcpy (argv ! 2) input) (\<lambda>input.
                let word = argv ! 2 in
                if \<not> opened then Inr (Exit 1)
                else if argv ! 1 = ''add'' then Inr (Request (ADD_PATH OR SIZEOF_INPUT) (request_of input))
                else if argv ! 1 = ''rm'' then Inr (Request (RM_PATH OR SIZEOF_INPUT) (request_of input))
                else if argv ! 1 = ''check'' then Inr (Request (CHK_PATH OR SIZEOF_INPUT) (request_of input))
                else if argv ! 1 = ''rec''
                then (if word \<noteq> ''on'' \<or> word \<noteq> ''off'' then Inr (Exit 1)
                  else Inr (Request (MACHINE_REC OR SIZEOF_INPUT) (request_of input)))
                else if argv ! 1 = ''check''
                then (if word \<noteq> ''on'' \<or> word \<noteq> ''off'' then Inr (Exit 1)
                  else Inr (Request (MACHINE_SET OR SIZEOF_INPUT) (request_of input)))
                else Inr (Exit 0))))"

section \<open>Lemmas\<close>

lemma read_password_line:
  assumes "LF \<notin> set pw" and "idx + length pw < length input" and "idx + length pw \<noteq> 126"
  shows "read_password (pw @ LF # rest) idx input =
    Inr (Some (take idx input @ pw @ LF # drop (Suc (idx + length pw)) input, Suc (idx + length pw), LF))"
  using assms
proof (induction pw arbitrary: idx input)
  case Nil
  then show ?case by (simp add: Let_def upd_conv_take_nth_drop)
next
  case (Cons c pw)
  have c: "c \<noteq> LF" "idx < length input" using Cons.prems by auto
  have "read_password (pw @ LF # rest) (Suc idx) (input[idx := c]) =
      Inr (Some (take (Suc idx) (input[idx := c]) @ pw @ LF # drop (Suc (Suc idx + length pw)) (input[idx := c]),
        Suc (Suc idx + length pw), LF))"
    by (rule Cons.IH) (use Cons.prems in auto)
  moreover have "take (Suc idx) (input[idx := c]) = take idx input @ [c]"
    using c(2) by (simp add: take_Suc_conv_app_nth)
  ultimately show ?case using c by (simp add: Let_def)
qed

lemma split_at: "length a = n \<Longrightarrow> take n (a @ b) = a \<and> drop n (a @ b) = b"
  by auto

lemma codes_sized:
  "well_sized (ADD_PATH OR SIZEOF_INPUT)" "request_kind (ADD_PATH OR SIZEOF_INPUT) = ADD_PATH"
  "well_sized (RM_PATH OR SIZEOF_INPUT)" "request_kind (RM_PATH OR SIZEOF_INPUT) = RM_PATH"
  "well_sized (CHK_PATH OR SIZEOF_INPUT)" "request_kind (CHK_PATH OR SIZEOF_INPUT) = CHK_PATH"
  by (simp_all add: well_sized_def request_kind_def request_codes CODE_MASK_def SIZEOF_INPUT_def
      PASSWORD_SIZE_def PATHNAME_SIZE_def)

lemma client_sends:
  assumes "LF \<notin> set pw" and "NUL \<notin> set pw" and "length pw \<le> 127" and "length pw \<noteq> 126"
    and "NUL \<notin> set path" and "length path < PATHNAME_SIZE"
    and "(op, kind) \<in> {(''add'', ADD_PATH), (''rm'', RM_PATH), (''check'', CHK_PATH)}"
  shows "(\<exists>code i. client_main [prog, op, path] (pw @ LF # rest) True = Inr (Request code i) \<and>
      well_sized code \<and> request_kind code = kind \<and> c_str (password_bytes i) = pw \<and>
      terminated (pathName i) \<and> c_str (pathName i) = path \<and>
      length (password i) = PASSWORD_SIZE \<and> length (pathName i) = PATHNAME_SIZE) \<and>
    (\<forall>argv stdin opened code i. client_main argv stdin opened = Inr (Request code i) \<longrightarrow>
      request_kind code \<notin> {MACHINE_SET, MACHINE_REC})"
proof -
  let ?z = "replicate 4224 NUL" and ?n = "length pw"
  have r: "read_password (pw @ LF # rest) 0 ?z = Inr (Some (pw @ LF # replicate (4223 - ?n) NUL, Suc ?n, LF))"
    using read_password_line [of pw 0 ?z rest] assms(1,3,4) by simp
  have up: "(pw @ LF # replicate (4223 - ?n) NUL)[?n := NUL] = pw @ NUL # replicate (4223 - ?n) NUL"
    by (simp add: list_update_append)
  let ?b = "pw @ NUL # replicate (127 - ?n) NUL"
  have tk: "take 128 (pw @ NUL # replicate (4223 - ?n) NUL) = ?b"
    using assms(3) by (simp add: take_Cons' min_def)
  have dr: "drop (128 + length path + 1) (pw @ NUL # replicate (4223 - ?n) NUL) = replicate (4095 - length path) NUL"
    using assms(3,6) by (simp add: drop_Cons' PATHNAME_SIZE_def)
  have cp: "client_strcpy path (pw @ NUL # replicate (4223 - ?n) NUL) =
      Inr (?b @ path @ NUL # replicate (4095 - length path) NUL)"
    using assms(6) tk dr by (simp add: client_strcpy_def PASSWORD_SIZE_def)
  have lb: "length ?b = 128" using assms(3) by simp
  define i where "i = request_of (?b @ path @ NUL # replicate (4095 - length path) NUL)"
  have i: "password i = ?b" "pathName i = path @ NUL # replicate (4095 - length path) NUL"
    using split_at [OF lb] by (simp_all only: i_def request_of_def PASSWORD_SIZE_def klrm_input.simps)
  have str: "c_str (password_bytes i) = pw" "c_str (pathName i) = path" "terminated (pathName i)"
    "length (password i) = 128" "length (pathName i) = 4096"
    using assms(2,5,6) lb by (simp_all add: password_bytes_def i PATHNAME_SIZE_def)
  have pre: "client_main [prog, op, path] (pw @ LF # rest) True =
      (if op = ''add'' then Inr (Request (ADD_PATH OR SIZEOF_INPUT) i)
       else if op = ''rm'' then Inr (Request (RM_PATH OR SIZEOF_INPUT) i)
       else Inr (Request (CHK_PATH OR SIZEOF_INPUT) i))"
    using assms(7) cp by (auto simp: client_main_def PASSWORD_SIZE_def PATHNAME_SIZE_def r up i_def Let_def)
  have sent: "request_kind code \<notin> {MACHINE_SET, MACHINE_REC}"
    if "client_main argv stdin opened = Inr (Request code j)" for argv stdin opened code j
  proof -
    have "code \<in> {ADD_PATH OR SIZEOF_INPUT, RM_PATH OR SIZEOF_INPUT, CHK_PATH OR SIZEOF_INPUT}"
      using that by (auto simp: client_main_def bind_out_Inr_iff Let_def split: option.splits if_splits)
    then have "request_kind code \<in> {ADD_PATH, RM_PATH, CHK_PATH}" using codes_sized by auto
    then show ?thesis by (auto simp: request_codes)
  qed
  have "\<exists>code. client_main [prog, op, path] (pw @ LF # rest) True = Inr (Request code i) \<and>
      well_sized code \<and> request_kind code = kind"
    using assms(7) pre codes_sized by auto
  with str sent show ?thesis by (auto simp: PASSWORD_SIZE_def PATHNAME_SIZE_def)
qed

section \<open>Properties\<close>

text \<open>
  C37. With a line of at most 127 characters, but not 126, as the password, the program sends the request
  that its first argument names: the size and the operation are the ones the monitor expects, the
  password and the path are what was typed and given. The operations on the toggles are never sent, with
  no arguments and no input: their guards hold for every word, or compare with the wrong name.
\<close>

theorem client_requests:
  assumes "LF \<notin> set pw" and "NUL \<notin> set pw" and "length pw \<le> 127" and "length pw \<noteq> 126"
    and "NUL \<notin> set path" and "length path < PATHNAME_SIZE"
    and "(op, kind) \<in> {(''add'', ADD_PATH), (''rm'', RM_PATH), (''check'', CHK_PATH)}"
  shows "(\<exists>code i. client_main [prog, op, path] (pw @ LF # rest) True = Inr (Request code i) \<and>
      well_sized code \<and> request_kind code = kind \<and> c_str (password_bytes i) = pw \<and>
      terminated (pathName i) \<and> c_str (pathName i) = path \<and>
      length (password i) = PASSWORD_SIZE \<and> length (pathName i) = PATHNAME_SIZE) \<and>
    (\<forall>argv stdin opened code i. client_main argv stdin opened = Inr (Request code i) \<longrightarrow>
      request_kind code \<notin> {MACHINE_SET, MACHINE_REC})"
  using assms by (rule client_sends)

theorem client_requests_witness:
  "\<exists>code i. client_main [''klrmctl'', ''rm'', ''/d''] (''secret'' @ LF # []) True = Inr (Request code i) \<and>
     request_kind code = RM_PATH \<and> c_str (password_bytes i) = ''secret'' \<and> c_str (pathName i) = ''/d''"
  using client_requests [of "''secret''" "''/d''" "''rm''" RM_PATH "''klrmctl''" "[]"]
  by (auto simp: PATHNAME_SIZE_def)

end
