(* ===== verification/Request_Runs.thy ===== *)
theory Request_Runs
  imports KLRM_Prelude
begin

text \<open>
  The contract between a component that answers requests and its specification: a state that matches
  an abstract one, with resources for \<open>n\<close> more requests, answers each as promised and then matches
  what the promise leads to. The requests of the device and the uses of the logger are two providers.
\<close>

section \<open>Runs of requests\<close>

fun run_all :: "('q \<Rightarrow> 's \<Rightarrow> ('s \<times> 'r) outcome) \<Rightarrow> 'q list \<Rightarrow> 's \<Rightarrow> ('s \<times> 'r list) outcome" where
  "run_all request [] s = Inr (s, [])"
| "run_all request (q # qs) s =
     bind_out (request q s) (\<lambda>(s, r). bind_out (run_all request qs s) (\<lambda>(s, rs). Inr (s, r # rs)))"

text \<open>The same for what is promised of them.\<close>

fun promise_all :: "('q \<Rightarrow> 'a \<Rightarrow> 'a \<times> 'r) \<Rightarrow> 'q list \<Rightarrow> 'a \<Rightarrow> 'a \<times> 'r list" where
  "promise_all promised [] a = (a, [])"
| "promise_all promised (q # qs) a =
     (let (a, r) = promised q a; (a, rs) = promise_all promised qs a in (a, r # rs))"

text \<open>
  And the condition that each request is one the promise is made for, in the abstract state that the
  promises before it have led to. A condition on the request alone need only hold of all of them.
\<close>

fun ready_all :: "('q \<Rightarrow> 'a \<Rightarrow> 'a \<times> 'r) \<Rightarrow> ('q \<Rightarrow> 'a \<Rightarrow> bool) \<Rightarrow> 'q list \<Rightarrow> 'a \<Rightarrow> bool" where
  "ready_all promised ready [] a = True"
| "ready_all promised ready (q # qs) a = (ready q a \<and> ready_all promised ready qs (fst (promised q a)))"

lemma ready_all_each: "ready_all promised (\<lambda>q _. P q) qs a \<longleftrightarrow> (\<forall>q \<in> set qs. P q)"
  by (induction qs arbitrary: a) simp_all

section \<open>The contract\<close>

locale simulation =
  fixes request :: "'q \<Rightarrow> 's \<Rightarrow> ('s \<times> 'r) outcome" and promised :: "'q \<Rightarrow> 'a \<Rightarrow> 'a \<times> 'r"
    and ready :: "'q \<Rightarrow> 'a \<Rightarrow> bool" and matches :: "nat \<Rightarrow> 's \<Rightarrow> 'a \<Rightarrow> bool"
  assumes step: "matches (Suc n) s a \<Longrightarrow> ready q a \<Longrightarrow>
    \<exists>s'. request q s = Inr (s', snd (promised q a)) \<and> matches n s' (fst (promised q a))"
begin

lemma runs:
  assumes "matches (length qs + n) s a" and "ready_all promised ready qs a"
  shows "\<exists>s'. run_all request qs s = Inr (s', snd (promise_all promised qs a)) \<and>
    matches n s' (fst (promise_all promised qs a))"
  using assms
proof (induction qs arbitrary: s a)
  case (Cons q qs)
  obtain a1 r where p: "promised q a = (a1, r)" by fastforce
  obtain s1 where s1: "request q s = Inr (s1, r)" "matches (length qs + n) s1 a1"
    using step [of "length qs + n" s a q] Cons.prems by (auto simp: p)
  obtain s' where "run_all request qs s1 = Inr (s', snd (promise_all promised qs a1))"
    "matches n s' (fst (promise_all promised qs a1))" using Cons.IH [OF s1(2)] Cons.prems(2) by (auto simp: p)
  with p s1(1) show ?case by (auto split: prod.splits)
qed simp

end

end
