(* ===== verification/Session.thy ===== *)
theory Session
  imports Klrm_Module Client Request_Runs
begin

text \<open>
  The life of the monitor, from loading to unloading, against its specification: the sets of the
  protected paths and of the registered inodes, the two toggles, and what refused requests leave behind.
  Every request, with the right password or a wrong one, known or unknown, is answered from it. The
  interface is a simulation over sequences of requests; the model of the device provides it.
\<close>

section \<open>What is promised of the monitor\<close>

type_synonym promise = "string list set \<times> ino_key set"

text \<open>The path a request is about: what the kernel resolves it to, or as it is.\<close>

definition examined_path :: "request \<Rightarrow> string" where
  "examined_path q =
     (let p = c_str (pathName (the (rq_user q))) in
      case resolve (file_system (rq_env q)) p of None \<Rightarrow> p | Some decree \<Rightarrow> decree_path decree)"

definition request_decree :: "request \<Rightarrow> path_decree option" where
  "request_decree q = resolve (file_system (rq_env q)) (c_str (pathName (the (rq_user q))))"

text \<open>The inodes below the path.\<close>

definition inodes_below :: "request \<Rightarrow> ino_key set" where
  "inodes_below q =
     (case request_decree q of None \<Rightarrow> {}
      | Some decree \<Rightarrow> key_of (file_system (rq_env q)) `
          reach (next_dentries (file_system (rq_env q))) (dentry_of decree))"

definition path_promise :: "request \<Rightarrow> promise \<Rightarrow> promise \<times> int" where
  "path_promise q a =
     (let (P, R) = a; cs = path_components (examined_path q) in
      if request_kind (rq_code q) = ADD_PATH then ((insert cs P, R \<union> inodes_below q), 0)
      else if request_kind (rq_code q) = RM_PATH then ((P - {cs}, R), if cs \<in> P then 0 else 1)
      else ((P, R),
        if (case request_decree q of None \<Rightarrow> False | Some decree \<Rightarrow> (device decree, inode decree) \<in> R)
        then result_code MATCH_INODE else result_code (classify P cs)))"

text \<open>
  The specification of the device: the two sets, the two toggles, the readers of the recording section
  that requests with a wrong password leave there, and the argument objects.
\<close>

record device_spec =
  sp_paths :: "string list set"
  sp_inodes :: "ino_key set"
  sp_rec :: TOGGLE
  sp_set :: TOGGLE
  sp_lost :: nat
  sp_objects :: int

definition accepts :: "8 word list \<Rightarrow> crypto \<Rightarrow> string \<Rightarrow> bool" where
  "accepts h C pw =
     (alloc_shash C \<and> shash_init C = 0 \<and> shash_update C = 0 \<and> shash_final C = 0 \<and>
      take 64 (sha512 C pw) = take 64 h)"

text \<open>A request on a toggle, by the word in the path.\<close>

definition toggle_promise :: "32 word \<Rightarrow> string \<Rightarrow> device_spec \<Rightarrow> device_spec \<times> int" where
  "toggle_promise kind word a =
     (if word \<notin> {''on'', ''off''} then (a, - EINVAL)
      else
        let v = if word = ''on'' then ON else OFF in
        (if kind = MACHINE_SET then a\<lparr>sp_set := v\<rparr> else a\<lparr>sp_rec := v\<rparr>, 0))"

definition path_request_kind :: "32 word \<Rightarrow> bool" where
  "path_request_kind kind = (kind \<in> {ADD_PATH, RM_PATH, CHK_PATH})"

definition device_promise :: "8 word list \<Rightarrow> request \<Rightarrow> device_spec \<Rightarrow> device_spec \<times> int" where
  "device_promise h q a =
     (let kind = request_kind (rq_code q) in
      if \<not> well_sized (rq_code q) then (a, 1)
      else
        case rq_user q of None \<Rightarrow> (a, - EACCES)
        | Some i \<Rightarrow>
            let right = accepts h (rq_crypto q) (c_str (password_bytes i)) in
            if path_request_kind kind
            then
              if sp_rec a \<noteq> ON then (a, - EBUSY)
              else if \<not> right then (a\<lparr>sp_lost := Suc (sp_lost a)\<rparr>, - EACCES)
              else
                let ((P, R), r) = path_promise q (sp_paths a, sp_inodes a) in (a\<lparr>sp_paths := P, sp_inodes := R\<rparr>, r)
            else if kind \<in> {MACHINE_SET, MACHINE_REC}
            then if right then toggle_promise kind (c_str (pathName i)) a else (a, - EACCES)
            else (a\<lparr>sp_objects := sp_objects a + 1\<rparr>, - EOPNOTSUPP))"

section \<open>The provider\<close>

definition answer :: "request \<Rightarrow> klrm \<Rightarrow> (klrm \<times> int) outcome" where
  "answer q s = dev_ioctl (rq_env q) (rq_crypto q) (rq_object q) (rq_code q) (rq_user q) s"

definition contents :: "klrm \<Rightarrow> promise" where
  "contents s = (protected_paths (k_store s), registered (k_store s))"

text \<open>
  A request on paths that gets to the store: with the password whose hash is \<open>h\<close>, memory that does
  not run out and a slab with room for \<open>N\<close> entries. To add, the path has to resolve and the walk
  below it to have the fuel; to remove, it has to be gone.
\<close>

definition fits :: "8 word list \<Rightarrow> nat \<Rightarrow> request \<Rightarrow> bool" where
  "fits h N q =
     (rq_object q \<and> well_sized (rq_code q) \<and>
      (case rq_user q of None \<Rightarrow> False
       | Some i \<Rightarrow> terminated (password_bytes i) \<and> terminated (pathName i) \<and>
           accepts h (rq_crypto q) (c_str (password_bytes i))) \<and>
      (\<forall>n. kmem (rq_env q) n \<noteq> None) \<and> NUL \<notin> set (examined_path q) \<and> path_accepted (examined_path q) \<and>
      (request_kind (rq_code q) = ADD_PATH \<and> storable (examined_path q) \<and>
         slab_sound (dir_cache (rq_env q)) \<and> slab_roomy N (dir_cache (rq_env q)) \<and>
         (\<exists>decree. request_decree q = Some decree \<and> walk_ready (rq_env q) (dentry_of decree)) \<or>
       request_kind (rq_code q) = RM_PATH \<and> request_decree q = None \<or>
       request_kind (rq_code q) = CHK_PATH))"

text \<open>
  Any request the promise is made for: with strings that end, and, where the password is right, on paths
  as above, or on the recording toggle when no reader has been lost (it would wait for ever).
\<close>

definition device_fits :: "8 word list \<Rightarrow> nat \<Rightarrow> request \<Rightarrow> device_spec \<Rightarrow> bool" where
  "device_fits h N q a =
     (rq_object q \<and>
      (\<forall>i. rq_user q = Some i \<longrightarrow> terminated (password_bytes i) \<and> terminated (pathName i) \<and>
        (well_sized (rq_code q) \<and> accepts h (rq_crypto q) (c_str (password_bytes i)) \<longrightarrow>
          (path_request_kind (request_kind (rq_code q)) \<and> sp_rec a = ON \<longrightarrow> fits h N q) \<and>
          (request_kind (rq_code q) = MACHINE_REC \<and> c_str (pathName i) \<in> {''on'', ''off''} \<longrightarrow> sp_lost a = 0))))"

text \<open>
  A state that has room for \<open>n\<close> more requests: each may take a nonce and at most \<open>ARGS_SIZE\<close> entries.
\<close>

definition serving :: "8 word list \<Rightarrow> nat \<Rightarrow> nat \<Rightarrow> klrm \<Rightarrow> bool" where
  "serving h N n s =
     (store_room N n (k_store s) \<and> \<not> rw_writer (rec_sem (k_machine s)) \<and>
      rw_free (set_sem (k_machine s)) \<and> hash_compressed (k_password s) = h)"

lemmas serving_parts = serving_def store_room_def

lemma answer_store:
  assumes f: "fits h N q" and s: "serving h N n s" and on: "rec_toggle (k_machine s) = ON"
    and q: "rq_user q = Some i"
    and run: "(request_kind (rq_code q) = ADD_PATH \<and>
        path_store_add (rq_env q) (pathName i) (k_store s) = Inr (st, r)) \<or>
      (request_kind (rq_code q) = RM_PATH \<and>
        path_store_rm (rq_env q) (pathName i) (k_store s) = Inr (st, r)) \<or>
      (request_kind (rq_code q) = CHK_PATH \<and>
        path_store_check (rq_env q) (pathName i) (k_store s) = Inr (st, c) \<and> r = result_code c)"
  obtains s' where "answer q s = Inr (s', r)" and "k_store s' = st" and "k_machine s' = k_machine s"
    and "input_objects s' = input_objects s" and "hash_compressed (k_password s') = h"
proof -
  have pw: "right_password (rq_crypto q) i s" "terminated (password_bytes i)"
    using f s by (auto simp: fits_def serving_parts right_password_def accepts_def q)
  have w: "\<not> rw_writer (rec_sem (k_machine s))"
    and h: "hash_compressed (k_password s) = h" using s by (simp_all add: serving_parts)
  have code: "rq_object q" "well_sized (rq_code q)" using f by (simp_all add: fits_def)
  obtain p where "dev_ioctl (rq_env q) (rq_crypto q) True (rq_code q) (Some i) s =
      Inr (s\<lparr>k_password := p, k_store := st\<rparr>, r)" "hash_compressed p = hash_compressed (k_password s)"
    by (rule ioctl_path_request [OF pw on w code(2) run [unfolded request_kind_def]])
  with h code(1) q show thesis by (intro that [of "s\<lparr>k_password := p, k_store := st\<rparr>"]) (simp_all add: answer_def)
qed

lemma serving_after:
  assumes s: "serving h N (Suc n) s" and s': "\<not> rw_writer (rec_sem (k_machine s'))" "rw_free (set_sem (k_machine s'))"
      "hash_compressed (k_password s') = h"
    and st: "store_ok (k_store s')" "rw_free (store_lock (k_store s'))"
    and ps: "\<exists>cs. length cs \<le> ARGS_SIZE \<and>
      protected_paths (k_store s') \<subseteq> insert cs (protected_paths (k_store s))"
    and now: "nonce (it_inodes (ps_iter (k_store s'))) =
      nonce (it_inodes (ps_iter (k_store s))) + (if pass then 1 else 0)"
  shows "serving h N n s'"
  using store_room_after [of N n "k_store s" "k_store s'" pass] assms by (simp add: serving_def)

lemma fits_user: "fits h N q \<Longrightarrow> \<exists>i. rq_user q = Some i \<and> terminated (pathName i)"
  by (auto simp: fits_def split: option.splits)

lemma step_add:
  assumes f: "fits h N q" and s: "serving h N (Suc n) s" and on: "rec_toggle (k_machine s) = ON"
    and kind: "request_kind (rq_code q) = ADD_PATH"
  shows "\<exists>s'. answer q s = Inr (s', snd (path_promise q (contents s))) \<and>
    contents s' = fst (path_promise q (contents s)) \<and> serving h N n s' \<and> k_machine s' = k_machine s \<and>
    input_objects s' = input_objects s"
proof -
  obtain i where i: "rq_user q = Some i" "terminated (pathName i)" using fits_user [OF f] by blast
  have k: "ADD_PATH \<noteq> RM_PATH" "ADD_PATH \<noteq> CHK_PATH" by (simp_all add: request_codes)
  obtain decree where d: "request_decree q = Some decree" and ready: "walk_ready (rq_env q) (dentry_of decree)"
    and slab: "slab_sound (dir_cache (rq_env q))" "slab_roomy N (dir_cache (rq_env q))"
    and st: "storable (examined_path q)" and nul: "NUL \<notin> set (examined_path q)"
    using f k by (auto simp: fits_def kind)
  have res: "resolve (file_system (rq_env q)) (c_str (pathName i)) = Some decree"
    using d by (simp add: request_decree_def i(1))
  have ex: "examined_path q = decree_path decree" by (simp add: examined_path_def i(1) res)
  have ok: "store_ok (k_store s)" "rw_free (store_lock (k_store s))"
    and w: "\<not> rw_writer (rec_sem (k_machine s))" "rw_free (set_sem (k_machine s))" using s by (simp_all add: serving_parts)
  have few: "length (path_components (decree_path decree)) \<le> ARGS_SIZE"
    using components_few st by (simp add: storable_def ex)
  have sl: "slab_ready (rq_env q) (length (path_components (decree_path decree))) (k_store s)"
    using slab s few by (auto simp: slab_ready_def slab_roomy_def serving_parts)
  have "unat (nonce (it_inodes (ps_iter (k_store s)))) + Suc n < 2 ^ 64 - 1" using s by (simp add: serving_parts)
  note now = nonce_room(1,2) [OF this]
  obtain u where u: "path_store_add (rq_env q) (pathName i) (k_store s) = Inr (u, 0)" "store_ok u"
    "rw_free (store_lock u)"
    "protected_paths u = insert (path_components (decree_path decree)) (protected_paths (k_store s))"
    "registered u = registered (k_store s) \<union> inodes_below q"
    "nonce (it_inodes (ps_iter u)) = nonce (it_inodes (ps_iter (k_store s))) + 1"
    using add_resolved [OF ok i(2) res st [unfolded ex] nul [unfolded ex] sl ready now]
    by (auto simp: inodes_below_def d)
  obtain s' where s': "answer q s = Inr (s', 0)" "k_store s' = u" "k_machine s' = k_machine s"
    "input_objects s' = input_objects s" "hash_compressed (k_password s') = h"
    by (rule answer_store [OF f s on i(1) disjI1 [OF conjI [OF kind u(1)]]])
  have "\<exists>cs. length cs \<le> ARGS_SIZE \<and> protected_paths u \<subseteq> insert cs (protected_paths (k_store s))"
    using few u(4) by blast
  from serving_after [OF s w [folded s'(3)] s'(5), unfolded s'(2), OF u(2,3) this, of True] u(6)
  have "serving h N n s'" by simp
  with s' u show ?thesis by (intro exI [of _ s']) (simp add: path_promise_def contents_def kind ex Let_def)
qed

lemma step_rm:
  assumes f: "fits h N q" and s: "serving h N (Suc n) s" and on: "rec_toggle (k_machine s) = ON"
    and kind: "request_kind (rq_code q) = RM_PATH"
  shows "\<exists>s'. answer q s = Inr (s', snd (path_promise q (contents s))) \<and>
    contents s' = fst (path_promise q (contents s)) \<and> serving h N n s' \<and> k_machine s' = k_machine s \<and>
    input_objects s' = input_objects s"
proof -
  obtain i where i: "rq_user q = Some i" "terminated (pathName i)" using fits_user [OF f] by blast
  have k: "RM_PATH \<noteq> ADD_PATH" "RM_PATH \<noteq> CHK_PATH" by (simp_all add: request_codes)
  have d: "request_decree q = None" and acc: "path_accepted (examined_path q)"
    and mem: "\<forall>n. kmem (rq_env q) n \<noteq> None" using f k by (auto simp: fits_def kind)
  have res: "resolve (file_system (rq_env q)) (c_str (pathName i)) = None"
    using d by (simp add: request_decree_def i(1))
  have ex: "examined_path q = c_str (pathName i)" by (simp add: examined_path_def i(1) res)
  have ok: "store_ok (k_store s)" "rw_free (store_lock (k_store s))"
    and w: "\<not> rw_writer (rec_sem (k_machine s))" "rw_free (set_sem (k_machine s))" using s by (simp_all add: serving_parts)
  have "unat (nonce (it_inodes (ps_iter (k_store s)))) + Suc n < 2 ^ 64 - 1" using s by (simp add: serving_parts)
  note now = nonce_room(1) [OF this]
  let ?r = "if path_components (c_str (pathName i)) \<in> protected_paths (k_store s) then 0 else 1"
  obtain u where u: "path_store_rm (rq_env q) (pathName i) (k_store s) = Inr (u, ?r)" "store_ok u"
    "rw_free (store_lock u)"
    "protected_paths u = protected_paths (k_store s) - {path_components (c_str (pathName i))}"
    "it_inodes (ps_iter u) = it_inodes (ps_iter (k_store s))"
    using rm_unresolved [OF ok i(2) mem res acc [unfolded ex] now] by blast
  obtain s' where s': "answer q s = Inr (s', ?r)" "k_store s' = u" "k_machine s' = k_machine s"
    "input_objects s' = input_objects s" "hash_compressed (k_password s') = h"
    by (rule answer_store [OF f s on i(1) disjI2 [OF disjI1 [OF conjI [OF kind u(1)]]]])
  have "\<exists>cs. length cs \<le> ARGS_SIZE \<and> protected_paths u \<subseteq> insert cs (protected_paths (k_store s))"
    using u(4) by (intro exI [of _ "[]"]) auto
  from serving_after [OF s w [folded s'(3)] s'(5), unfolded s'(2), OF u(2,3) this, of False] u(5)
  have "serving h N n s'" by simp
  with s' u show ?thesis
    by (intro exI [of _ s']) (simp add: path_promise_def contents_def kind k ex registered_def Let_def)
qed

lemma step_check:
  assumes f: "fits h N q" and s: "serving h N (Suc n) s" and on: "rec_toggle (k_machine s) = ON"
    and kind: "request_kind (rq_code q) = CHK_PATH"
  shows "\<exists>s'. answer q s = Inr (s', snd (path_promise q (contents s))) \<and>
    contents s' = fst (path_promise q (contents s)) \<and> serving h N n s' \<and> k_machine s' = k_machine s \<and>
    input_objects s' = input_objects s"
proof -
  obtain i where i: "rq_user q = Some i" "terminated (pathName i)" using fits_user [OF f] by blast
  have k: "CHK_PATH \<noteq> ADD_PATH" "CHK_PATH \<noteq> RM_PATH" by (simp_all add: request_codes)
  have acc: "path_accepted (examined_path q)" and nul: "NUL \<notin> set (examined_path q)"
    and mem: "kmem (rq_env q) (kclock (it_held (ps_iter (k_store s)))) \<noteq> None" using f by (auto simp: fits_def)
  have res: "resolve (file_system (rq_env q)) (c_str (pathName i)) = request_decree q"
    by (simp add: request_decree_def i(1))
  have ok: "store_ok (k_store s)" "\<not> rw_writer (store_lock (k_store s))"
    and free: "rw_free (store_lock (k_store s))"
    and w: "\<not> rw_writer (rec_sem (k_machine s))" "rw_free (set_sem (k_machine s))"
    using s by (simp_all add: serving_parts rw_free_def)
  define examined where "examined = (case request_decree q of None \<Rightarrow> pathName i | Some decree \<Rightarrow> decree_path decree @ [NUL])"
  have ex: "c_str examined = examined_path q"
    using nul by (auto simp: examined_def examined_path_def i(1) res c_str_decree split: option.splits)
  define c where "c = (if \<exists>decree. request_decree q = Some decree \<and>
      node_of (it_inodes (ps_iter (k_store s))) (device decree, inode decree) \<noteq> None then MATCH_INODE
    else classify (protected_paths (k_store s)) (path_components (examined_path q)))"
  obtain u where u: "path_store_check (rq_env q) (pathName i) (k_store s) = Inr (u, c)" "store_ok u"
    "ps_tree u = ps_tree (k_store s)" "store_lock u = store_lock (k_store s)"
    "it_inodes (ps_iter u) = it_inodes (ps_iter (k_store s))"
    using check_classifies [OF ok i(2) mem res examined_def] acc unfolding ex c_def by (auto split: if_splits)
  obtain s' where s': "answer q s = Inr (s', result_code c)" "k_store s' = u" "k_machine s' = k_machine s"
    "input_objects s' = input_objects s" "hash_compressed (k_password s') = h"
    by (rule answer_store [OF f s on i(1) disjI2 [OF disjI2 [OF conjI [OF kind conjI [OF u(1) refl]]]]])
  have p: "protected_paths u = protected_paths (k_store s)" using u(3) by (simp add: protected_paths_def)
  then have "\<exists>cs. length cs \<le> ARGS_SIZE \<and> protected_paths u \<subseteq> insert cs (protected_paths (k_store s))"
    by (intro exI [of _ "[]"]) auto
  from serving_after [OF s w [folded s'(3)] s'(5), unfolded s'(2), OF u(2) _ this, of False] u(4,5) free
  have "serving h N n s'" by simp
  moreover have "result_code c = snd (path_promise q (contents s))"
    by (auto simp: c_def path_promise_def contents_def kind k registered_def Let_def dom_def split: option.splits)
  moreover have "contents s' = fst (path_promise q (contents s))"
    using u by (simp add: path_promise_def contents_def kind k s'(2) registered_def protected_paths_def Let_def)
  ultimately show ?thesis using s'(1,3,4) by (intro exI [of _ s']) simp
qed

lemma step_store:
  assumes f: "fits h N q" and s: "serving h N (Suc n) s" and on: "rec_toggle (k_machine s) = ON"
  shows "\<exists>s'. answer q s = Inr (s', snd (path_promise q (contents s))) \<and>
    contents s' = fst (path_promise q (contents s)) \<and> serving h N n s' \<and> k_machine s' = k_machine s \<and>
    input_objects s' = input_objects s"
proof -
  from f consider "request_kind (rq_code q) = ADD_PATH" | "request_kind (rq_code q) = RM_PATH"
    | "request_kind (rq_code q) = CHK_PATH" unfolding fits_def by blast
  then show ?thesis by cases (rule step_add [OF f s on] step_rm [OF f s on] step_check [OF f s on], assumption)+
qed

text \<open>The requests that leave the store alone.\<close>

lemma serving_same_store:
  assumes s: "serving h N (Suc n) s" and "k_store s' = k_store s" "hash_compressed (k_password s') = h"
    and "\<not> rw_writer (rec_sem (k_machine s'))" "rw_free (set_sem (k_machine s'))"
  shows "serving h N n s'"
  by (rule serving_after [OF s, of s' False]) (use assms in \<open>auto simp: serving_parts intro: exI [of _ "[]"]\<close>)

definition mirrors :: "klrm \<Rightarrow> device_spec \<Rightarrow> bool" where
  "mirrors s a =
     (contents s = (sp_paths a, sp_inodes a) \<and> rec_toggle (k_machine s) = sp_rec a \<and>
      set_toggle (k_machine s) = sp_set a \<and> rw_readers (rec_sem (k_machine s)) = sp_lost a \<and>
      input_objects s = sp_objects a)"

lemma step_other:
  assumes s: "serving h N (Suc n) s" and m: "mirrors s a" and f: "device_fits h N q a"
    and none: "\<not> (well_sized (rq_code q) \<and> path_request_kind (request_kind (rq_code q)) \<and> sp_rec a = ON \<and>
      (\<exists>i. rq_user q = Some i \<and> accepts h (rq_crypto q) (c_str (password_bytes i))))"
  shows "\<exists>s'. answer q s = Inr (s', snd (device_promise h q a)) \<and> serving h N n s' \<and>
    mirrors s' (fst (device_promise h q a))"
proof -
  have h: "hash_compressed (k_password s) = h" and w: "\<not> rw_writer (rec_sem (k_machine s))"
    "rw_free (set_sem (k_machine s))" using s by (simp_all add: serving_parts)
  have right: "right_password (rq_crypto q) i s = accepts h (rq_crypto q) (c_str (password_bytes i))" for i
    by (simp add: right_password_def accepts_def h)
  have obj: "rq_object q" using f by (simp add: device_fits_def)
  note same = serving_same_store [OF s]
  show ?thesis
  proof (cases "\<exists>i. rq_user q = Some i \<and> accepts h (rq_crypto q) (c_str (password_bytes i))")
    case False
    then have "\<forall>i. rq_user q = Some i \<longrightarrow> terminated (password_bytes i) \<and> \<not> right_password (rq_crypto q) i s"
      using f by (auto simp: device_fits_def right)
    from intruder_step [OF obj this w(1), of "rq_env q" "rq_code q"] obtain t r where
      t: "dev_ioctl (rq_env q) (rq_crypto q) (rq_object q) (rq_code q) (rq_user q) s = Inr (t, r)"
        "k_store t = k_store s" "hash_compressed (k_password t) = hash_compressed (k_password s)"
      and mach: "k_machine t = (if rec_toggle (k_machine s) = ON \<and> well_sized (rq_code q) \<and> rq_user q \<noteq> None \<and>
          request_kind (rq_code q) \<in> {ADD_PATH, RM_PATH, CHK_PATH}
        then (k_machine s)\<lparr>rec_sem := add_reader (rec_sem (k_machine s))\<rparr> else k_machine s)"
      and r: "r = (if \<not> well_sized (rq_code q) then 1
        else if rq_user q = None then - EACCES
        else if request_kind (rq_code q) \<in> {ADD_PATH, RM_PATH, CHK_PATH}
        then (if rec_toggle (k_machine s) = ON then - EACCES else - EBUSY)
        else if request_kind (rq_code q) \<in> {MACHINE_SET, MACHINE_REC} then - EACCES else - EOPNOTSUPP)"
      by (elim exE conjE) (rule that)
    have "serving h N n t" by (rule same) (use t h w in \<open>simp_all add: mach add_reader_def\<close>)
    moreover have "mirrors t (fst (device_promise h q a)) \<and> r = snd (device_promise h q a)"
    proof (cases "rq_user q")
      case None
      then show ?thesis using m t(2) dev_ioctl_objects [OF t(1)]
        by (auto simp: mirrors_def contents_def device_promise_def mach r Let_def)
    next
      case (Some i)
      with False have "\<not> accepts h (rq_crypto q) (c_str (password_bytes i))" by simp
      with Some m t(2) dev_ioctl_objects [OF t(1)] show ?thesis
        by (auto simp: mirrors_def contents_def device_promise_def mach r path_request_kind_def add_reader_def Let_def)
    qed
    ultimately show ?thesis using t(1) by (auto simp: answer_def)
  next
    case True
    then obtain i where i: "rq_user q = Some i" and acc: "accepts h (rq_crypto q) (c_str (password_bytes i))" by blast
    have tm: "terminated (password_bytes i)" "terminated (pathName i)" using f i by (simp_all add: device_fits_def)
    have a: "answer q s = dev_ioctl (rq_env q) (rq_crypto q) True (rq_code q) (Some i) s"
      using obj by (simp add: answer_def i)
    consider (size) "\<not> well_sized (rq_code q)"
      | (busy) "well_sized (rq_code q)" "request_kind (rq_code q) \<in> {ADD_PATH, RM_PATH, CHK_PATH}" "sp_rec a \<noteq> ON"
      | (toggle) "well_sized (rq_code q)" "request_kind (rq_code q) \<in> {MACHINE_SET, MACHINE_REC}"
      | (unknown) "well_sized (rq_code q)"
          "request_kind (rq_code q) \<notin> {ADD_PATH, RM_PATH, CHK_PATH, MACHINE_SET, MACHINE_REC}"
      using none i acc by (auto simp: path_request_kind_def)
    then show ?thesis
    proof cases
      case size
      have "answer q s = Inr (s, 1)" using size by (simp add: a dev_ioctl_def well_sized_def free_input_def Let_def)
      moreover have "serving h N n s" by (rule same) (use h w in simp_all)
      ultimately show ?thesis using m size by (simp add: device_promise_def)
    next
      case busy
      have "answer q s = Inr (s, - EBUSY)" unfolding a
        by (rule busy_step) (use busy m w in \<open>simp_all add: mirrors_def\<close>)
      moreover have "serving h N n s" by (rule same) (use h w in simp_all)
      ultimately show ?thesis using m busy by (simp add: device_promise_def i path_request_kind_def Let_def)
    next
      case unknown
      have "answer q s = Inr (s\<lparr>input_objects := input_objects s + 1\<rparr>, - EOPNOTSUPP)" unfolding a
        by (rule unknown_step [OF unknown])
      moreover have "serving h N n (s\<lparr>input_objects := input_objects s + 1\<rparr>)" by (rule same) (use h w in simp_all)
      ultimately show ?thesis using m unknown
        by (simp add: device_promise_def i path_request_kind_def mirrors_def contents_def Let_def)
    next
      case toggle
      have k: "\<not> path_request_kind (request_kind (rq_code q))" "MACHINE_REC \<noteq> MACHINE_SET"
        using toggle(2) by (auto simp: path_request_kind_def request_codes)
      have free: "rw_free ((if request_kind (rq_code q) = MACHINE_SET then set_sem else rec_sem) (k_machine s))"
        if "c_str (pathName i) \<in> {''on'', ''off''}"
        using f toggle that w m i acc by (auto simp: device_fits_def mirrors_def rw_free_def)
      let ?on = "c_str (pathName i) \<in> {''on'', ''off''}" and ?set = "request_kind (rq_code q) = MACHINE_SET"
      let ?m = "if ?on then (if ?set then set_toggle_update else rec_toggle_update)
        (\<lambda>_. if c_str (pathName i) = ''on'' then ON else OFF) (k_machine s) else k_machine s"
      obtain p where p: "answer q s = Inr (s\<lparr>k_password := p, k_machine := ?m\<rparr>, if ?on then 0 else - EINVAL)"
        "hash_compressed p = h"
        unfolding a h [symmetric] by (rule toggle_step [OF acc [folded right] tm toggle free])
      have "serving h N n (s\<lparr>k_password := p, k_machine := ?m\<rparr>)" by (rule same) (use p(2) w in simp_all)
      moreover have "device_promise h q a = toggle_promise (request_kind (rq_code q)) (c_str (pathName i)) a"
        using toggle acc k(1) by (simp add: device_promise_def i Let_def)
      ultimately show ?thesis using p(1) m toggle(2) k(2)
        by (auto simp: toggle_promise_def mirrors_def contents_def Let_def)
    qed
  qed
qed

lemma device_step:
  assumes s: "serving h N (Suc n) s \<and> mirrors s a" and f: "device_fits h N q a"
  shows "\<exists>s'. answer q s = Inr (s', snd (device_promise h q a)) \<and>
    (serving h N n s' \<and> mirrors s' (fst (device_promise h q a)))"
proof (cases "well_sized (rq_code q) \<and> path_request_kind (request_kind (rq_code q)) \<and> sp_rec a = ON \<and>
    (\<exists>i. rq_user q = Some i \<and> accepts h (rq_crypto q) (c_str (password_bytes i)))")
  case True
  then obtain i where i: "rq_user q = Some i" "accepts h (rq_crypto q) (c_str (password_bytes i))" by blast
  have "fits h N q" "rec_toggle (k_machine s) = ON" using True f s i by (auto simp: device_fits_def mirrors_def)
  from step_store [OF this(1) _ this(2)] s obtain s' where "answer q s = Inr (s', snd (path_promise q (contents s)))"
    "contents s' = fst (path_promise q (contents s))" "serving h N n s'" "k_machine s' = k_machine s"
    "input_objects s' = input_objects s" by blast
  moreover have "contents s = (sp_paths a, sp_inodes a)" using s by (simp add: mirrors_def)
  ultimately show ?thesis using True i s
    by (cases "path_promise q (sp_paths a, sp_inodes a)") (auto simp: device_promise_def mirrors_def Let_def)
qed (use step_other s f in blast)

interpretation klrm_device: simulation answer "device_promise h" "device_fits h N"
  "\<lambda>n s a. serving h N n s \<and> mirrors s a" for h N
  by unfold_locales (rule device_step)

section \<open>Properties\<close>

text \<open>The specification of the monitor that has just been loaded.\<close>

definition new_device :: "int \<Rightarrow> device_spec" where
  "new_device n =
     \<lparr>sp_paths = {}, sp_inodes = {}, sp_rec = ON, sp_set = ON, sp_lost = 0, sp_objects = n\<rparr>"

lemma init_serving:
  assumes init: "loaded_image s t" "in_fs_cache E" "in_inodes_cache E" "in_dirs_cache E" "in_input_cache E"
      "slab_sound (in_slab E)" "in_slab E [] \<noteq> None"
    and h: "strlen (hashed_password (k_password (mo_klrm s))) = 128"
      "h = pack_digits (take 128 (hashed_password (k_password (mo_klrm s))))"
    and n: "n < 2 ^ 64 - 1" "1 + ARGS_SIZE * n \<le> N"
  obtains m where "klrm_init E s = Inr (m, 0)" and "mo_api m = (True, 0 \<le> in_register_chrdev E)"
    and "serving h N n (mo_klrm m)" and "mirrors (mo_klrm m) (new_device (input_objects (mo_klrm s)))"
proof -
  obtain m where m: "klrm_init E s = Inr (m, 0)" "monitor_ok m" "protected_paths (k_store (mo_klrm m)) = {}"
    "registered (k_store (mo_klrm m)) = {}" "nonce (it_inodes (ps_iter (k_store (mo_klrm m)))) = 0"
    "length (pt_allocations (ps_tree (k_store (mo_klrm m)))) = 1" "rec_toggle (k_machine (mo_klrm m)) = ON"
    "set_toggle (k_machine (mo_klrm m)) = ON" "input_objects (mo_klrm m) = input_objects (mo_klrm s)"
    "hash_compressed (k_password (mo_klrm m)) = h" "mo_api m = (True, 0 \<le> in_register_chrdev E)"
    using init_ready [OF init] unfolding h(2) if_P [OF h(1)] by blast
  then have "serving h N n (mo_klrm m)" using n by (simp add: serving_parts monitor_ok_def rw_free_def)
  moreover have "mirrors (mo_klrm m) (new_device (input_objects (mo_klrm s)))"
    using m by (simp add: mirrors_def new_device_def contents_def monitor_ok_def rw_free_def)
  ultimately show thesis using m(1,11) by (intro that)
qed

text \<open>
  C1. The whole life of the module refines its specification. Loaded with a configured hash of 128 digits,
  with its caches, its slab and its device granted, it serves every sequence of the requests that
  \<open>device_fits\<close> admits, each in its own state of the file system. These are the requests with a wrong
  password, of a wrong size, for an operation that is not there, and those that come while recording is
  off; and with the right password while recording is on: to add a path that resolves, below which the walk
  is safe and whose canonical name can be stored, to remove a path that does not resolve any more, to
  check a path, always with memory left; and to change a toggle, the one of recording only as long as no
  wrong password has cost a reader. Every answer is the one promised by the specification; at the end the
  monitor holds exactly the promised sets, toggles, lost readers and argument objects, and it can be
  unloaded with the tree and the registry given back. The request to add a path that does not resolve is
  not among them: it leaves the lock of the store held, and the module cannot be unloaded after it.
\<close>

theorem monitor_lifetime:
  assumes "loaded_image s t" "in_fs_cache E" "in_inodes_cache E" "in_dirs_cache E" "in_input_cache E"
      "slab_sound (in_slab E)" "in_slab E [] \<noteq> None" "0 \<le> in_register_chrdev E"
    and "strlen (hashed_password (k_password (mo_klrm s))) = 128"
    and "h = pack_digits (take 128 (hashed_password (k_password (mo_klrm s))))"
    and "length qs < 2 ^ 64 - 1" and "1 + ARGS_SIZE * length qs \<le> N"
    and "ready_all (device_promise h) (device_fits h N) qs (new_device (input_objects (mo_klrm s)))"
  shows "let (a, rs) = promise_all (device_promise h) qs (new_device (input_objects (mo_klrm s))) in
    \<exists>m k m'. klrm_init E s = Inr (m, 0) \<and> mo_api m = (True, True) \<and> run_all answer qs (mo_klrm m) = Inr (k, rs) \<and>
    protected_paths (k_store k) = sp_paths a \<and> registered (k_store k) = sp_inodes a \<and>
    rec_toggle (k_machine k) = sp_rec a \<and> set_toggle (k_machine k) = sp_set a \<and>
    rw_readers (rec_sem (k_machine k)) = sp_lost a \<and> input_objects k = sp_objects a \<and>
    klrm_exit (m\<lparr>mo_klrm := k\<rparr>) = Inr m' \<and> pt_heap (ps_tree (k_store (mo_klrm m'))) = Map.empty \<and>
    fs_stores (it_inodes (ps_iter (k_store (mo_klrm m')))) = []"
proof -
  let ?a = "new_device (input_objects (mo_klrm s))"
  obtain a rs where p: "promise_all (device_promise h) qs ?a = (a, rs)" by fastforce
  obtain m where m: "klrm_init E s = Inr (m, 0)" "mo_api m = (True, 0 \<le> in_register_chrdev E)"
    "serving h N (length qs + 0) (mo_klrm m)" "mirrors (mo_klrm m) ?a"
    using init_serving [OF assms(1-7,9-12)] by (metis add_0_right)
  from klrm_device.runs [OF conjI [OF m(3,4)] assms(13)] obtain k where
    k: "run_all answer qs (mo_klrm m) = Inr (k, rs)" "mirrors k a" "serving h N 0 k" by (auto simp: p)
  have ok: "store_ok (k_store k)" "rw_free (store_lock (k_store k))" using k(3) by (simp_all add: serving_parts)
  from cleanup_empties [OF ok] obtain st' freed entries where
    "cleanup_path_store (k_store k) = Inr (st', freed, entries)" "pt_heap (ps_tree st') = Map.empty"
    "fs_stores (it_inodes (ps_iter st')) = []" by blast
  with m(1,2) assms(8) k(1,2) show ?thesis by (simp add: p klrm_exit_def mirrors_def contents_def)
qed


text \<open>
  The image configured with the hash of the empty password; the requests of the
  examples, in a file system with the file /d and after it has gone.
\<close>

definition zero_image :: monitor where
  "zero_image = demo_image\<lparr>mo_klrm := (mo_klrm demo_image)\<lparr>k_password :=
     demo_password\<lparr>hashed_password := replicate 128 (CHR ''0'') @ [NUL]\<rparr>\<rparr>\<rparr>"

definition demo_request :: "vfs \<Rightarrow> 32 word \<Rightarrow> request" where
  "demo_request fs kind = \<lparr>rq_env = demo_env\<lparr>dir_cache := wide_slab 8000, file_system := fs\<rparr>, rq_crypto = demo_crypto,
     rq_object = True, rq_code = kind OR SIZEOF_INPUT, rq_user = Some (demo_input [] ''/d'')\<rparr>"

definition demo_word :: "32 word \<Rightarrow> string \<Rightarrow> string \<Rightarrow> request" where
  "demo_word kind pw word = \<lparr>rq_env = demo_env, rq_crypto = demo_crypto, rq_object = True,
     rq_code = kind OR SIZEOF_INPUT, rq_user = Some (demo_input pw word)\<rparr>"

text \<open>Protect, stop recording, in vain check, record again, check and remove, guess the password, switch off.\<close>

definition demo_requests :: "request list" where
  "demo_requests = [demo_request demo_dir_fs ADD_PATH, demo_word MACHINE_REC [] ''off'',
     demo_request empty_fs CHK_PATH, demo_word MACHINE_REC [] ''on'', demo_request empty_fs CHK_PATH,
     demo_request empty_fs RM_PATH, demo_word CHK_PATH ''x'' ''/d'', demo_word MACHINE_SET [] ''off'']"

lemma demo_session_resolve:
  "resolve demo_dir_fs ''/d'' = Some \<lparr>decree_path = ''/d'', device = 8, inode = 1, dentry_of = 1\<rparr>"
  "resolve empty_fs p = None"
  by (simp_all add: resolve_def demo_dir_fs_def empty_fs_def)

lemma demo_request_simps:
  "request_decree (demo_request fs kind) = resolve fs ''/d''"
  "examined_path (demo_request demo_dir_fs kind) = ''/d''" "examined_path (demo_request empty_fs kind) = ''/d''"
  "rq_code (demo_request fs kind) = kind OR SIZEOF_INPUT"
  by (simp_all add: demo_request_def request_decree_def examined_path_def demo_session_resolve)

lemma demo_request_fits:
  assumes "(fs, kind) \<in> {(demo_dir_fs, ADD_PATH), (demo_dir_fs, CHK_PATH), (empty_fs, CHK_PATH), (empty_fs, RM_PATH)}"
  shows "fits (replicate 64 0) 8000 (demo_request fs kind)"
proof -
  let ?E = "demo_env\<lparr>dir_cache := wide_slab 8000, file_system := fs\<rparr>"
  have ready: "walk_ready ?E 1" if "fs = demo_dir_fs"
    using demo_walk_ready that by (simp add: walk_ready_def demo_env_def)
  have ex: "examined_path (demo_request fs kind) = ''/d''" using assms by (auto simp: demo_request_simps)
  have mem: "\<forall>n. kmem (rq_env (demo_request fs kind)) n \<noteq> None"
    by (simp add: demo_request_def demo_env_def zero_memory_def)
  have st: "storable ''/d''" by (rule demo_paths(7))
  then have acc: "path_accepted ''/d''" by (simp add: storable_def)
  have user: "rq_user (demo_request fs kind) = Some (demo_input [] ''/d'')" "rq_object (demo_request fs kind)"
    "rq_crypto (demo_request fs kind) = demo_crypto" "rq_env (demo_request fs kind) = ?E"
    by (simp_all add: demo_request_def)
  have pw: "accepts (replicate 64 0) demo_crypto []" by (simp add: accepts_def demo_crypto_def)
  have slab: "slab_sound (wide_slab 8000)" "slab_roomy 8000 (wide_slab 8000)"
    by (simp_all add: wide_slab_sound wide_slab_roomy)
  have code: "well_sized (kind OR SIZEOF_INPUT)" "request_kind (kind OR SIZEOF_INPUT) = kind"
    using assms codes_sized by auto
  show ?thesis
    using assms ready st acc mem pw slab code
    by (auto simp: fits_def user ex demo_request_simps(1,4) demo_session_resolve)
qed

lemma demo_accepts: "accepts (replicate 64 0) demo_crypto []" "\<not> accepts (replicate 64 0) demo_crypto ''x''"
  by (simp_all add: accepts_def demo_crypto_def)

lemma toggle_codes:
  "well_sized (MACHINE_REC OR SIZEOF_INPUT)" "request_kind (MACHINE_REC OR SIZEOF_INPUT) = MACHINE_REC"
  "well_sized (MACHINE_SET OR SIZEOF_INPUT)" "request_kind (MACHINE_SET OR SIZEOF_INPUT) = MACHINE_SET"
  by (simp_all add: well_sized_def request_kind_def request_codes CODE_MASK_def SIZEOF_INPUT_def
      PASSWORD_SIZE_def PATHNAME_SIZE_def)

lemma demo_request_ready:
  assumes "(fs, kind) \<in> {(demo_dir_fs, ADD_PATH), (demo_dir_fs, CHK_PATH), (empty_fs, CHK_PATH), (empty_fs, RM_PATH)}"
  shows "device_fits (replicate 64 0) 8000 (demo_request fs kind) a"
    "device_promise (replicate 64 0) (demo_request fs kind) a =
      (if sp_rec a \<noteq> ON then (a, - EBUSY)
       else let ((P, R), r) = path_promise (demo_request fs kind) (sp_paths a, sp_inodes a) in
         (a\<lparr>sp_paths := P, sp_inodes := R\<rparr>, r))"
proof -
  have k: "request_kind (kind OR SIZEOF_INPUT) = kind" "well_sized (kind OR SIZEOF_INPUT)" "path_request_kind kind"
    "kind \<noteq> MACHINE_REC" using assms codes_sized by (auto simp: path_request_kind_def request_codes)
  have u: "rq_user (demo_request fs kind) = Some (demo_input [] ''/d'')" "rq_object (demo_request fs kind)"
    "rq_crypto (demo_request fs kind) = demo_crypto" by (simp_all add: demo_request_def)
  show "device_fits (replicate 64 0) 8000 (demo_request fs kind) a"
    using demo_request_fits [OF assms] k by (simp add: device_fits_def u demo_request_simps(4))
  show "device_promise (replicate 64 0) (demo_request fs kind) a =
      (if sp_rec a \<noteq> ON then (a, - EBUSY)
       else let ((P, R), r) = path_promise (demo_request fs kind) (sp_paths a, sp_inodes a) in
         (a\<lparr>sp_paths := P, sp_inodes := R\<rparr>, r))"
    using k by (simp add: device_promise_def u demo_request_simps(4) demo_accepts Let_def)
qed

lemma demo_word_ready:
  assumes "(kind, pw, word) \<in> {(MACHINE_REC, [], ''off''), (MACHINE_REC, [], ''on''), (MACHINE_SET, [], ''off''),
    (CHK_PATH, ''x'', ''/d'')}" and "sp_lost a = 0 \<or> kind \<noteq> MACHINE_REC"
  shows "device_fits (replicate 64 0) 8000 (demo_word kind pw word) a"
    "device_promise (replicate 64 0) (demo_word kind pw word) a =
      (if kind = CHK_PATH then if sp_rec a \<noteq> ON then (a, - EBUSY) else (a\<lparr>sp_lost := Suc (sp_lost a)\<rparr>, - EACCES)
       else toggle_promise kind word a)"
proof -
  have u: "rq_user (demo_word k p w) = Some (demo_input p w)" "rq_object (demo_word k p w)"
    "rq_crypto (demo_word k p w) = demo_crypto" "rq_code (demo_word k p w) = k OR SIZEOF_INPUT" for k p w
    by (simp_all add: demo_word_def)
  have n: "NUL \<notin> set pw" "NUL \<notin> set word" using assms(1) by auto
  have k: "\<not> path_request_kind MACHINE_REC" "\<not> path_request_kind MACHINE_SET" "path_request_kind CHK_PATH"
    "MACHINE_REC \<noteq> CHK_PATH" "MACHINE_SET \<noteq> CHK_PATH" "CHK_PATH \<noteq> MACHINE_REC" "MACHINE_SET \<noteq> MACHINE_REC"
    "CHK_PATH \<noteq> MACHINE_SET" "MACHINE_REC \<noteq> MACHINE_SET"
    by (simp_all add: path_request_kind_def request_codes)
  show "device_fits (replicate 64 0) 8000 (demo_word kind pw word) a"
    using assms n by (auto simp: device_fits_def u k toggle_codes codes_sized demo_accepts)
  show "device_promise (replicate 64 0) (demo_word kind pw word) a =
      (if kind = CHK_PATH then if sp_rec a \<noteq> ON then (a, - EBUSY) else (a\<lparr>sp_lost := Suc (sp_lost a)\<rparr>, - EACCES)
       else toggle_promise kind word a)"
    using assms(1) n by (auto simp: device_promise_def u k toggle_codes codes_sized demo_accepts Let_def)
qed

lemma demo_paths_promised:
  assumes "R = inodes_below (demo_request demo_dir_fs ADD_PATH)"
  shows "path_promise (demo_request demo_dir_fs ADD_PATH) ({}, {}) = (({[''d'']}, R), 0)"
    "path_promise (demo_request empty_fs CHK_PATH) ({[''d'']}, R) = (({[''d'']}, R), 1)"
    "path_promise (demo_request empty_fs RM_PATH) ({[''d'']}, R) = (({}, R), 0)"
proof -
  note k = codes_sized(2,4,6)
  have ne: "CHK_PATH \<noteq> ADD_PATH" "CHK_PATH \<noteq> RM_PATH" "RM_PATH \<noteq> ADD_PATH" by (simp_all add: request_codes)
  have "longest {[''d'']} [''d''] = 1" using longest_one [OF refl, of "''d''"] by simp
  then have "classify {[''d'']} [''d''] = FULL_MATCH_LEAF" by (simp add: classify_def Let_def)
  then show "path_promise (demo_request demo_dir_fs ADD_PATH) ({}, {}) = (({[''d'']}, R), 0)"
    "path_promise (demo_request empty_fs CHK_PATH) ({[''d'']}, R) = (({[''d'']}, R), 1)"
    "path_promise (demo_request empty_fs RM_PATH) ({[''d'']}, R) = (({}, R), 0)"
    by (simp_all add: path_promise_def demo_request_simps k ne demo_session_resolve demo_paths(4) assms)
qed

lemma demo_promise:
  "\<exists>R. promise_all (device_promise (replicate 64 0)) demo_requests (new_device 0) =
      (\<lparr>sp_paths = {}, sp_inodes = R, sp_rec = ON, sp_set = OFF, sp_lost = 1, sp_objects = 0\<rparr>,
       [0, 0, - EBUSY, 0, 1, 0, - EACCES, 0]) \<and>
    ready_all (device_promise (replicate 64 0)) (device_fits (replicate 64 0) 8000) demo_requests (new_device 0)"
proof -
  obtain R where R: "R = inodes_below (demo_request demo_dir_fs ADD_PATH)" by blast
  have ne: "MACHINE_REC \<noteq> MACHINE_SET" "MACHINE_REC \<noteq> CHK_PATH" "MACHINE_SET \<noteq> CHK_PATH" "CHK_PATH \<noteq> MACHINE_REC"
    "MACHINE_SET \<noteq> MACHINE_REC" by (simp_all add: request_codes)
  note p = demo_paths_promised [OF R]
  show ?thesis
    by (rule exI [of _ R])
      (simp add: demo_requests_def new_device_def demo_request_ready demo_word_ready p toggle_promise_def ne)
qed

theorem monitor_lifetime_witness:
  "\<exists>m k m'. klrm_init demo_init_env zero_image = Inr (m, 0) \<and>
     run_all answer demo_requests (mo_klrm m) = Inr (k, [0, 0, - EBUSY, 0, 1, 0, - EACCES, 0]) \<and>
     protected_paths (k_store k) = {} \<and> set_toggle (k_machine k) = OFF \<and> rw_readers (rec_sem (k_machine k)) = 1 \<and>
     klrm_exit (m\<lparr>mo_klrm := k\<rparr>) = Inr m'"
proof -
  have k: "k_password (mo_klrm zero_image) = demo_password\<lparr>hashed_password := replicate 128 (CHR ''0'') @ [NUL]\<rparr>"
    "input_objects (mo_klrm zero_image) = 0" by (simp_all add: zero_image_def demo_image_def demo_klrm_def)
  have l: "loaded_image zero_image \<lparr>pt_heap = Map.empty, pt_root = 0, pt_allocations = []\<rparr>"
    by (auto simp: loaded_image_def zero_image_def demo_image_def)
  have r: "in_slab demo_init_env [] \<noteq> None"
    using demo_slab_roomy [of 1] by (simp add: demo_init_env_def slab_roomy_def)
  have e: "in_fs_cache demo_init_env" "in_inodes_cache demo_init_env" "in_dirs_cache demo_init_env"
    "in_input_cache demo_init_env" "slab_sound (in_slab demo_init_env)"
    and d: "0 \<le> in_register_chrdev demo_init_env"
    using demo_slab_sound by (simp_all add: demo_init_env_def)
  have h: "strlen (hashed_password (k_password (mo_klrm zero_image))) = 128" by (simp add: k)
  have z: "replicate 64 0 = pack_digits (take 128 (hashed_password (k_password (mo_klrm zero_image))))"
    unfolding k by code_simp
  have n: "length demo_requests < 2 ^ 64 - 1" "1 + ARGS_SIZE * length demo_requests \<le> 8000"
    by (simp_all add: demo_requests_def ARGS_SIZE_def)
  obtain R where "promise_all (device_promise (replicate 64 0)) demo_requests (new_device 0) =
      (\<lparr>sp_paths = {}, sp_inodes = R, sp_rec = ON, sp_set = OFF, sp_lost = 1, sp_objects = 0\<rparr>,
       [0, 0, - EBUSY, 0, 1, 0, - EACCES, 0])"
    and f: "ready_all (device_promise (replicate 64 0)) (device_fits (replicate 64 0) 8000) demo_requests
      (new_device (input_objects (mo_klrm zero_image)))"
    using demo_promise unfolding k(2) by blast
  with monitor_lifetime [OF l e r d h z n f] show ?thesis by (auto simp: k(2) simp del: run_all.simps)
qed

section \<open>From the terminal to the store\<close>

text \<open>
  What a path given to the client leads to, and when a command on it is one the monitor promises to
  serve.
\<close>

definition canonical :: "env \<Rightarrow> string \<Rightarrow> string" where
  "canonical E path = (case resolve (file_system E) path of None \<Rightarrow> path | Some decree \<Rightarrow> decree_path decree)"

definition servable :: "env \<Rightarrow> nat \<Rightarrow> 32 word \<Rightarrow> string \<Rightarrow> bool" where
  "servable E N kind path =
     ((\<forall>n. kmem E n \<noteq> None) \<and> NUL \<notin> set (canonical E path) \<and> path_accepted (canonical E path) \<and>
      (kind = ADD_PATH \<and> storable (canonical E path) \<and> slab_sound (dir_cache E) \<and> slab_roomy N (dir_cache E) \<and>
         (\<exists>decree. resolve (file_system E) path = Some decree \<and> walk_ready E (dentry_of decree)) \<or>
       kind = RM_PATH \<and> resolve (file_system E) path = None \<or> kind = CHK_PATH))"

lemma servable_fits:
  assumes "servable E N (request_kind code) (c_str (pathName i))" and "accepts h C (c_str (password_bytes i))"
    and "well_sized code" and "terminated (pathName i)" and "terminated (password_bytes i)"
  shows "fits h N \<lparr>rq_env = E, rq_crypto = C, rq_object = True, rq_code = code, rq_user = Some i\<rparr>"
    (is "fits h N ?q")
proof -
  have "examined_path ?q = canonical E (c_str (pathName i))"
    "request_decree ?q = resolve (file_system E) (c_str (pathName i))"
    by (simp_all add: examined_path_def canonical_def request_decree_def Let_def)
  with assms show ?thesis by (simp add: fits_def servable_def)
qed



end
