(* ===== verification/Store_Threads.thy ===== *)
theory Store_Threads
  imports Path_Store Request_Runs
begin

text \<open>
  Several requests in the store of paths at the same time. \<open>path_store_add\<close>, \<open>path_store_rm\<close> and
  \<open>path_store_check\<close> write the offsets of their path into the global \<open>argIdxs\<close> before they take
  \<open>store_lock\<close> and read it behind the lock; requests enter the section of the recording toggle as
  readers and are not kept apart there. So another request can split its own path in between. Every
  call is two steps here, the one up to the lock and the one behind it, and a schedule picks the thread that
  does its next step. A finer grain would only allow more.

  The specification keeps the array: behind the lock a call works on the path that the array reads by then.
  Where that is its own path the calls are atomic.
\<close>

section \<open>Threads\<close>

datatype store_op = Add_Path | Rm_Path | Check_Path

record store_call =
  sc_op :: store_op
  sc_env :: env
  sc_path :: "char list"

datatype store_answer = Result int | Matched path_check_result

text \<open>A thread before its call, at the lock with its decree, its cut buffer and \<open>j\<close>, and behind its return.\<close>

datatype store_thread =
    Calling store_call
  | At_Lock store_call "path_decree option" "char list" nat
  | Returned store_answer

definition until_lock :: "store_call \<Rightarrow> path_store \<Rightarrow> (path_store \<times> store_thread) outcome" where
  "until_lock c s =
     bind_out (ask_oracle (sc_env c) (sc_path c) s) (\<lambda>(s, resolved, examinated).
       if sc_op c = Check_Path \<and> (case resolved of None \<Rightarrow> False
           | Some decree \<Rightarrow> check_inode (device decree) (inode decree) (it_inodes (ps_iter s)) \<noteq> 0)
       then Inr (clean_oracle_decree resolved s, Returned (Matched MATCH_INODE))
       else
     bind_out (process_path examinated (argIdxs s)) (\<lambda>(examinated, idx, j).
       let s = s\<lparr>argIdxs := idx\<rparr> in
       if j = UINT_MAX
       then Inr (clean_oracle_decree resolved s,
         Returned (if sc_op c = Check_Path then Matched FULL_MATCH_LEAF else Result 1))
       else Inr (s, At_Lock c resolved examinated j)))"

definition behind_lock ::
  "store_call \<Rightarrow> path_decree option \<Rightarrow> char list \<Rightarrow> nat \<Rightarrow> path_store \<Rightarrow> (path_store \<times> store_answer) outcome" where
  "behind_lock c resolved examinated j s =
     (case sc_op c of
        Add_Path \<Rightarrow> bind_out (locked_add (sc_env c) resolved examinated j s) (\<lambda>(s, r). Inr (s, Result r))
      | Rm_Path \<Rightarrow> bind_out (locked_rm (sc_env c) resolved examinated j s) (\<lambda>(s, r). Inr (s, Result r))
      | Check_Path \<Rightarrow> bind_out (locked_check resolved examinated j s) (\<lambda>(s, r). Inr (s, Matched r)))"

text \<open>A thread that finds the lock taken waits, and can be picked again.\<close>

definition must_wait :: "store_op \<Rightarrow> rwlock \<Rightarrow> bool" where
  "must_wait op lock = (if op = Check_Path then rw_writer lock else \<not> rw_free lock)"

fun thread_step :: "store_thread \<Rightarrow> path_store \<Rightarrow> (path_store \<times> store_thread) outcome" where
  "thread_step (Calling c) s = until_lock c s"
| "thread_step (At_Lock c resolved examinated j) s =
     (if must_wait (sc_op c) (store_lock s) then Inr (s, At_Lock c resolved examinated j)
      else bind_out (behind_lock c resolved examinated j s) (\<lambda>(s, r). Inr (s, Returned r)))"
| "thread_step (Returned r) s = Inr (s, Returned r)"

fun system_step :: "nat \<Rightarrow> store_thread list \<times> path_store \<Rightarrow> ((store_thread list \<times> path_store) \<times> unit) outcome" where
  "system_step i (ts, s) =
     (if i < length ts then bind_out (thread_step (ts ! i) s) (\<lambda>(s, t). Inr ((ts[i := t], s), ()))
      else Inr ((ts, s), ()))"

text \<open>Alone, the two steps are the function of the store.\<close>

definition call_alone :: "store_call \<Rightarrow> path_store \<Rightarrow> (path_store \<times> store_answer) outcome" where
  "call_alone c s =
     (case sc_op c of
        Add_Path \<Rightarrow> bind_out (path_store_add (sc_env c) (sc_path c) s) (\<lambda>(s, r). Inr (s, Result r))
      | Rm_Path \<Rightarrow> bind_out (path_store_rm (sc_env c) (sc_path c) s) (\<lambda>(s, r). Inr (s, Result r))
      | Check_Path \<Rightarrow> bind_out (path_store_check (sc_env c) (sc_path c) s) (\<lambda>(s, r). Inr (s, Matched r)))"

lemma two_steps_alone:
  "call_alone c s = bind_out (until_lock c s) (\<lambda>(s, t).
     case t of At_Lock c resolved examinated j \<Rightarrow> behind_lock c resolved examinated j s
     | Returned r \<Rightarrow> Inr (s, r) | Calling c \<Rightarrow> Inl Bad_Access)"
proof (cases "ask_oracle (sc_env c) (sc_path c) s")
  case (Inr x)
  obtain s1 resolved b where x: "x = (s1, resolved, b)" by (cases x)
  show ?thesis
  proof (cases "process_path b (argIdxs s1)")
    case (Inr y)
    obtain b1 idx j where "y = (b1, idx, j)" by (cases y)
    with \<open>ask_oracle _ _ _ = _\<close> Inr x show ?thesis
      by (cases "sc_op c") (simp_all add: call_alone_def until_lock_def behind_lock_def path_store_add_def
          path_store_rm_def path_store_check_def Let_def)
  qed (use Inr x in \<open>cases "sc_op c"; simp add: call_alone_def until_lock_def path_store_add_def
      path_store_rm_def path_store_check_def\<close>)
qed (cases "sc_op c"; simp add: call_alone_def until_lock_def path_store_add_def path_store_rm_def
    path_store_check_def)

section \<open>The specification\<close>

definition call_decree :: "store_call \<Rightarrow> path_decree option" where
  "call_decree c = resolve (file_system (sc_env c)) (c_str (sc_path c))"

text \<open>The path a call is about, and the offsets its split writes.\<close>

definition call_path :: "store_call \<Rightarrow> string" where
  "call_path c = (case call_decree c of None \<Rightarrow> c_str (sc_path c) | Some decree \<Rightarrow> decree_path decree)"

abbreviation call_offsets :: "store_call \<Rightarrow> nat list" where
  "call_offsets c \<equiv> own_offsets (call_path c)"

definition inodes_of :: "store_call \<Rightarrow> ino_key set" where
  "inodes_of c =
     (case call_decree c of None \<Rightarrow> {}
      | Some decree \<Rightarrow> key_of (file_system (sc_env c)) `
          reach (next_dentries (file_system (sc_env c))) (dentry_of decree))"

datatype call_phase = Asked | Split | Answered store_answer

record shared_spec =
  sh_paths :: "string list set"
  sh_inodes :: "ino_key set"
  sh_offsets :: "nat list"
  sh_calls :: "(store_call \<times> call_phase) list"

text \<open>The path that the array reads in the buffer of a call, and the path of the call itself.\<close>

definition array_path :: "store_call \<Rightarrow> nat list \<Rightarrow> string list" where
  "array_path c offsets = map (token_from (call_path c)) (take (length (call_offsets c)) offsets)"

definition own_path :: "store_call \<Rightarrow> nat list \<Rightarrow> string list" where
  "own_path c offsets = path_components (call_path c)"

definition set_effect ::
  "store_call \<Rightarrow> string list \<Rightarrow> string list set \<times> ino_key set \<Rightarrow> (string list set \<times> ino_key set) \<times> store_answer" where
  "set_effect c us PR =
     (case sc_op c of
        Add_Path \<Rightarrow> ((insert us (fst PR), snd PR \<union> inodes_of c), Result 0)
      | Rm_Path \<Rightarrow> ((fst PR - {us}, snd PR), Result (if us \<in> fst PR then 0 else 1))
      | Check_Path \<Rightarrow> (PR, Matched (classify (fst PR) us)))"

definition call_effect :: "store_call \<Rightarrow> string list \<Rightarrow> shared_spec \<Rightarrow> shared_spec \<times> store_answer" where
  "call_effect c us a =
     (let ((P, R), r) = set_effect c us (sh_paths a, sh_inodes a) in (a\<lparr>sh_paths := P, sh_inodes := R\<rparr>, r))"

definition call_known :: "store_call \<Rightarrow> ino_key set \<Rightarrow> bool" where
  "call_known c R =
     (sc_op c = Check_Path \<and>
      (case call_decree c of None \<Rightarrow> False | Some decree \<Rightarrow> (device decree, inode decree) \<in> R))"

text \<open>One step of a call: the path behind the lock is what \<open>reading\<close> says.\<close>

fun phase_promise ::
  "(store_call \<Rightarrow> nat list \<Rightarrow> string list) \<Rightarrow> store_call \<Rightarrow> call_phase \<Rightarrow> shared_spec \<Rightarrow> shared_spec \<times> call_phase" where
  "phase_promise reading c Asked a =
     (if call_known c (sh_inodes a) then (a, Answered (Matched MATCH_INODE))
      else (a\<lparr>sh_offsets := call_offsets c @ drop (length (call_offsets c)) (sh_offsets a)\<rparr>, Split))"
| "phase_promise reading c Split a =
     (let (a, r) = call_effect c (reading c (sh_offsets a)) a in (a, Answered r))"
| "phase_promise reading c (Answered r) a = (a, Answered r)"

definition system_promise ::
  "(store_call \<Rightarrow> nat list \<Rightarrow> string list) \<Rightarrow> nat \<Rightarrow> shared_spec \<Rightarrow> shared_spec \<times> unit" where
  "system_promise reading i a =
     (if i < length (sh_calls a)
      then let (c, ph) = sh_calls a ! i; (a', ph') = phase_promise reading c ph a in
        (a'\<lparr>sh_calls := (sh_calls a)[i := (c, ph')]\<rparr>, ())
      else (a, ()))"

text \<open>
  The calls the promise is made for: accepted paths, memory, a slab for \<open>N\<close> entries; to add, the path
  has to resolve; to remove, it has to be gone. Behind the lock the offsets have to lie in the buffer, and
  what is added has to fit an entry.
\<close>

definition call_ready :: "nat \<Rightarrow> store_call \<Rightarrow> bool" where
  "call_ready N c =
     (terminated (sc_path c) \<and> (\<forall>n. kmem (sc_env c) n \<noteq> None) \<and> NUL \<notin> set (call_path c) \<and>
      path_accepted (call_path c) \<and>
      (case sc_op c of
         Add_Path \<Rightarrow> slab_sound (dir_cache (sc_env c)) \<and> slab_roomy N (dir_cache (sc_env c)) \<and>
           (case call_decree c of None \<Rightarrow> False | Some decree \<Rightarrow> walk_ready (sc_env c) (dentry_of decree))
       | Rm_Path \<Rightarrow> call_decree c = None
       | Check_Path \<Rightarrow> True))"

definition array_ready :: "store_call \<Rightarrow> nat list \<Rightarrow> bool" where
  "array_ready c offsets =
     ((\<forall>off \<in> set (take (length (call_offsets c)) offsets). off \<le> length (call_path c)) \<and>
      (sc_op c = Add_Path \<longrightarrow>
        (\<forall>w \<in> set (array_path c offsets). w \<noteq> [] \<and> length w < DIR_NAME_SIZE)))"

definition step_ready :: "nat \<Rightarrow> nat \<Rightarrow> shared_spec \<Rightarrow> bool" where
  "step_ready N i a =
     (i < length (sh_calls a) \<longrightarrow>
       (let (c, ph) = sh_calls a ! i in call_ready N c \<and> (ph = Split \<longrightarrow> array_ready c (sh_offsets a))))"

section \<open>The provider\<close>

definition thread_matches :: "store_thread \<Rightarrow> store_call \<times> call_phase \<Rightarrow> bool" where
  "thread_matches t cp =
     (case snd cp of
        Asked \<Rightarrow> t = Calling (fst cp)
      | Split \<Rightarrow> (\<exists>r. t = At_Lock (fst cp) (call_decree (fst cp)) (cut_slashes (call_path (fst cp)) @ NUL # r)
          (length (call_offsets (fst cp))))
      | Answered r \<Rightarrow> t = Returned r)"

definition store_matches :: "path_store \<Rightarrow> shared_spec \<Rightarrow> bool" where
  "store_matches s a =
     (protected_paths s = sh_paths a \<and> registered s = sh_inodes a \<and> argIdxs s = sh_offsets a)"

definition system_matches :: "nat \<Rightarrow> nat \<Rightarrow> store_thread list \<times> path_store \<Rightarrow> shared_spec \<Rightarrow> bool" where
  "system_matches N n ts a =
     (list_all2 thread_matches (fst ts) (sh_calls a) \<and> store_room N n (snd ts) \<and> store_matches (snd ts) a)"


lemma store_room_less: "store_room N (Suc n) s \<Longrightarrow> store_room N n s"
  by (simp add: store_room_def)

lemma store_with_held:
  assumes "store_ok s" and "length idx = ARGS_SIZE" and "idx ! 0 \<le> 1"
  shows "store_ok (with_held s k\<lparr>argIdxs := idx\<rparr>)"
  using assms by (simp add: store_ok_def)

lemma root_only:
  assumes "path_accepted p" and "path_components p = []"
  shows "p = [SLASH]"
proof -
  obtain u where u: "p = SLASH # u" using assms(1) by (cases p) (auto simp: path_accepted_def)
  have "u = []" using assms(2) u split_slash_Nil [of u]
    by (cases u) (auto simp: path_components_def butlast_conv_take Let_def split: if_splits list.splits)
  with u show ?thesis by simp
qed

text \<open>The step up to the lock, on a path that is accepted.\<close>

lemma until_lock_step:
  assumes c: "call_ready N c" and s: "store_room N n s" and m: "store_matches s a"
  shows "\<exists>s' t. until_lock c s = Inr (s', t) \<and> store_room N n s' \<and>
    store_matches s' (fst (phase_promise reading c Asked a)) \<and>
    thread_matches t (c, snd (phase_promise reading c Asked a))"
proof -
  let ?p = "call_path c" and ?E = "sc_env c"
  have t: "terminated (sc_path c)" and nul: "NUL \<notin> set ?p" and acc: "path_accepted ?p"
    and mem: "kmem ?E (kclock (it_held (ps_iter s))) \<noteq> None" using c by (simp_all add: call_ready_def)
  have ok: "store_ok s" using s by (simp add: store_room_def)
  have len: "length (argIdxs s) = ARGS_SIZE" "argIdxs s ! 0 \<le> 1" using ok by (simp_all add: store_ok_def)
  obtain r where ex: "(case call_decree c of None \<Rightarrow> sc_path c | Some decree \<Rightarrow> decree_path decree @ [NUL]) = ?p @ NUL # r"
  proof (cases "call_decree c")
    case None
    show thesis by (rule terminated_split [OF t], rule that) (simp add: call_path_def None)
  next
    case (Some decree)
    show thesis by (rule that [of "[]"]) (simp add: call_path_def Some)
  qed
  obtain k where ask: "ask_oracle ?E (sc_path c) s = Inr (with_held s k, call_decree c, ?p @ NUL # r)"
    using ask_oracle_eq [OF t mem, folded call_decree_def, unfolded ex] by blast
  let ?idx = "call_offsets c @ drop (length (call_offsets c)) (argIdxs s)"
  have split: "process_path (?p @ NUL # r) (argIdxs s) =
      Inr (cut_slashes ?p @ NUL # r, ?idx, length (call_offsets c))"
    by (rule process_path_exact [OF nul acc len(1)])
  have "length ?idx = ARGS_SIZE \<and> ?idx ! 0 \<le> 1 \<and> length (call_offsets c) \<noteq> UINT_MAX"
    by (rule split_and_search [OF terminated_append len, of ?p r]) (use split acc nul in auto)
  then have l: "length ?idx = ARGS_SIZE" "?idx ! 0 \<le> 1" "length (call_offsets c) \<noteq> UINT_MAX" by simp_all
  have known: "(case call_decree c of None \<Rightarrow> False
      | Some decree \<Rightarrow> check_inode (device decree) (inode decree) (it_inodes (ps_iter (with_held s k))) \<noteq> 0) \<longleftrightarrow>
      (case call_decree c of None \<Rightarrow> False | Some decree \<Rightarrow> (device decree, inode decree) \<in> sh_inodes a)"
    using check_inode_registered [OF ok] m by (auto simp: store_matches_def split: option.split)
  have room: "store_room N n s'" if "store_ok s'" "ps_tree s' = ps_tree s" "store_lock s' = store_lock s"
    "it_inodes (ps_iter s') = it_inodes (ps_iter s)" for s'
    using s that by (simp add: store_room_def)
  show ?thesis
  proof (cases "call_known c (sh_inodes a)")
    case True
    then have "until_lock c s = Inr (clean_oracle_decree (call_decree c) (with_held s k), Returned (Matched MATCH_INODE))"
      using known by (simp add: until_lock_def ask call_known_def)
    with True ok m room show ?thesis
      by (simp add: thread_matches_def store_matches_def protected_paths_def registered_def)
  next
    case False
    then have "until_lock c s = Inr (with_held s k\<lparr>argIdxs := ?idx\<rparr>,
        At_Lock c (call_decree c) (cut_slashes ?p @ NUL # r) (length (call_offsets c)))"
      using known l(3) by (auto simp: until_lock_def ask call_known_def split Let_def)
    with False m room store_with_held [OF ok l(1,2)] show ?thesis
      by (auto simp: thread_matches_def store_matches_def protected_paths_def registered_def)
  qed
qed

text \<open>What the array reads in the buffer of a call.\<close>

lemma array_reads:
  assumes ok: "store_ok s" and idx: "argIdxs s = offsets" and c: "NUL \<notin> set (call_path c)" "path_accepted (call_path c)"
    and off: "\<forall>off \<in> set (take (length (call_offsets c)) offsets). off \<le> length (call_path c)"
  shows "length (array_path c offsets) = length (call_offsets c)"
    and "reads_path (cut_slashes (call_path c) @ NUL # r) (argIdxs s) (array_path c offsets)"
proof -
  let ?p = "call_path c" and ?n = "length (call_offsets c)"
  obtain u where u: "?p = SLASH # u" using c(2) by (cases ?p) (auto simp: path_accepted_def)
  note own = length_own_offsets [OF u]
  have few: "?n \<le> ARGS_SIZE" using components_few [OF c(2)] own by simp
  have len: "length offsets = ARGS_SIZE" "offsets ! 0 \<le> 1" using ok idx by (auto simp: store_ok_def)
  show n: "length (array_path c offsets) = ?n" using few len by (simp add: array_path_def)
  have "str_at (cut_slashes ?p @ NUL # r) (offsets ! k) = Inr (array_path c offsets ! k)" if k: "k < ?n" for k
  proof -
    have "take ?n offsets ! k \<in> set (take ?n offsets)" using k few len by (intro nth_mem) simp
    then have "offsets ! k \<le> length ?p" using off k by simp
    with str_at_token_from [OF this c(1)] k few len show ?thesis by (simp add: array_path_def)
  qed
  moreover have "\<exists>r'. cut_slashes ?p @ NUL # r = NUL # NUL # r'" if "?n = 0"
    using root_only [OF c(2)] own that by (simp add: cut_slashes_def)
  moreover have "offsets \<noteq> []" using len(1) by (auto simp: ARGS_SIZE_def)
  moreover have "array_path c offsets = [] \<longleftrightarrow> ?n = 0" using n by (metis length_0_conv)
  ultimately show "reads_path (cut_slashes ?p @ NUL # r) (argIdxs s) (array_path c offsets)"
    using few len n by (auto simp: reads_path_def holds_tokens_def idx)
qed


text \<open>The step behind the lock: the effect of the call on the path that the array reads.\<close>

lemma behind_lock_step:
  assumes c: "call_ready N c" and o: "array_ready c (sh_offsets a)" and s: "store_room N (Suc n) s"
    and m: "store_matches s a"
  shows "\<exists>s'. behind_lock c (call_decree c) (cut_slashes (call_path c) @ NUL # r) (length (call_offsets c)) s =
      Inr (s', snd (call_effect c (array_path c (sh_offsets a)) a)) \<and> store_room N n s' \<and>
    store_matches s' (fst (call_effect c (array_path c (sh_offsets a)) a))"
proof -
  let ?us = "array_path c (sh_offsets a)" and ?E = "sc_env c" and ?b = "cut_slashes (call_path c) @ NUL # r"
  have ok: "store_ok s" and free: "rw_free (store_lock s)" and now: "unat (nonce (it_inodes (ps_iter s))) + Suc n < 2 ^ 64 - 1"
    and room: "length (pt_allocations (ps_tree s)) + ARGS_SIZE * Suc n \<le> N" using s by (simp_all add: store_room_def)
  note nonces = nonce_room [OF now]
  have p: "NUL \<notin> set (call_path c)" "path_accepted (call_path c)" using c by (simp_all add: call_ready_def)
  have idx: "argIdxs s = sh_offsets a" using m by (simp add: store_matches_def)
  have off: "\<forall>off \<in> set (take (length (call_offsets c)) (sh_offsets a)). off \<le> length (call_path c)"
    using o by (simp add: array_ready_def)
  note n = array_reads(1) [OF ok idx p off] and reads = array_reads(2) [OF ok idx p off, of r]
  have few: "length ?us \<le> ARGS_SIZE" using reads by (simp add: reads_path_def)
  show ?thesis
  proof (cases "sc_op c")
    case Add_Path
    obtain decree where d: "call_decree c = Some decree" and ready: "walk_ready ?E (dentry_of decree)"
      and slab: "slab_sound (dir_cache ?E)" "slab_roomy N (dir_cache ?E)"
      using c by (auto simp: call_ready_def Add_Path split: option.splits)
    have us: "[] \<notin> set ?us" "\<forall>w \<in> set ?us. length w < DIR_NAME_SIZE" using o by (auto simp: array_ready_def Add_Path)
    have sl: "slab_ready ?E (length ?us) s" using slab room few by (auto simp: slab_ready_def slab_roomy_def)
    obtain s' where s': "locked_add ?E (Some decree) ?b (length ?us) s = Inr (s', 0)" "store_ok s'" "rw_free (store_lock s')"
      "protected_paths s' = insert ?us (protected_paths s)" "registered s' = registered s \<union> inodes_of c"
      "argIdxs s' = argIdxs s" "nonce (it_inodes (ps_iter s')) = nonce (it_inodes (ps_iter s)) + 1"
      using locked_add_resolved [OF ok free reads us sl ready nonces(1,2)] by (auto simp: inodes_of_def d)
    have "store_room N n s'" using store_room_after [OF s s'(2,3), of True] s'(4,7) few by auto
    with s' m show ?thesis
      by (intro exI [of _ s']) (simp add: behind_lock_def Add_Path d n [symmetric] call_effect_def set_effect_def store_matches_def)
  next
    case Rm_Path
    have d: "call_decree c = None" using c by (simp add: call_ready_def Rm_Path)
    obtain s' where s': "locked_rm ?E None ?b (length ?us) s = Inr (s', if ?us \<in> protected_paths s then 0 else 1)"
      "store_ok s'" "rw_free (store_lock s')" "protected_paths s' = protected_paths s - {?us}"
      "argIdxs s' = argIdxs s" "ps_iter s' = ps_iter s"
      using locked_rm_unresolved [OF ok free reads nonces(1)] by blast
    have "\<exists>cs. length cs \<le> ARGS_SIZE \<and> protected_paths s' \<subseteq> insert cs (protected_paths s)"
      using s'(4) by (intro exI [of _ "[]"]) auto
    then have "store_room N n s'" using store_room_after [OF s s'(2,3), of False] s'(6) by simp
    with s' m show ?thesis
      by (intro exI [of _ s'])
        (simp add: behind_lock_def Rm_Path d n [symmetric] call_effect_def set_effect_def store_matches_def registered_def)
  next
    case Check_Path
    have "\<not> rw_writer (store_lock s)" using free by (simp add: rw_free_def)
    note run = locked_check_classifies [OF ok this reads, of "call_decree c"]
    have "store_room N n (clean_oracle_decree (call_decree c) s)" using s by (simp add: store_room_def)
    with run m show ?thesis
      by (simp add: behind_lock_def Check_Path n [symmetric] call_effect_def set_effect_def store_matches_def protected_paths_def
          registered_def)
  qed
qed

lemma thread_runs:
  assumes t: "thread_matches t (c, ph)" and c: "call_ready N c" and o: "ph = Split \<longrightarrow> array_ready c (sh_offsets a)"
    and s: "store_room N (Suc n) s" "store_matches s a"
  shows "\<exists>s' t'. thread_step t s = Inr (s', t') \<and> store_room N n s' \<and>
    store_matches s' (fst (phase_promise array_path c ph a)) \<and>
    thread_matches t' (c, snd (phase_promise array_path c ph a))"
proof (cases ph)
  case Asked
  with t until_lock_step [OF c store_room_less [OF s(1)] s(2), of array_path] show ?thesis by (simp add: thread_matches_def)
next
  case Split
  then obtain r where t: "t = At_Lock c (call_decree c) (cut_slashes (call_path c) @ NUL # r) (length (call_offsets c))"
    using t by (auto simp: thread_matches_def)
  have "\<not> must_wait (sc_op c) (store_lock s)" using s by (simp add: must_wait_def store_room_def rw_free_def)
  moreover have "array_ready c (sh_offsets a)" using o Split by simp
  ultimately show ?thesis using behind_lock_step [OF c _ s, of r]
    by (auto simp: t Split thread_matches_def split_beta)
next
  case (Answered r)
  with t s show ?thesis by (simp add: thread_matches_def store_room_def)
qed

lemma matches_step:
  assumes "system_matches N (Suc n) ts a" and "step_ready N i a"
  shows "\<exists>ts'. system_step i ts = Inr (ts', snd (system_promise array_path i a)) \<and>
    system_matches N n ts' (fst (system_promise array_path i a))"
proof -
  obtain tl s where ts: "ts = (tl, s)" by (cases ts)
  have all: "list_all2 thread_matches tl (sh_calls a)" and s: "store_room N (Suc n) s" "store_matches s a"
    using assms(1) by (simp_all add: system_matches_def ts)
  note len = list_all2_lengthD [OF all]
  show ?thesis
  proof (cases "i < length tl")
    case True
    obtain c ph where c: "sh_calls a ! i = (c, ph)" by fastforce
    from True all have t: "thread_matches (tl ! i) (c, ph)" by (metis c list_all2_nthD)
    have r: "call_ready N c" "ph = Split \<longrightarrow> array_ready c (sh_offsets a)"
      using assms(2) True len c by (auto simp: step_ready_def)
    obtain s' t' where run: "thread_step (tl ! i) s = Inr (s', t')" and s': "store_room N n s'"
      "store_matches s' (fst (phase_promise array_path c ph a))"
      and t': "thread_matches t' (c, snd (phase_promise array_path c ph a))"
      using thread_runs [OF t r s] by blast
    have "list_all2 thread_matches (tl[i := t']) ((sh_calls a)[i := (c, snd (phase_promise array_path c ph a))])"
      using all t' by (rule list_all2_update_cong)
    with run s' True len c show ?thesis
      by (auto simp: ts system_promise_def system_matches_def store_matches_def split_beta)
  next
    case False
    with s all len show ?thesis by (auto simp: ts system_promise_def system_matches_def store_room_def)
  qed
qed

interpretation shared_store: simulation system_step "system_promise array_path" "step_ready N" "system_matches N"
  by unfold_locales (rule matches_step)


section \<open>A call alone\<close>

definition alone_promise ::
  "store_call \<Rightarrow> string list set \<times> ino_key set \<Rightarrow> (string list set \<times> ino_key set) \<times> store_answer" where
  "alone_promise c PR =
     (if call_known c (snd PR) then (PR, Matched MATCH_INODE)
      else set_effect c (path_components (call_path c)) PR)"

definition alone_ready :: "nat \<Rightarrow> store_call \<Rightarrow> bool" where
  "alone_ready N c = (call_ready N c \<and> (sc_op c = Add_Path \<longrightarrow> storable (call_path c)))"

definition alone_matches :: "nat \<Rightarrow> nat \<Rightarrow> path_store \<Rightarrow> string list set \<times> ino_key set \<Rightarrow> bool" where
  "alone_matches N n s PR = (store_room N n s \<and> protected_paths s = fst PR \<and> registered s = snd PR)"

text \<open>An array that holds the call's own offsets reads the call's own path.\<close>

lemma own_array:
  assumes c: "alone_ready N c" and own: "take (length (call_offsets c)) offsets = call_offsets c"
  shows "array_path c offsets = path_components (call_path c)" and "array_ready c offsets"
proof -
  obtain u where u: "call_path c = SLASH # u"
    using c by (cases "call_path c") (auto simp: alone_ready_def call_ready_def path_accepted_def)
  show "array_path c offsets = path_components (call_path c)"
    using own own_offsets_tokens [OF u] by (simp add: array_path_def)
  with c own show "array_ready c offsets"
    by (auto simp: array_ready_def alone_ready_def storable_def own_offsets_def slash_pos_def)
qed

lemma alone_step:
  assumes m: "alone_matches N (Suc n) s PR" and c: "alone_ready N c"
  shows "\<exists>s'. call_alone c s = Inr (s', snd (alone_promise c PR)) \<and> alone_matches N n s' (fst (alone_promise c PR))"
proof -
  define a where "a = \<lparr>sh_paths = fst PR, sh_inodes = snd PR, sh_offsets = argIdxs s, sh_calls = []\<rparr>"
  have s: "store_room N (Suc n) s" and a: "store_matches s a" using m by (simp_all add: alone_matches_def store_matches_def a_def)
  have r: "call_ready N c" using c by (simp add: alone_ready_def)
  let ?a = "fst (phase_promise own_path c Asked a)" and ?ph = "snd (phase_promise own_path c Asked a)"
  obtain s1 t where s1: "until_lock c s = Inr (s1, t)" "store_matches s1 ?a" "thread_matches t (c, ?ph)"
    and full: "store_room N (Suc n) s1"
    using until_lock_step [OF r s a, of own_path] by blast
  show ?thesis
  proof (cases "call_known c (snd PR)")
    case True
    with s1 store_room_less [OF full] show ?thesis
      by (auto simp: two_steps_alone alone_promise_def alone_matches_def thread_matches_def store_matches_def a_def)
  next
    case False
    then have a1: "?a = a\<lparr>sh_offsets := call_offsets c @ drop (length (call_offsets c)) (argIdxs s)\<rparr>" "?ph = Split"
      by (simp_all add: a_def)
    then obtain b where t: "t = At_Lock c (call_decree c) (cut_slashes (call_path c) @ NUL # b) (length (call_offsets c))"
      using s1(3) by (auto simp: thread_matches_def)
    have own: "take (length (call_offsets c)) (sh_offsets ?a) = call_offsets c" unfolding a1(1) by simp
    note o = own_array [OF c own]
    from behind_lock_step [OF r o(2) full s1(2), of b, unfolded o(1)] obtain s2 where
      "behind_lock c (call_decree c) (cut_slashes (call_path c) @ NUL # b) (length (call_offsets c)) s1 =
        Inr (s2, snd (call_effect c (path_components (call_path c)) ?a))" "store_room N n s2"
      "store_matches s2 (fst (call_effect c (path_components (call_path c)) ?a))" by blast
    with False s1(1) t show ?thesis
      by (auto simp: two_steps_alone alone_promise_def alone_matches_def store_matches_def call_effect_def a1 a_def
          split_beta)
  qed
qed

interpretation alone_store: simulation call_alone alone_promise "\<lambda>c _. alone_ready N c" "alone_matches N"
  by unfold_locales (rule alone_step)


section \<open>Paths with the same offsets\<close>

text \<open>
  The offsets of all calls are beginnings of one list, as for entries of one directory. Then no split
  changes what another one has written, and every call reads its own path.
\<close>

definition aligned :: "nat list \<Rightarrow> store_call \<Rightarrow> bool" where
  "aligned M c = (call_offsets c = take (length (call_offsets c)) M)"

definition aligned_calls :: "nat \<Rightarrow> nat list \<Rightarrow> shared_spec \<Rightarrow> bool" where
  "aligned_calls N M a =
     (\<forall>(c, ph) \<in> set (sh_calls a). alone_ready N c \<and> aligned M c \<and>
       (ph = Split \<longrightarrow> take (length (call_offsets c)) (sh_offsets a) = call_offsets c))"

lemma overlay_prefix:
  assumes "xs = take (length xs) M" and "ys = take (length ys) M" and "take (length xs) zs = xs"
  shows "take (length xs) (ys @ drop (length ys) zs) = xs"
proof (cases "length xs \<le> length ys")
  case True
  then have "take (length xs) ys = take (length xs) M" using assms(2) by (metis min.absorb1 take_take)
  with True assms(1) show ?thesis by simp
next
  case False
  then have "take (length ys) zs = take (length ys) (take (length xs) zs)" by simp
  also have "\<dots> = ys" using False assms(1,2) by (metis assms(3) min.absorb1 nat_le_linear take_take)
  finally show ?thesis using assms(3) by (metis append_take_drop_id)
qed

lemma aligned_array:
  assumes "aligned_calls N M a" and "(c, Split) \<in> set (sh_calls a)"
  shows "array_path c (sh_offsets a) = own_path c (sh_offsets a)" and "array_ready c (sh_offsets a)"
proof -
  have "alone_ready N c" "take (length (call_offsets c)) (sh_offsets a) = call_offsets c"
    using assms by (auto simp: aligned_calls_def)
  from own_array [OF this] show "array_path c (sh_offsets a) = own_path c (sh_offsets a)" "array_ready c (sh_offsets a)"
    by (simp_all add: own_path_def)
qed

lemma phase_promise_offsets:
  "sh_offsets (fst (phase_promise reading c ph a)) =
     (if ph = Asked \<and> \<not> call_known c (sh_inodes a)
      then call_offsets c @ drop (length (call_offsets c)) (sh_offsets a) else sh_offsets a)"
  "snd (phase_promise reading c ph a) = Split \<longleftrightarrow> ph = Asked \<and> \<not> call_known c (sh_inodes a)"
  "sh_calls (fst (phase_promise reading c ph a)) = sh_calls a"
  by (cases ph; simp add: call_effect_def split_beta)+

lemma aligned_step:
  assumes al: "aligned_calls N M a"
  shows "step_ready N i a" and "system_promise array_path i a = system_promise own_path i a"
    and "aligned_calls N M (fst (system_promise own_path i a))"
proof -
  have "step_ready N i a \<and> system_promise array_path i a = system_promise own_path i a \<and>
    aligned_calls N M (fst (system_promise own_path i a))"
  proof (cases "i < length (sh_calls a)")
    case True
    obtain c ph where c: "sh_calls a ! i = (c, ph)" by fastforce
    then have mem: "(c, ph) \<in> set (sh_calls a)" using True by (metis nth_mem)
    then have ready: "alone_ready N c" "aligned M c" using al by (auto simp: aligned_calls_def)
    have "ph = Split \<longrightarrow> array_ready c (sh_offsets a) \<and> array_path c (sh_offsets a) = own_path c (sh_offsets a)"
      using aligned_array [OF al] mem by blast
    then have s: "step_ready N i a" and p: "phase_promise array_path c ph a = phase_promise own_path c ph a"
      using ready(1) by (cases ph; simp add: step_ready_def c alone_ready_def)+
    let ?a = "fst (phase_promise own_path c ph a)" and ?ph = "snd (phase_promise own_path c ph a)"
    have "alone_ready N d \<and> aligned M d \<and>
        (q = Split \<longrightarrow> take (length (call_offsets d)) (sh_offsets ?a) = call_offsets d)"
      if "(d, q) \<in> set ((sh_calls a)[i := (c, ?ph)])" for d q
    proof -
      from that consider "d = c" "q = ?ph" | "(d, q) \<in> set (sh_calls a)"
        using set_update_subset_insert by fastforce
      then show ?thesis
      proof cases
        case 1
        with ready show ?thesis by (auto simp: phase_promise_offsets)
      next
        case 2
        then have d: "alone_ready N d" "aligned M d"
          "q = Split \<longrightarrow> take (length (call_offsets d)) (sh_offsets a) = call_offsets d"
          using al by (auto simp: aligned_calls_def)
        with ready(2) overlay_prefix [of "call_offsets d" M "call_offsets c" "sh_offsets a"]
        show ?thesis by (simp add: phase_promise_offsets aligned_def)
      qed
    qed
    then have "aligned_calls N M (fst (system_promise own_path i a))"
      using True by (auto simp: aligned_calls_def system_promise_def c split_beta)
    with s p True show ?thesis by (simp add: system_promise_def c)
  next
    case False
    with al show ?thesis by (simp add: step_ready_def system_promise_def)
  qed
  then show "step_ready N i a" "system_promise array_path i a = system_promise own_path i a"
    "aligned_calls N M (fst (system_promise own_path i a))" by simp_all
qed

lemma aligned_runs:
  assumes "aligned_calls N M a"
  shows "ready_all (system_promise array_path) (step_ready N) steps a \<and>
    promise_all (system_promise array_path) steps a = promise_all (system_promise own_path) steps a"
  using assms
proof (induction steps arbitrary: a)
  case (Cons i steps)
  note st = aligned_step [OF Cons.prems, of i]
  from Cons.IH [OF st(3)] st(1,2) show ?case by (simp add: split_beta)
qed simp

section \<open>One after the other\<close>

text \<open>
  When each call reads its own path, additions and removals take effect at once behind the lock: the
  calls that a schedule completes could as well have run alone, in the order of their second steps.
\<close>

definition completed :: "shared_spec \<Rightarrow> nat set" where
  "completed a = {i. i < length (sh_calls a) \<and> (\<exists>r. snd (sh_calls a ! i) = Answered r)}"

definition calls_kept :: "shared_spec \<Rightarrow> shared_spec \<Rightarrow> bool" where
  "calls_kept a a' =
     (map fst (sh_calls a') = map fst (sh_calls a) \<and>
      (\<forall>i \<in> completed a. sh_calls a' ! i = sh_calls a ! i))"

lemma calls_kept_trans: "calls_kept a b \<Longrightarrow> calls_kept b c \<Longrightarrow> calls_kept a c"
  unfolding calls_kept_def completed_def by (auto dest: map_eq_imp_length_eq)

lemma own_step:
  fixes a :: shared_spec and i :: nat
  assumes chk: "\<forall>c \<in> fst ` set (sh_calls a). sc_op c \<noteq> Check_Path"
  defines "a' \<equiv> fst (system_promise own_path i a)"
  shows "calls_kept a a'"
    and "(sh_paths a', sh_inodes a') = (sh_paths a, sh_inodes a) \<and> completed a' = completed a \<or>
      i \<in> completed a' - completed a \<and> completed a' = insert i (completed a) \<and>
      (\<exists>r. alone_promise (fst (sh_calls a ! i)) (sh_paths a, sh_inodes a) = ((sh_paths a', sh_inodes a'), r) \<and>
        snd (sh_calls a' ! i) = Answered r)"
proof -
  have "calls_kept a a' \<and> ((sh_paths a', sh_inodes a') = (sh_paths a, sh_inodes a) \<and> completed a' = completed a \<or>
      i \<in> completed a' - completed a \<and> completed a' = insert i (completed a) \<and>
      (\<exists>r. alone_promise (fst (sh_calls a ! i)) (sh_paths a, sh_inodes a) = ((sh_paths a', sh_inodes a'), r) \<and>
        snd (sh_calls a' ! i) = Answered r))"
  proof (cases "i < length (sh_calls a)")
    case True
    obtain c ph where c: "sh_calls a ! i = (c, ph)" by fastforce
    then have "c \<in> fst ` set (sh_calls a)" using True by (metis fst_conv image_eqI nth_mem)
    then have k: "\<not> call_known c R" for R using chk by (auto simp: call_known_def)
    have calls: "sh_calls a' = (sh_calls a)[i := (c, snd (phase_promise own_path c ph a))]"
      using True by (simp add: a'_def system_promise_def c split_beta)
    have kept: "calls_kept a a'"
      using True c by (cases ph) (auto simp: calls_kept_def completed_def calls nth_list_update map_update intro!: list_update_same_conv [THEN iffD2])
    show ?thesis
    proof (cases ph)
      case Asked
      with True c k kept show ?thesis
        by (auto simp: a'_def system_promise_def completed_def nth_list_update split: if_splits)
    next
      case Split
      with True c k kept show ?thesis
        by (auto simp: a'_def system_promise_def completed_def nth_list_update alone_promise_def call_effect_def
            own_path_def split_beta split: if_splits)
    next
      case (Answered r)
      with True c kept show ?thesis
        by (auto simp: a'_def system_promise_def completed_def nth_list_update split: if_splits)
    qed
  next
    case False
    then show ?thesis by (simp add: a'_def system_promise_def calls_kept_def)
  qed
  then show "calls_kept a a'"
    "(sh_paths a', sh_inodes a') = (sh_paths a, sh_inodes a) \<and> completed a' = completed a \<or>
      i \<in> completed a' - completed a \<and> completed a' = insert i (completed a) \<and>
      (\<exists>r. alone_promise (fst (sh_calls a ! i)) (sh_paths a, sh_inodes a) = ((sh_paths a', sh_inodes a'), r) \<and>
        snd (sh_calls a' ! i) = Answered r)" by blast+
qed


lemma calls_kept_fst:
  "calls_kept a b \<Longrightarrow> i < length (sh_calls a) \<Longrightarrow> fst (sh_calls b ! i) = fst (sh_calls a ! i)"
  unfolding calls_kept_def by (metis length_map nth_map)

lemma serial_order:
  assumes "\<forall>c \<in> fst ` set (sh_calls a). sc_op c \<noteq> Check_Path"
  shows "\<exists>order rs a'. a' = fst (promise_all (system_promise own_path) steps a) \<and> calls_kept a a' \<and>
    distinct order \<and> set order = completed a' - completed a \<and> completed a \<subseteq> completed a' \<and>
    length order \<le> length steps \<and>
    promise_all alone_promise (map (\<lambda>i. fst (sh_calls a ! i)) order) (sh_paths a, sh_inodes a) =
      ((sh_paths a', sh_inodes a'), rs) \<and>
    map (\<lambda>i. snd (sh_calls a' ! i)) order = map Answered rs"
  using assms
proof (induction steps arbitrary: a)
  case Nil
  show ?case by (intro exI [of _ "[]"] exI [of _ a]) (simp add: calls_kept_def)
next
  case (Cons i steps)
  let ?a1 = "fst (system_promise own_path i a)"
  note st = own_step [OF Cons.prems, of i]
  have "fst ` set (sh_calls ?a1) = fst ` set (sh_calls a)"
    using st(1) unfolding calls_kept_def by (metis list.set_map)
  then have chk: "\<forall>c \<in> fst ` set (sh_calls ?a1). sc_op c \<noteq> Check_Path" using Cons.prems by simp
  obtain order rs a' where a': "a' = fst (promise_all (system_promise own_path) steps ?a1)" "calls_kept ?a1 a'"
    and o: "distinct order" "set order = completed a' - completed ?a1" "completed ?a1 \<subseteq> completed a'"
      "length order \<le> length steps"
    and run: "promise_all alone_promise (map (\<lambda>i. fst (sh_calls ?a1 ! i)) order) (sh_paths ?a1, sh_inodes ?a1) =
      ((sh_paths a', sh_inodes a'), rs)" "map (\<lambda>i. snd (sh_calls a' ! i)) order = map Answered rs"
    using Cons.IH [OF chk] by blast
  have last: "a' = fst (promise_all (system_promise own_path) (i # steps) a)" by (simp add: a'(1) split_beta)
  have kept: "calls_kept a a'" by (rule calls_kept_trans [OF st(1) a'(2)])
  have len: "length (sh_calls ?a1) = length (sh_calls a)" "length (sh_calls a') = length (sh_calls a)"
    using st(1) kept unfolding calls_kept_def by (metis length_map)+
  have "j < length (sh_calls a)" if "j \<in> set order" for j using that o(2) len by (simp add: completed_def)
  then have calls: "map (\<lambda>i. fst (sh_calls ?a1 ! i)) order = map (\<lambda>i. fst (sh_calls a ! i)) order"
    using calls_kept_fst [OF st(1)] by simp
  from st(2) show ?case
  proof (elim disjE conjE exE)
    assume "(sh_paths ?a1, sh_inodes ?a1) = (sh_paths a, sh_inodes a)" "completed ?a1 = completed a"
    with last kept o run show ?thesis unfolding calls by (intro exI [of _ order] exI [of _ rs] exI [of _ a']) simp
  next
    fix r
    assume i: "i \<in> completed ?a1 - completed a" "completed ?a1 = insert i (completed a)"
      and r: "alone_promise (fst (sh_calls a ! i)) (sh_paths a, sh_inodes a) = ((sh_paths ?a1, sh_inodes ?a1), r)"
        "snd (sh_calls ?a1 ! i) = Answered r"
    have "sh_calls a' ! i = sh_calls ?a1 ! i" using a'(2) i(1) by (simp add: calls_kept_def)
    then have "map (\<lambda>i. snd (sh_calls a' ! i)) (i # order) = map Answered (r # rs)" using run(2) r(2) by simp
    moreover have "promise_all alone_promise (map (\<lambda>i. fst (sh_calls a ! i)) (i # order)) (sh_paths a, sh_inodes a) =
        ((sh_paths a', sh_inodes a'), r # rs)" using run(1) r(1) unfolding calls by simp
    moreover have "distinct (i # order)" "set (i # order) = completed a' - completed a" "completed a \<subseteq> completed a'"
      "length (i # order) \<le> length (i # steps)" using o i by auto
    ultimately show ?thesis using last kept by (intro exI [of _ "i # order"] exI [of _ "r # rs"] exI [of _ a']) simp
  qed
qed

section \<open>Properties\<close>

text \<open>The start of a run: nobody has done a step.\<close>

definition all_asked :: "store_call list \<Rightarrow> path_store \<Rightarrow> shared_spec" where
  "all_asked cs s =
     \<lparr>sh_paths = protected_paths s, sh_inodes = registered s, sh_offsets = argIdxs s, sh_calls = map (\<lambda>c. (c, Asked)) cs\<rparr>"

lemma all_asked_matches:
  assumes "store_room N n s"
  shows "system_matches N n (map Calling cs, s) (all_asked cs s)"
proof -
  have "list_all2 thread_matches (map Calling cs) (map (\<lambda>c. (c, Asked)) cs)"
    by (simp add: list_all2_conv_all_nth thread_matches_def)
  then show ?thesis using assms by (simp add: system_matches_def all_asked_def store_matches_def)
qed

lemma thread_answered:
  assumes "system_matches N n (ts, s) a"
  shows "completed a = {i. i < length ts \<and> (\<exists>r. ts ! i = Returned r)}"
    and "i \<in> completed a \<Longrightarrow> snd (sh_calls a ! i) = Answered r \<Longrightarrow> ts ! i = Returned r"
proof -
  have all: "list_all2 thread_matches ts (sh_calls a)" using assms by (simp add: system_matches_def)
  have "(\<exists>r. snd (sh_calls a ! i) = Answered r) = (\<exists>r. ts ! i = Returned r)" if "i < length ts" for i
    using list_all2_nthD [OF all that] by (auto simp: thread_matches_def split: call_phase.splits)
  then show "completed a = {i. i < length ts \<and> (\<exists>r. ts ! i = Returned r)}"
    using list_all2_lengthD [OF all] by (auto simp: completed_def)
  show "ts ! i = Returned r" if "i \<in> completed a" "snd (sh_calls a ! i) = Answered r"
    using list_all2_nthD2 [OF all, of i] that by (simp add: completed_def thread_matches_def)
qed

lemma nothing_asked_done [simp]: "completed (all_asked cs s) = {}"
  by (auto simp: completed_def all_asked_def)

lemma aligned_system:
  assumes "store_room N (length steps) s" and "aligned_calls N M (all_asked cs s)"
  shows "\<exists>ts s' us. run_all system_step steps (map Calling cs, s) = Inr ((ts, s'), us) \<and>
    system_matches N 0 (ts, s') (fst (promise_all (system_promise own_path) steps (all_asked cs s)))"
  using shared_store.runs [of N steps 0 "(map Calling cs, s)" "all_asked cs s"] aligned_runs [OF assms(2), of steps]
    all_asked_matches [OF assms(1), of cs] by auto

lemma alone_runs:
  assumes "store_room N n s" and "length cs \<le> n" and "\<forall>c \<in> set cs. alone_ready N c"
  shows "\<exists>u. run_all call_alone cs s = Inr (u, snd (promise_all alone_promise cs (protected_paths s, registered s))) \<and>
    (protected_paths u, registered u) = fst (promise_all alone_promise cs (protected_paths s, registered s))"
proof -
  have "store_room N (length cs) s"
  proof -
    have "ARGS_SIZE * length cs \<le> ARGS_SIZE * n" using assms(2) by (rule mult_le_mono2)
    moreover have "store_ok s" "rw_free (store_lock s)" "unat (nonce (it_inodes (ps_iter s))) + n < 2 ^ 64 - 1"
      "length (pt_allocations (ps_tree s)) + ARGS_SIZE * n \<le> N" using assms(1) by (simp_all add: store_room_def)
    ultimately show ?thesis using assms(2) unfolding store_room_def by linarith
  qed
  then have "alone_matches N (length cs + 0) s (protected_paths s, registered s)" by (simp add: alone_matches_def)
  from alone_store.runs [OF this] assms(3) show ?thesis
    by (auto simp: ready_all_each alone_matches_def prod_eq_iff)
qed

lemma answers_returned:
  assumes m: "system_matches N n (ts, s) a" and o: "set order \<subseteq> completed a"
    and a: "map (\<lambda>i. snd (sh_calls a ! i)) order = map Answered rs"
  shows "map (\<lambda>i. ts ! i) order = map Returned rs"
proof (rule nth_equalityI)
  show n: "length (map (\<lambda>i. ts ! i) order) = length (map Returned rs)" using a by (metis length_map)
  fix k assume k: "k < length (map (\<lambda>i. ts ! i) order)"
  then have "order ! k \<in> completed a" using o nth_mem [of k order] by auto
  moreover have "snd (sh_calls a ! (order ! k)) = Answered (rs ! k)" using a k n by (auto simp: list_eq_iff_nth_eq)
  ultimately show "map (\<lambda>i. ts ! i) order ! k = map Returned rs ! k" using thread_answered(2) [OF m] k n by simp
qed

text \<open>The calls of the examples: with a file system that has the file, or with one that has none.\<close>

definition one_file_fs :: "string \<Rightarrow> vfs" where
  "one_file_fs p = demo_dir_fs\<lparr>kern_path := (\<lambda>q follow. if q = p then Some 1 else None),
     d_path := (\<lambda>d n. if d = 1 then Some p else None)\<rparr>"

definition demo_add :: "string \<Rightarrow> store_call" where
  "demo_add p = \<lparr>sc_op = Add_Path, sc_env = demo_env\<lparr>dir_cache := wide_slab 8000, file_system := one_file_fs p\<rparr>,
     sc_path = p @ [NUL]\<rparr>"

definition demo_rm :: "string \<Rightarrow> store_call" where
  "demo_rm p = \<lparr>sc_op = Rm_Path, sc_env = demo_env\<lparr>file_system := empty_fs\<rparr>, sc_path = p @ [NUL]\<rparr>"

lemma demo_call_path:
  assumes "NUL \<notin> set p"
  shows "call_path (demo_add p) = p" and "call_path (demo_rm p) = p"
    and "call_decree (demo_add p) = Some \<lparr>decree_path = p, device = 8, inode = 1, dentry_of = 1\<rparr>"
    and "call_decree (demo_rm p) = None"
proof -
  have c: "c_str (p @ [NUL]) = p" using assms by simp
  show d: "call_decree (demo_add p) = Some \<lparr>decree_path = p, device = 8, inode = 1, dentry_of = 1\<rparr>"
    and e: "call_decree (demo_rm p) = None"
    by (simp_all add: call_decree_def demo_add_def demo_rm_def c resolve_def one_file_fs_def demo_dir_fs_def empty_fs_def)
  show "call_path (demo_add p) = p" "call_path (demo_rm p) = p"
    by (simp_all add: call_path_def d e) (simp_all add: demo_rm_def c)
qed

lemma demo_call_ready:
  assumes "NUL \<notin> set p" and "path_accepted p"
  shows "call_ready 8000 (demo_add p)" and "call_ready 8000 (demo_rm p)"
proof -
  let ?E = "demo_env\<lparr>dir_cache := wide_slab 8000, file_system := one_file_fs p\<rparr>"
  have w: "walk_ready ?E 1"
    by (rule leaf_walk_ready) (simp_all add: next_dentries_def walkable_def key_of_def one_file_fs_def demo_dir_fs_def
        narrow_def demo_env_def zero_memory_def)
  have slab: "slab_sound (wide_slab 8000)" "slab_roomy 8000 (wide_slab 8000)"
    by (simp_all add: wide_slab_sound wide_slab_roomy)
  have e: "sc_env (demo_add p) = ?E" "sc_op (demo_add p) = Add_Path" "sc_path (demo_add p) = p @ [NUL]"
    "sc_op (demo_rm p) = Rm_Path" "sc_path (demo_rm p) = p @ [NUL]" by (simp_all add: demo_add_def demo_rm_def)
  have m: "kmem ?E n \<noteq> None" "kmem (sc_env (demo_rm p)) n \<noteq> None" for n
    by (simp_all add: demo_rm_def demo_env_def zero_memory_def)
  show "call_ready 8000 (demo_add p)"
    using w slab m(1) assms unfolding call_ready_def demo_call_path [OF assms(1)] e by (simp add: terminated_def)
  show "call_ready 8000 (demo_rm p)"
    using m(2) assms unfolding call_ready_def demo_call_path [OF assms(1)] e by (simp add: terminated_def)
qed

lemma demo_ops: "sc_op (demo_add p) = Add_Path" "sc_op (demo_rm p) = Rm_Path"
  by (simp_all add: demo_add_def demo_rm_def)

lemma demo_room: "n \<le> 8 \<Longrightarrow> store_room 8000 n demo_store"
  using demo_store_ok by (simp add: store_room_def ARGS_SIZE_def)

text \<open>
  C6. Two requests at the same time can protect a path that nobody named: when another request splits its
  path after an adding one has and before that one gets the lock, \<open>path_store_add\<close> returns 0, but what it
  has added is what its buffer holds at the offsets of the other path. Its own path is protected only if it
  was before.
\<close>

theorem split_in_between:
  assumes "store_room N 3 s" and "call_ready N c" and "call_ready N d"
    and "sc_op c = Add_Path" and "sc_op d \<noteq> Check_Path" and "length (call_offsets c) \<le> length (call_offsets d)"
    and "us = map (token_from (call_path c)) (take (length (call_offsets c)) (call_offsets d))"
    and "\<forall>off \<in> set (take (length (call_offsets c)) (call_offsets d)). off \<le> length (call_path c)"
    and "\<forall>w \<in> set us. w \<noteq> [] \<and> length w < DIR_NAME_SIZE" and "us \<noteq> path_components (call_path c)"
  shows "\<exists>ts s' rs. run_all system_step [0, 1, 0] ([Calling c, Calling d], s) = Inr ((ts, s'), rs) \<and>
    ts ! 0 = Returned (Result 0) \<and> protected_paths s' = insert us (protected_paths s) \<and>
    (path_components (call_path c) \<in> protected_paths s' \<longleftrightarrow> path_components (call_path c) \<in> protected_paths s) \<and>
    store_ok s' \<and> rw_free (store_lock s')"
proof -
  let ?a = "all_asked [c, d] s"
  define offsets where "offsets = call_offsets d @ drop (length (call_offsets d))
    (call_offsets c @ drop (length (call_offsets c)) (argIdxs s))"
  have own: "take (length (call_offsets c)) offsets = take (length (call_offsets c)) (call_offsets d)"
    using assms(6) by (simp add: offsets_def)
  then have us: "array_path c offsets = us" by (simp add: array_path_def assms(7))
  have fits: "array_ready c offsets" using assms(8,9) by (simp add: array_ready_def own us)
  have k: "\<not> call_known c R" "\<not> call_known d R" for R using assms(4,5) by (simp_all add: call_known_def)
  have p: "fst (promise_all (system_promise array_path) [0, 1, 0] ?a) =
      \<lparr>sh_paths = insert us (protected_paths s), sh_inodes = registered s \<union> inodes_of c, sh_offsets = offsets,
       sh_calls = [(c, Answered (Result 0)), (d, Split)]\<rparr>"
    using k by (simp add: all_asked_def system_promise_def call_effect_def set_effect_def assms(4) us [symmetric] offsets_def)
  have r: "ready_all (system_promise array_path) (step_ready N) [0, 1, 0] ?a"
    using k fits assms(2,3) by (simp add: all_asked_def system_promise_def step_ready_def offsets_def)
  have "system_matches N (length [0, 1, 0 :: nat] + 0) ([Calling c, Calling d], s) ?a"
    using all_asked_matches [of N 3 s "[c, d]"] assms(1) by (simp add: numeral_3_eq_3)
  from shared_store.runs [OF this r] obtain ts s' rs where
    run: "run_all system_step [0, 1, 0] ([Calling c, Calling d], s) = Inr ((ts, s'), rs)"
    and m: "system_matches N 0 (ts, s') (fst (promise_all (system_promise array_path) [0, 1, 0] ?a))"
    by (auto simp del: run_all.simps promise_all.simps)
  note m = m [unfolded p]
  then have "ts ! 0 = Returned (Result 0)" by (auto simp: system_matches_def list_all2_Cons2 thread_matches_def)
  with run m assms(10) show ?thesis
    by (intro exI [of _ ts] exI [of _ s'] exI [of _ rs])
      (auto simp: system_matches_def store_matches_def store_room_def simp del: run_all.simps)
qed

theorem split_in_between_witness:
  "\<exists>ts s' rs. run_all system_step [0, 1, 0] ([Calling (demo_add ''/a/secret''), Calling (demo_rm ''/bcd/x'')], demo_store) =
      Inr ((ts, s'), rs) \<and> ts ! 0 = Returned (Result 0) \<and> protected_paths s' = {[''a'', ''cret'']}"
proof -
  have n: "NUL \<notin> set ''/a/secret''" "NUL \<notin> set ''/bcd/x''" by simp_all
  have acc: "path_accepted ''/a/secret''" "path_accepted ''/bcd/x''" by code_simp+
  have o: "own_offsets ''/a/secret'' = [1, 3]" "own_offsets ''/bcd/x'' = [1, 5]" by code_simp+
  have tok: "token_from ''/a/secret'' (Suc 0) = ''a''" "token_from ''/a/secret'' 5 = ''cret''"
    "path_components ''/a/secret'' = [''a'', ''secret'']" by code_simp+
  note p = demo_call_path(1) [OF n(1)] demo_call_path(2) [OF n(2)]
  from split_in_between [OF demo_room demo_call_ready(1) [OF n(1) acc(1)] demo_call_ready(2) [OF n(2) acc(2)], unfolded p o]
  show ?thesis using demo_store_ok by (auto simp: demo_ops tok DIR_NAME_SIZE_def simp del: run_all.simps)
qed

text \<open>
  C5. Requests that add paths the kernel resolves, below which the walk is safe, and requests that remove
  paths it does not resolve, with memory left and with offsets that are beginnings of one list, in any
  number of threads and under any schedule, are as good as one after the other: the calls that have returned gave the answers
  and left the protected paths and the registered inodes that they give and leave alone, in some order,
  and the lock is free.
\<close>

theorem aligned_calls_serialize:
  assumes room: "store_room N (length steps) s"
    and calls: "\<forall>c \<in> set cs. alone_ready N c \<and> sc_op c \<noteq> Check_Path \<and> aligned M c"
  shows "\<exists>ts s' us order u rs. run_all system_step steps (map Calling cs, s) = Inr ((ts, s'), us) \<and>
    length ts = length cs \<and> distinct order \<and> set order = {i. i < length ts \<and> (\<exists>r. ts ! i = Returned r)} \<and>
    run_all call_alone (map (\<lambda>i. cs ! i) order) s = Inr (u, rs) \<and> map (\<lambda>i. ts ! i) order = map Returned rs \<and>
    protected_paths s' = protected_paths u \<and> registered s' = registered u \<and> store_ok s' \<and> rw_free (store_lock s')"
proof -
  let ?a = "all_asked cs s"
  have al: "aligned_calls N M ?a" using calls by (auto simp: aligned_calls_def all_asked_def)
  have chk: "\<forall>c \<in> fst ` set (sh_calls ?a). sc_op c \<noteq> Check_Path" using calls by (auto simp: all_asked_def)
  obtain order rs a' where a': "a' = fst (promise_all (system_promise own_path) steps ?a)" "calls_kept ?a a'"
    and o: "distinct order" "set order = completed a' - completed ?a" "length order \<le> length steps"
    and run: "promise_all alone_promise (map (\<lambda>i. fst (sh_calls ?a ! i)) order) (sh_paths ?a, sh_inodes ?a) =
      ((sh_paths a', sh_inodes a'), rs)" "map (\<lambda>i. snd (sh_calls a' ! i)) order = map Answered rs"
    using serial_order [OF chk, of steps] by blast
  obtain ts s' us where sys: "run_all system_step steps (map Calling cs, s) = Inr ((ts, s'), us)"
    and m: "system_matches N 0 (ts, s') a'" using aligned_system [OF room al] unfolding a'(1) by blast
  have len: "length ts = length cs"
    using m a'(2) unfolding system_matches_def calls_kept_def all_asked_def
    by (metis (no_types, lifting) fst_conv length_map list_all2_lengthD shared_spec.select_convs(4))
  have mem: "set order = {i. i < length ts \<and> (\<exists>r. ts ! i = Returned r)}"
    using o(2) thread_answered(1) [OF m] by (simp add: nothing_asked_done)
  have ord: "map (\<lambda>i. fst (sh_calls ?a ! i)) order = map (\<lambda>i. cs ! i) order" using mem len by (simp add: all_asked_def)
  have ready: "\<forall>c \<in> set (map (\<lambda>i. cs ! i) order). alone_ready N c" using calls mem len by auto
  obtain u where u: "run_all call_alone (map (\<lambda>i. cs ! i) order) s = Inr (u, rs)"
    "protected_paths u = sh_paths a'" "registered u = sh_inodes a'"
    using alone_runs [OF room _ ready] run(1) [unfolded ord] o(3) by (auto simp: all_asked_def)
  have "map (\<lambda>i. ts ! i) order = map Returned rs" by (rule answers_returned [OF m _ run(2)]) (simp add: o(2))
  with sys u m o(1) mem len show ?thesis
    by (intro exI [of _ ts] exI [of _ s'] exI [of _ us] exI [of _ order] exI [of _ u] exI [of _ rs])
      (simp add: system_matches_def store_matches_def store_room_def)
qed

theorem aligned_calls_serialize_witness:
  "let cs = [demo_add ''/d/x'', demo_rm ''/d/z'', demo_add ''/d/y/z''] in
   \<exists>ts s' us order u rs. run_all system_step [0, 1, 2, 1, 2, 0] (map Calling cs, demo_store) = Inr ((ts, s'), us) \<and>
     distinct order \<and> set order = {i. i < 3 \<and> (\<exists>r. ts ! i = Returned r)} \<and>
     run_all call_alone (map (\<lambda>i. cs ! i) order) demo_store = Inr (u, rs) \<and> map (\<lambda>i. ts ! i) order = map Returned rs \<and>
     protected_paths s' = protected_paths u"
proof -
  let ?cs = "[demo_add ''/d/x'', demo_rm ''/d/z'', demo_add ''/d/y/z'']"
  have n: "NUL \<notin> set ''/d/x''" "NUL \<notin> set ''/d/z''" "NUL \<notin> set ''/d/y/z''" by simp_all
  have acc: "path_accepted ''/d/x''" "path_accepted ''/d/z''" "path_accepted ''/d/y/z''"
    and st: "storable ''/d/x''" "storable ''/d/y/z''" by code_simp+
  have o: "own_offsets ''/d/x'' = [1, 3]" "own_offsets ''/d/z'' = [1, 3]" "own_offsets ''/d/y/z'' = [1, 3, 5]"
    by code_simp+
  note p = demo_call_path(1) [OF n(1)] demo_call_path(2) [OF n(2)] demo_call_path(1) [OF n(3)]
  have "\<forall>c \<in> set ?cs. alone_ready 8000 c \<and> sc_op c \<noteq> Check_Path \<and> aligned [1, 3, 5] c"
    using demo_call_ready(1) [OF n(1) acc(1)] demo_call_ready(2) [OF n(2) acc(2)] demo_call_ready(1) [OF n(3) acc(3)] st
    by (simp add: alone_ready_def aligned_def p o demo_ops)
  from aligned_calls_serialize [OF demo_room this, of "[0, 1, 2, 1, 2, 0]"] show ?thesis
    unfolding Let_def by (fastforce simp del: run_all.simps)
qed

end
