(* ===== verification/Logger.thy ===== *)
theory Logger
  imports Log_Ring Password
begin

text \<open>
  The logger, \<open>logger/logger.c\<close>: \<open>log_append\<close> collects who is running which program and schedules
  a work item; \<open>do_log_work\<close> hashes the file of the program and writes a line to the log. The state
  counts what the code takes from the kernel: memory, references to the module, to paths and to
  credentials, transforms.
\<close>

section \<open>State and environment\<close>

record logging_work =
  lw_tgid :: int
  lw_pid :: int
  lw_uid :: "32 word"
  lw_euid :: "32 word"
  lw_pathname :: string

record logger =
  lg_fs :: logfs
  lg_objects :: int
  lg_module_refs :: int
  lg_path_refs :: int
  lg_cred_refs :: int
  lg_tfms :: int
  lg_queue :: "logging_work list"

text \<open>
  What the kernel answers: whether the two allocations of the work succeed, what
  \<open>kernel_read_file_from_path\<close> returns and leaves in the buffer, the hash transform, the blocks of
  the log.
\<close>

record work_env =
  we_log :: bool
  we_content :: bool
  we_read_file :: "string \<Rightarrow> int \<times> char list"
  we_crypto :: crypto
  we_bread :: bread

text \<open>
  And to \<open>log_append\<close>: the reference to the module, the two allocations, the credentials of the
  current task, whether it has an address space, and what \<open>d_path\<close> writes, if it can.
\<close>

record append_env =
  ae_module :: bool
  ae_work :: bool
  ae_fullpathname :: bool
  ae_tgid :: int
  ae_pid :: int
  ae_uid :: "32 word"
  ae_euid :: "32 word"
  ae_mm :: bool
  ae_d_path :: "string option"

section \<open>The line\<close>

text \<open>The conversion \<open>%d\<close>.\<close>

fun dec :: "nat \<Rightarrow> string" where
  "dec n = (if n < 10 then [char_of (48 + n)] else dec (n div 10) @ [char_of (48 + n mod 10)])"

declare dec.simps [simp del]

definition show_int :: "int \<Rightarrow> string" where
  "show_int i = (if i < 0 then ''-'' @ dec (nat (- i)) else dec (nat i))"

definition LOG_SIZE :: nat where "LOG_SIZE = 4096 + 2048"

text \<open>\<open>sprintf\<close> to the end of the string in the buffer; it does not look at the size.\<close>

definition sprintf_end :: "string \<Rightarrow> string \<Rightarrow> string outcome" where
  "sprintf_end log s = (if length log + length s < LOG_SIZE then Inr (log @ s) else Inl Bad_Access)"

definition log_prefix :: "logging_work \<Rightarrow> string" where
  "log_prefix w =
     ''TGID:'' @ show_int (lw_tgid w) @ '';PID:'' @ show_int (lw_pid w) @
     '';UID:'' @ show_int (sint (lw_uid w)) @ '';EUID:'' @ show_int (sint (lw_euid w)) @
     '';exe:'' @ lw_pathname w @ '';hash:''"

text \<open>The loop of \<open>decompress_hash\<close> prints the digits as the password check does.\<close>

definition decompress_hash :: "8 word list \<Rightarrow> string" where
  "decompress_hash compressed_hash = print_digits (take 64 compressed_hash) @ [CHR 0x0a]"

section \<open>The work\<close>

definition free_log_input :: "logger \<Rightarrow> logger" where
  "free_log_input s = s\<lparr>lg_objects := lg_objects s - 2, lg_module_refs := lg_module_refs s - 1\<rparr>"

definition dump_log :: "work_env \<Rightarrow> string \<Rightarrow> logger \<Rightarrow> logger outcome" where
  "dump_log W log s =
     bind_out (internal_logfilefs_write (we_bread W) (log @ replicate (LOG_SIZE - length log) NUL) (lg_fs s)) (\<lambda>fs.
       Inr (free_log_input (s\<lparr>lg_fs := fs, lg_objects := lg_objects s - 1\<rparr>)))"

definition do_log_work :: "work_env \<Rightarrow> logging_work \<Rightarrow> logger \<Rightarrow> logger outcome" where
  "do_log_work W payload s =
     (if \<not> we_log W then Inr (free_log_input s)
      else
        let s = s\<lparr>lg_objects := lg_objects s + 1\<rparr> in
      bind_out (sprintf_end [] (log_prefix payload)) (\<lambda>log.
        if \<not> we_content W then Inr (free_log_input (s\<lparr>lg_objects := lg_objects s - 1\<rparr>))
        else
          let s = s\<lparr>lg_objects := lg_objects s + 1\<rparr>;
              (readTot, contentbuff) = we_read_file W (lw_pathname payload) in
          if readTot < 0
          then bind_out (sprintf_end log (''unavailable'' @ [CHR 0x0a])) (\<lambda>log. dump_log W log s)
          else
            let C = we_crypto W;
                give_up = (\<lambda>s. Inr (free_log_input (s\<lparr>lg_objects := lg_objects s - 2\<rparr>))) in
            if \<not> alloc_shash C then give_up s
            else
              let s = s\<lparr>lg_tfms := lg_tfms s + 1\<rparr> in
              if shash_init C \<noteq> 0 then give_up (s\<lparr>lg_tfms := lg_tfms s - 1\<rparr>)
              else if shash_update C \<noteq> 0 then give_up (s\<lparr>lg_tfms := lg_tfms s - 1\<rparr>)
              else if shash_final C \<noteq> 0 then give_up (s\<lparr>lg_tfms := lg_tfms s - 1\<rparr>)
              else
                let hash = sha512 C (take (nat readTot) contentbuff) in
                bind_out (sprintf_end log (decompress_hash hash)) (\<lambda>log.
                  dump_log W log (s\<lparr>lg_tfms := lg_tfms s - 1, lg_objects := lg_objects s - 1\<rparr>))))"

section \<open>Scheduling\<close>

definition log_append :: "append_env \<Rightarrow> logger \<Rightarrow> logger outcome" where
  "log_append A s =
     (if \<not> ae_module A then Inr s
      else
        let s = s\<lparr>lg_module_refs := lg_module_refs s + 1\<rparr> in
        if \<not> ae_work A then Inr (s\<lparr>lg_module_refs := lg_module_refs s - 1\<rparr>)
        else
          let s = s\<lparr>lg_objects := lg_objects s + 1\<rparr> in
          if \<not> ae_fullpathname A
          then Inr (s\<lparr>lg_module_refs := lg_module_refs s - 1, lg_objects := lg_objects s - 1\<rparr>)
          else
            let s = s\<lparr>lg_objects := lg_objects s + 1\<rparr>;
                s = s\<lparr>lg_cred_refs := lg_cred_refs s + 2\<rparr> in
            if \<not> ae_mm A then Inl Bad_Access
            else
              let s = s\<lparr>lg_path_refs := lg_path_refs s + 1\<rparr> in
              (case ae_d_path A of
                 None \<Rightarrow> Inr (s\<lparr>lg_module_refs := lg_module_refs s - 1, lg_objects := lg_objects s - 2\<rparr>)
               | Some pathname \<Rightarrow>
                   let s = s\<lparr>lg_path_refs := lg_path_refs s - 1\<rparr>;
                       work = \<lparr>lw_tgid = ae_tgid A, lw_pid = ae_pid A, lw_uid = ae_uid A, lw_euid = ae_euid A,
                         lw_pathname = pathname\<rparr> in
                   Inr (s\<lparr>lg_queue := lg_queue s @ [work]\<rparr>)))"

text \<open>The work queue runs its first item.\<close>

definition run_log_work :: "work_env \<Rightarrow> logger \<Rightarrow> logger outcome" where
  "run_log_work W s =
     (case lg_queue s of [] \<Rightarrow> Inr s | w # ws \<Rightarrow> do_log_work W w (s\<lparr>lg_queue := ws\<rparr>))"

section \<open>The line fits in its buffer\<close>

lemma length_dec: "n < 10 ^ Suc k \<Longrightarrow> length (dec n) \<le> Suc k"
proof (induction k arbitrary: n)
  case 0
  then show ?case by (simp add: dec.simps)
next
  case (Suc k)
  then have "n div 10 < 10 ^ Suc k" by (simp add: less_mult_imp_div_less mult.commute)
  from Suc.IH [OF this] show ?case by (subst dec.simps) simp
qed

lemma char_of_digit: "(n :: nat) < 10 \<Longrightarrow> (char_of (48 + n) :: char) \<noteq> NUL"
proof
  assume "(n :: nat) < 10" "(char_of (48 + n) :: char) = NUL"
  then have "(of_char (char_of (48 + n) :: char) :: nat) = 0" by simp
  with \<open>n < 10\<close> show False by (simp only: of_char_of) simp
qed

lemma NUL_dec: "NUL \<notin> set (dec n)"
proof (induction n rule: dec.induct)
  case (1 n)
  then show ?case using char_of_digit [of n] char_of_digit [of "n mod 10"]
    by (subst dec.simps) (auto dest: sym)
qed

definition int32 :: "int \<Rightarrow> bool" where
  "int32 i = (- (2 ^ 31) \<le> i \<and> i < 2 ^ 31)"

lemma length_show_int:
  assumes "int32 i"
  shows "length (show_int i) \<le> 11"
proof -
  have "nat (- i) < 10 ^ Suc 9" "nat i < 10 ^ Suc 9" using assms by (auto simp: int32_def)
  then have "length (dec (nat (- i))) \<le> Suc 9" "length (dec (nat i)) \<le> Suc 9" by (simp_all only: length_dec)
  then show ?thesis by (simp add: show_int_def)
qed

lemma int32_sint: "int32 (sint (w :: 32 word))"
  using sint_greater_eq [of w] sint_less [of w] by (simp add: int32_def)

definition work_ok :: "logging_work \<Rightarrow> bool" where
  "work_ok w = (int32 (lw_tgid w) \<and> int32 (lw_pid w) \<and> length (lw_pathname w) < 4096 \<and> NUL \<notin> set (lw_pathname w))"

lemma log_prefix_length: "work_ok w \<Longrightarrow> length (log_prefix w) < 4096 + 78"
  using length_show_int [of "lw_tgid w"] length_show_int [of "lw_pid w"]
    length_show_int [OF int32_sint [of "lw_uid w"]] length_show_int [OF int32_sint [of "lw_euid w"]]
  by (simp add: log_prefix_def work_ok_def)

lemma sprintf_end_fits:
  assumes "work_ok w" and "length s < 1000"
  shows "sprintf_end (log_prefix w) s = Inr (log_prefix w @ s)" "sprintf_end [] (log_prefix w) = Inr (log_prefix w)"
  using log_prefix_length [OF assms(1)] assms(2) by (simp_all add: sprintf_end_def LOG_SIZE_def)

lemma length_decompress_hash: "length (decompress_hash h) \<le> 129"
  by (simp add: decompress_hash_def)

lemma NUL_show_int: "NUL \<notin> set (show_int i)"
  by (auto simp: show_int_def NUL_dec)

lemma NUL_log_prefix: "work_ok w \<Longrightarrow> NUL \<notin> set (log_prefix w)"
  by (auto simp: log_prefix_def work_ok_def NUL_show_int)

lemma NUL_decompress_hash: "NUL \<notin> set (decompress_hash h)"
  by (simp add: decompress_hash_def print_digits_no_NUL)

section \<open>Properties\<close>

lemma log_buffer:
  assumes "NUL \<notin> set l" and "length l < LOG_SIZE"
  shows "terminated (l @ replicate (LOG_SIZE - length l) NUL)" "c_str (l @ replicate (LOG_SIZE - length l) NUL) = l"
    "strlen (l @ replicate (LOG_SIZE - length l) NUL) = length l"
proof -
  obtain k where "LOG_SIZE - length l = Suc k" using assms(2) by (metis Suc_diff_Suc)
  then have "replicate (LOG_SIZE - length l) NUL = NUL # replicate k NUL" by simp
  with assms(1) show "terminated (l @ replicate (LOG_SIZE - length l) NUL)"
    "c_str (l @ replicate (LOG_SIZE - length l) NUL) = l"
    "strlen (l @ replicate (LOG_SIZE - length l) NUL) = length l" by simp_all
qed

text \<open>
  A use of the logger from end to end: appending and then running the scheduled work adds one line
  to the history of the log, with the ids, the program and the digits of the hash of its file, and gives
  back the memory, the module, the path and the transform. The two references to credentials stay.
\<close>

theorem log_append_work_logs:
  assumes h: "holds_log sb (lg_fs s) h" "\<not> log_file_mutex (lg_fs s)" "mounted (lg_fs s)"
      "length h + LOG_SIZE < 2 ^ 62"
    and A: "ae_module A" "ae_work A" "ae_fullpathname A" "ae_mm A" "ae_d_path A = Some (lw_pathname w)"
    and w: "w = \<lparr>lw_tgid = ae_tgid A, lw_pid = ae_pid A, lw_uid = ae_uid A, lw_euid = ae_euid A,
      lw_pathname = lw_pathname w\<rparr>" "work_ok w"
    and W: "we_log W" "we_content W" "we_read_file W (lw_pathname w) = (n, content)" "0 \<le> n"
      "alloc_shash (we_crypto W)" "shash_init (we_crypto W) = 0" "shash_update (we_crypto W) = 0"
      "shash_final (we_crypto W) = 0" "\<forall>n b. we_bread W n sb b"
    and q: "lg_queue s = []"
  shows "\<exists>t u. log_append A s = Inr t \<and> run_log_work W t = Inr u \<and>
    holds_log sb (lg_fs u) (h @ log_prefix w @ decompress_hash (sha512 (we_crypto W) (take (nat n) content))) \<and>
    lg_objects u = lg_objects s \<and> lg_module_refs u = lg_module_refs s \<and> lg_path_refs u = lg_path_refs s \<and>
    lg_tfms u = lg_tfms s \<and> lg_queue u = [] \<and> lg_cred_refs u = lg_cred_refs s + 2"
proof -
  let ?d = "decompress_hash (sha512 (we_crypto W) (take (nat n) content))"
  let ?l = "log_prefix w @ ?d"
  define t where "t = s\<lparr>lg_module_refs := lg_module_refs s + 1, lg_objects := lg_objects s + 2,
    lg_cred_refs := lg_cred_refs s + 2, lg_queue := [w]\<rparr>"
  have wk: "\<lparr>lw_tgid = ae_tgid A, lw_pid = ae_pid A, lw_uid = ae_uid A, lw_euid = ae_euid A,
      lw_pathname = lw_pathname w\<rparr> = w" using w(1) by (rule sym)
  have t: "log_append A s = Inr t"
    by (simp add: log_append_def A q wk t_def Let_def)
  note fit = sprintf_end_fits [OF w(2)]
  have dl: "length ?d < 1000" using length_decompress_hash [of "sha512 (we_crypto W) (take (nat n) content)"] by linarith
  have l: "NUL \<notin> set ?l" "length ?l < LOG_SIZE"
    using NUL_log_prefix [OF w(2)] NUL_decompress_hash dl log_prefix_length [OF w(2)] by (auto simp: LOG_SIZE_def)
  note B = log_buffer [OF l]
  have small: "length h + strlen (?l @ replicate (LOG_SIZE - length ?l) NUL) < 2 ^ 62"
    using h(4) l(2) unfolding B(3) by linarith
  have "\<forall>n k. k < strlen (?l @ replicate (LOG_SIZE - length ?l) NUL) \<longrightarrow>
    we_bread W n sb (next_sector (length h) (unat (file_size (lg_fs s))) k)" using W(9) by blast
  from internal_write_appends_log [where io = "we_bread W", OF h(1-3) B(1) small this] obtain fs where
    fs: "internal_logfilefs_write (we_bread W) (?l @ replicate (LOG_SIZE - length ?l) NUL) (lg_fs s) = Inr fs"
      "holds_log sb fs (h @ ?l)" unfolding B(2) by blast
  have "run_log_work W t = Inr (free_log_input (t\<lparr>lg_queue := [], lg_fs := fs, lg_objects := 2 + lg_objects s\<rparr>))"
    using fs(1) W fit(1) [OF dl] fit(2) [of "[]"]
    by (simp add: run_log_work_def do_log_work_def dump_log_def Let_def t_def)
  with t fs(2) show ?thesis by (auto simp: free_log_input_def t_def)
qed


definition demo_append :: append_env where
  "demo_append = \<lparr>ae_module = True, ae_work = True, ae_fullpathname = True, ae_tgid = 41, ae_pid = 42, ae_uid = 1000,
     ae_euid = 0, ae_mm = True, ae_d_path = Some ''/bin/vi''\<rparr>"

definition demo_work :: logging_work where
  "demo_work = \<lparr>lw_tgid = 41, lw_pid = 42, lw_uid = 1000, lw_euid = 0, lw_pathname = ''/bin/vi''\<rparr>"

definition demo_work_env :: work_env where
  "demo_work_env = \<lparr>we_log = True, we_content = True, we_read_file = (\<lambda>_. (2, ''MZ'' @ replicate 8 NUL)),
     we_crypto = demo_crypto, we_bread = (\<lambda>_ _ _. True)\<rparr>"

definition demo_logger :: logger where
  "demo_logger = \<lparr>lg_fs = demo_log, lg_objects = 0, lg_module_refs = 1, lg_path_refs = 0, lg_cred_refs = 0, lg_tfms = 0,
     lg_queue = []\<rparr>"

lemma demo_work_ok: "work_ok demo_work"
  by (simp add: work_ok_def demo_work_def int32_def)

lemma demo_prefix: "log_prefix demo_work = ''TGID:41;PID:42;UID:1000;EUID:0;exe:/bin/vi;hash:''"
  by (simp add: log_prefix_def demo_work_def show_int_def dec.simps char_of_def bit_0)

theorem log_append_work_logs_witness:
  "\<exists>t u. log_append demo_append demo_logger = Inr t \<and> run_log_work demo_work_env t = Inr u \<and>
     holds_log 7 (lg_fs u) (''TGID:41;PID:42;UID:1000;EUID:0;exe:/bin/vi;hash:'' @
       print_digits (replicate 64 2) @ [CHR 0x0a]) \<and> lg_objects u = 0 \<and> lg_cred_refs u = 2"
proof -
  have hash: "decompress_hash (sha512 demo_crypto (take (nat 2) (''MZ'' @ replicate 8 NUL))) =
      print_digits (replicate 64 2) @ [CHR 0x0a]" by (simp add: decompress_hash_def demo_crypto_def)
  have "\<exists>t u. log_append demo_append demo_logger = Inr t \<and> run_log_work demo_work_env t = Inr u \<and>
    holds_log 7 (lg_fs u) ([] @ log_prefix demo_work @
      decompress_hash (sha512 (we_crypto demo_work_env) (take (nat 2) (''MZ'' @ replicate 8 NUL)))) \<and>
    lg_objects u = lg_objects demo_logger \<and> lg_module_refs u = lg_module_refs demo_logger \<and>
    lg_path_refs u = lg_path_refs demo_logger \<and> lg_tfms u = lg_tfms demo_logger \<and> lg_queue u = [] \<and>
    lg_cred_refs u = lg_cred_refs demo_logger + 2"
    by (rule log_append_work_logs)
      (simp_all add: demo_logger_def demo_holds LOG_SIZE_def demo_append_def demo_work_def demo_work_ok [unfolded demo_work_def]
        demo_work_env_def demo_crypto_def)
  moreover have "lg_objects demo_logger = 0" "lg_cred_refs demo_logger = 0" "we_crypto demo_work_env = demo_crypto"
    by (simp_all add: demo_logger_def demo_work_env_def)
  ultimately show ?thesis unfolding demo_prefix append_Nil by (simp only: hash) auto
qed

text \<open>
  C34. The work ends on every path, within the buffer of the line, and balances what it took: the two
  objects of the payload and the module are given back and no transform stays. The one exception is the
  buffer for the contents, which stays allocated when the file of the program cannot be read.
\<close>

theorem do_log_work_balance:
  assumes "work_ok w" and "holds_log sb (lg_fs s) h" and "\<not> log_file_mutex (lg_fs s)"
    and "length h + LOG_SIZE < 2 ^ 62"
  shows "\<exists>t. do_log_work W w s = Inr t \<and>
    lg_objects t = lg_objects s - 2 +
      (if we_log W \<and> we_content W \<and> fst (we_read_file W (lw_pathname w)) < 0 then 1 else 0) \<and>
    lg_module_refs t = lg_module_refs s - 1 \<and> lg_tfms t = lg_tfms s \<and> lg_queue t = lg_queue s"
proof -
  obtain n content where r: "we_read_file W (lw_pathname w) = (n, content)" by fastforce
  note fit = sprintf_end_fits [OF assms(1)]
  have dump: "\<exists>fs. dump_log W (log_prefix w @ x) s' =
      Inr (free_log_input (s'\<lparr>lg_fs := fs, lg_objects := lg_objects s' - 1\<rparr>))"
    if x: "NUL \<notin> set x" "length x < 1000" and s': "lg_fs s' = lg_fs s" for x s'
  proof -
    have l: "NUL \<notin> set (log_prefix w @ x)" "length (log_prefix w @ x) < LOG_SIZE"
      using NUL_log_prefix [OF assms(1)] x log_prefix_length [OF assms(1)] by (auto simp: LOG_SIZE_def)
    note B = log_buffer [OF l]
    have small: "length h + strlen ((log_prefix w @ x) @ replicate (LOG_SIZE - length (log_prefix w @ x)) NUL) < 2 ^ 62"
      using assms(4) l(2) unfolding B(3) by linarith
    obtain fs where "internal_logfilefs_write (we_bread W)
        ((log_prefix w @ x) @ replicate (LOG_SIZE - length (log_prefix w @ x)) NUL) (lg_fs s) = Inr fs"
      using internal_write_returns [OF assms(2,3) B(1) small] by blast
    then show ?thesis by (simp add: dump_log_def s' del: append_assoc) (metis append_assoc)
  qed
  have u: "NUL \<notin> set (''unavailable'' @ [CHR 0x0a])" "length (''unavailable'' @ [CHR 0x0a]) < 1000" by simp_all
  have d: "length (decompress_hash k) < 1000" for k using length_decompress_hash [of k] by linarith
  let ?s2 = "s\<lparr>lg_objects := lg_objects s + 1 + 1\<rparr>"
  obtain f1 where f1: "dump_log W (log_prefix w @ ''unavailable'' @ [CHR 0x0a]) ?s2 =
      Inr (free_log_input (?s2\<lparr>lg_fs := f1, lg_objects := lg_objects ?s2 - 1\<rparr>))"
    using dump [OF u, of ?s2] by auto
  let ?s3 = "?s2\<lparr>lg_tfms := lg_tfms s + 1 - 1, lg_objects := lg_objects s + 1 + 1 - 1\<rparr>"
  obtain f2 where f2: "dump_log W (log_prefix w @ decompress_hash (sha512 (we_crypto W) (take (nat n) content))) ?s3 =
      Inr (free_log_input (?s3\<lparr>lg_fs := f2, lg_objects := lg_objects ?s3 - 1\<rparr>))"
    using dump [OF NUL_decompress_hash d, of ?s3] by auto
  show ?thesis
    using f1 f2 fit(1) [OF u(2)] fit(1) [OF d] fit(2) [of "[]"]
    by (auto simp: do_log_work_def r Let_def free_log_input_def)
qed

theorem do_log_work_balance_witness:
  "\<exists>t. do_log_work (demo_work_env\<lparr>we_read_file := (\<lambda>_. (-2, []))\<rparr>) demo_work (demo_logger\<lparr>lg_objects := 2\<rparr>) = Inr t \<and>
     lg_objects t = 1"
proof -
  let ?s = "demo_logger\<lparr>lg_objects := 2\<rparr>"
  have s: "holds_log 7 (lg_fs ?s) []" "\<not> log_file_mutex (lg_fs ?s)" "length [] + LOG_SIZE < 2 ^ 62"
    by (simp_all add: demo_logger_def demo_holds LOG_SIZE_def)
  show ?thesis
    using do_log_work_balance [OF demo_work_ok s, of "demo_work_env\<lparr>we_read_file := (\<lambda>_. (-2, []))\<rparr>"]
    by (auto simp: demo_work_env_def)
qed

end
