(* ===== verification/Log_Session.thy ===== *)
theory Log_Session
  imports Logger Log_Mount Request_Runs
begin

text \<open>
  The logger and the log together, over any interleaving of programs that use the logger, of the work
  queue running what they scheduled, of programs that read or write the log file and of unmounting and
  mounting, against a specification: the queue of the works that are pending, the history of the log,
  what a mount finds on the disk, and what has been lost. The model of the logger provides the interface
  of \<open>Request_Runs\<close> for it.
\<close>

section \<open>What is promised\<close>

text \<open>
  A use of the logger; the work queue running its first item; a program that reads the log from an
  offset on until nothing comes, with a buffer of the given length; one that writes a buffer to it; an
  unmount, after which the buffers of the device survive or not; a mount. The result is a number and the
  bytes that are read.
\<close>

datatype log_event =
    Use append_env
  | Work work_env
  | Read_Log nat bread "64 word" "64 word"
  | Write_Log bread "char list" nat
  | Unmount bread "device \<Rightarrow> device" "device \<Rightarrow> device" bool
  | Mount bread

fun log_step :: "super_block \<Rightarrow> log_event \<Rightarrow> logger \<Rightarrow> (logger \<times> int \<times> string) outcome" where
  "log_step sb (Use A) s = bind_out (log_append A s) (\<lambda>s. Inr (s, 0, []))"
| "log_step sb (Work W) s = bind_out (run_log_work W s) (\<lambda>s. Inr (s, 0, []))"
| "log_step sb (Read_Log fuel io len off) s =
     bind_out (read_on fuel io sb len off (lg_fs s)) (\<lambda>out. Inr (s, 0, out))"
| "log_step sb (Write_Log io buf len) s =
     bind_out (logfilefs_write io buf len (lg_fs s)) (\<lambda>(fs, k, off). Inr (s\<lparr>lg_fs := fs\<rparr>, int k, []))"
| "log_step sb (Unmount io sync kill survive) s =
     bind_out (singlefilefs_kill_superblock io sync kill sb (lg_fs s)) (\<lambda>fs. Inr (s\<lparr>lg_fs := fs\<rparr>, 0, []))"
| "log_step sb (Mount io) s =
     bind_out (singlefilefs_fill_super io True True sb (lg_fs s)) (\<lambda>(fs, r). Inr (s\<lparr>lg_fs := fs\<rparr>, r, []))"

text \<open>The work that a use schedules, if the kernel grants it.\<close>

definition gets_memory :: "append_env \<Rightarrow> bool" where
  "gets_memory A = (ae_module A \<and> ae_work A \<and> ae_fullpathname A)"

definition work_of :: "append_env \<Rightarrow> string \<Rightarrow> logging_work" where
  "work_of A pathname = \<lparr>lw_tgid = ae_tgid A, lw_pid = ae_pid A, lw_uid = ae_uid A, lw_euid = ae_euid A,
     lw_pathname = pathname\<rparr>"

definition granted :: "append_env \<Rightarrow> logging_work list" where
  "granted A =
     (if gets_memory A
      then (case ae_d_path A of None \<Rightarrow> [] | Some pathname \<Rightarrow> [work_of A pathname]) else [])"

text \<open>The line a work adds: none when memory or the hash transform fails.\<close>

definition hash_fails :: "crypto \<Rightarrow> bool" where
  "hash_fails C = (\<not> alloc_shash C \<or> shash_init C \<noteq> 0 \<or> shash_update C \<noteq> 0 \<or> shash_final C \<noteq> 0)"

definition line_of :: "work_env \<Rightarrow> logging_work \<Rightarrow> string" where
  "line_of W w =
     (if \<not> we_log W \<or> \<not> we_content W then []
      else
        let (n, content) = we_read_file W (lw_pathname w) in
        if n < 0 then log_prefix w @ ''unavailable'' @ [CHR 0x0a]
        else if hash_fails (we_crypto W) then []
        else log_prefix w @ decompress_hash (sha512 (we_crypto W) (take (nat n) content)))"

text \<open>
  The specification: the works that are pending, the history of the log, the history that the disk
  holds, whether the log is mounted, and what the code takes and does not give back: two credentials for
  each use that gets its memory, the path when \<open>d_path\<close> fails, the buffer for the contents when
  the file cannot be read. Lines of works that run while the log is not mounted are lost. The disk keeps
  the history it had: when the buffers do not survive the unmount, the next mount finds that one.
\<close>

record log_spec =
  pending :: "logging_work list"
  history :: string
  on_disk :: string
  online :: bool
  lost_creds :: nat
  lost_paths :: nat
  lost_buffers :: nat

definition buffer_lost :: "work_env \<Rightarrow> logging_work \<Rightarrow> nat" where
  "buffer_lost W w = (if we_log W \<and> we_content W \<and> fst (we_read_file W (lw_pathname w)) < 0 then 1 else 0)"

text \<open>
  The history after a program has written: the bytes of its buffer that can be read are appended. If
  there are fewer than it asked for, the kernel fills the rest of the run with zeros, and on a full ring
  the zeros replace the oldest bytes.
\<close>

definition written :: "nat \<Rightarrow> nat \<Rightarrow> string \<Rightarrow> string \<Rightarrow> string" where
  "written cap len buf h =
     wiped cap (next_chunk (length h) cap len (min len (length buf))) (h @ take len buf)"

lemma length_written: "length (written cap len buf h) = length h + min len (length buf)"
  by (simp add: written_def min.commute)

fun log_promise :: "nat \<Rightarrow> log_event \<Rightarrow> log_spec \<Rightarrow> log_spec \<times> int \<times> string" where
  "log_promise cap (Use A) a =
     (a\<lparr>pending := pending a @ granted A,
        lost_creds := lost_creds a + (if gets_memory A then 2 else 0),
        lost_paths := lost_paths a + (if gets_memory A \<and> ae_d_path A = None then 1 else 0)\<rparr>, 0, [])"
| "log_promise cap (Work W) a =
     (case pending a of
        [] \<Rightarrow> (a, 0, [])
      | w # ws \<Rightarrow>
          (a\<lparr>pending := ws, history := (if online a then history a @ line_of W w else history a),
             lost_buffers := lost_buffers a + buffer_lost W w\<rparr>, 0, []))"
| "log_promise cap (Read_Log fuel io len off) a =
     (a, 0, drop (max (unat off) (length (history a) - cap)) (history a))"
| "log_promise cap (Write_Log io buf len) a =
     (a\<lparr>history := written cap len buf (history a)\<rparr>, int (min len (length buf)), [])"
| "log_promise cap (Unmount io sync kill survive) a =
     (a\<lparr>online := False, history := (if survive then history a else on_disk a)\<rparr>, 0, [])"
| "log_promise cap (Mount io) a = (a\<lparr>online := True\<rparr>, 0, [])"

text \<open>
  The events the promise is made for: tasks with an address space, names that fit, blocks that can be
  had, readers that read on long enough for a history of length \<open>B\<close>, no file access and no unmount
  but of a mounted log, no mount but of an unmounted one. No buffer is ever marked dirty, so
  \<open>sync_filesystem\<close> and \<open>kill_block_super\<close> leave the disk as it is.
\<close>

fun event_ready :: "super_block \<Rightarrow> nat \<Rightarrow> log_event \<Rightarrow> log_spec \<Rightarrow> bool" where
  "event_ready sb B (Use A) a =
     ((gets_memory A \<longrightarrow> ae_mm A) \<and> (\<forall>w \<in> set (granted A). work_ok w))"
| "event_ready sb B (Work W) a = (\<forall>n b. we_bread W n sb b)"
| "event_ready sb B (Read_Log fuel io len off) a =
     (online a \<and> 0 < unat len \<and> unat len < 2 ^ 62 \<and> (\<forall>b. io 0 sb b) \<and> unat off < 2 ^ 62 \<and> B \<le> fuel)"
| "event_ready sb B (Write_Log io buf len) a = (online a \<and> len \<le> LOG_SIZE \<and> (\<forall>n b. io n sb b))"
| "event_ready sb B (Unmount io sync kill survive) a =
     (online a \<and> io 0 sb 1 \<and> same_buffers sync \<and> (\<forall>d. disk (sync d) = disk d) \<and> (\<forall>d. disk (kill d) = disk d) \<and>
      (if survive then same_buffers kill else \<forall>d b. cache (kill d) b = None))"
| "event_ready sb B (Mount io) a = (\<not> online a \<and> (\<forall>n b. b \<in> {0, 1} \<longrightarrow> io n sb b))"

text \<open>
  What a mount needs of the blocks of the superblock and of the inode, and the log a mount would find:
  in the buffers, and on the disk alone.
\<close>

definition system_blocks :: "super_block \<Rightarrow> nat \<Rightarrow> logfs \<Rightarrow> bool" where
  "system_blocks sb cap s =
     (get_field SB_MAGIC (b_data sb 0 s) = MAGIC \<and> length (b_data sb 1 s) = DEFAULT_BLOCK_SIZE \<and>
      get_field INODE_FILE_SIZE (b_data sb 1 s) = word_of_nat cap)"

definition with_inode :: "super_block \<Rightarrow> logfs \<Rightarrow> logfs" where
  "with_inode sb s =
     s\<lparr>file_size := get_field INODE_FILE_SIZE (b_data sb 1 s),
       circular_buffer_start := get_field INODE_START (b_data sb 1 s),
       circular_buffer_end := get_field INODE_END (b_data sb 1 s), singleton_sb := Some sb\<rparr>"

definition stored_log :: "super_block \<Rightarrow> nat \<Rightarrow> logfs \<Rightarrow> string \<Rightarrow> bool" where
  "stored_log sb cap s h = (system_blocks sb cap s \<and> holds_log sb (with_inode sb s) h)"

definition without_cache :: "super_block \<Rightarrow> logfs \<Rightarrow> logfs" where
  "without_cache sb s = on_device sb (\<lambda>d. d\<lparr>cache := (\<lambda>_. None)\<rparr>) s"

text \<open>
  A logger whose log holds the history, with the pending works in its queue, each with its two objects
  and keeping the module in memory, room for \<open>n\<close> more events, and the counters where they were in the
  state \<open>z\<close>, but for the losses.
\<close>

definition log_holds :: "super_block \<Rightarrow> nat \<Rightarrow> logfs \<Rightarrow> log_spec \<Rightarrow> bool" where
  "log_holds sb cap s a =
     (\<not> log_file_mutex s \<and> \<not> sb_lock s \<and> mounted s = online a \<and>
      (if online a then holds_log sb s (history a) \<and> file_size s = word_of_nat cap \<and> system_blocks sb cap s
       else stored_log sb cap s (history a)) \<and>
      stored_log sb cap (without_cache sb s) (on_disk a) \<and> cap < 2 ^ 62)"

definition log_matches :: "super_block \<Rightarrow> nat \<Rightarrow> nat \<Rightarrow> logger \<Rightarrow> nat \<Rightarrow> logger \<Rightarrow> log_spec \<Rightarrow> bool" where
  "log_matches sb cap B z n s a =
     (log_holds sb cap (lg_fs s) a \<and> cap div 4096 + 2 < 2 ^ 31 \<and>
      lg_queue s = pending a \<and> (\<forall>w \<in> set (pending a). work_ok w) \<and>
      length (history a) + LOG_SIZE * n < B \<and> length (on_disk a) + LOG_SIZE * n < B \<and> B \<le> 2 ^ 62 \<and>
      lg_objects s = lg_objects z + 2 * int (length (pending a)) + int (lost_buffers a) \<and>
      lg_module_refs s = lg_module_refs z + int (length (pending a)) \<and> lg_tfms s = lg_tfms z \<and>
      lg_cred_refs s = lg_cred_refs z + int (lost_creds a) \<and> lg_path_refs s = lg_path_refs z + int (lost_paths a))"

section \<open>The log, mounted or not\<close>

lemma ring_holds_same:
  assumes "\<forall>b. b_data sb b t = b_data sb b s"
  shows "ring_holds sb m t = ring_holds sb m s"
proof -
  have "ring_byte sb t = ring_byte sb s" by (intro ext) (simp only: ring_byte_def assms [rule_format])
  then show ?thesis by (intro ext) (simp only: ring_holds_def ring_ok_def assms [rule_format])
qed

lemma b_data_with_inode [simp]: "b_data sb b (with_inode sb s) = b_data sb b s"
  by (simp add: b_data_def with_inode_def)

lemma stored_log_same:
  assumes "\<forall>b. b_data sb b t = b_data sb b s"
  shows "stored_log sb cap t = stored_log sb cap s"
proof -
  have "ring_holds sb m (with_inode sb t) = ring_holds sb m (with_inode sb s)" for m
    by (rule ring_holds_same) (simp add: assms)
  moreover have "file_size (with_inode sb t) = file_size (with_inode sb s)"
    "circular_buffer_start (with_inode sb t) = circular_buffer_start (with_inode sb s)"
    "circular_buffer_end (with_inode sb t) = circular_buffer_end (with_inode sb s)"
    "singleton_sb (with_inode sb t) = singleton_sb (with_inode sb s)"
    by (simp_all only: with_inode_def assms [rule_format]) simp_all
  ultimately show ?thesis
    by (intro ext) (simp only: stored_log_def system_blocks_def holds_log_def assms [rule_format])
qed

lemma b_data_without_cache [simp]: "b_data sb b (without_cache sb s) = disk_of s sb b"
  by (simp add: without_cache_def on_device_def b_data_def buffer_of_def disk_of_def)

lemma stored_on_disk:
  assumes "disk_of t sb = disk_of s sb"
  shows "stored_log sb cap (without_cache sb t) = stored_log sb cap (without_cache sb s)"
  by (rule stored_log_same) (simp add: assms)

text \<open>A write that gives the log a new history when it is mounted, and does nothing otherwise.\<close>

definition logs_to :: "super_block \<Rightarrow> logfs \<Rightarrow> string \<Rightarrow> logfs \<Rightarrow> bool" where
  "logs_to sb s h t =
     (if mounted s
      then holds_log sb t h \<and> \<not> log_file_mutex t \<and> mounted t \<and> sb_lock t = sb_lock s \<and>
        file_size t = file_size s \<and> same_system sb s t
      else t = s)"

lemma logs_to_nothing:
  "mounted s \<longrightarrow> holds_log sb s h \<Longrightarrow> \<not> log_file_mutex s \<Longrightarrow> logs_to sb s h s"
  by (simp add: logs_to_def same_system_def)

lemma log_holds_after:
  assumes l: "log_holds sb cap s a" and w: "logs_to sb s h t"
  shows "log_holds sb cap t (a\<lparr>history := (if online a then h else history a)\<rparr>)"
proof (cases "online a")
  case True
  have m: "mounted s" using l True by (simp add: log_holds_def)
  have w': "holds_log sb t h" "\<not> log_file_mutex t" "mounted t" "sb_lock t = sb_lock s"
    "file_size t = file_size s" "same_system sb s t" using w m by (simp_all add: logs_to_def)
  have "stored_log sb cap (without_cache sb t) = stored_log sb cap (without_cache sb s)"
    by (rule stored_on_disk) (use w'(6) in \<open>simp add: same_system_def\<close>)
  moreover have "system_blocks sb cap t = system_blocks sb cap s"
    using w'(6) by (simp add: system_blocks_def same_system_def)
  ultimately show ?thesis using l w' True by (simp add: log_holds_def)
next
  case False
  then have "t = s" using l w by (simp add: log_holds_def logs_to_def)
  with l False show ?thesis by (simp add: log_holds_def)
qed

lemma internal_write_logs:
  assumes h: "mounted s \<longrightarrow> holds_log sb s h" and free: "\<not> log_file_mutex s" and p: "terminated p"
    and small: "length h + strlen p < 2 ^ 62" and io: "\<forall>n b. io n sb b"
  obtains t where "internal_logfilefs_write io p s = Inr t" and "logs_to sb s (h @ c_str p) t"
proof (cases "mounted s")
  case True
  have "\<forall>n k. k < strlen p \<longrightarrow> io n sb (next_sector (length h) (unat (file_size s)) k)" using io by blast
  from internal_write_appends_log [where io = io, OF h [rule_format, OF True] free True p small this] obtain t where
    t: "internal_logfilefs_write io p s = Inr t" "holds_log sb t (h @ c_str p)" "\<not> log_file_mutex t" "mounted t"
      "sb_lock t = sb_lock s" "file_size t = file_size s" by blast
  moreover have "same_system sb s t" by (rule internal_write_system [OF h [rule_format, OF True] small t(1)])
  ultimately show thesis using True by (intro that) (simp_all add: logs_to_def)
next
  case False
  then have "internal_logfilefs_write io p s = Inr s"
    using p free by (simp add: internal_logfilefs_write_def Let_def)
  with False show thesis by (intro that) (simp_all add: logs_to_def)
qed

section \<open>The provider\<close>

lemma dump_logs:
  assumes w: "work_ok w" and x: "NUL \<notin> set x" "length x < 1000"
    and h: "mounted (lg_fs s) \<longrightarrow> holds_log sb (lg_fs s) h" "\<not> log_file_mutex (lg_fs s)"
      "length h + LOG_SIZE < 2 ^ 62" and io: "\<forall>n b. we_bread W n sb b"
  obtains fs where "dump_log W (log_prefix w @ x) s =
      Inr (free_log_input (s\<lparr>lg_fs := fs, lg_objects := lg_objects s - 1\<rparr>))"
    and "logs_to sb (lg_fs s) (h @ log_prefix w @ x) fs"
proof -
  let ?l = "log_prefix w @ x"
  let ?p = "?l @ replicate (LOG_SIZE - length ?l) NUL"
  have l: "NUL \<notin> set ?l" "length ?l < LOG_SIZE"
    using NUL_log_prefix [OF w] x log_prefix_length [OF w] by (auto simp: LOG_SIZE_def)
  note B = log_buffer [OF l]
  have small: "length h + strlen ?p < 2 ^ 62" using h(3) l(2) unfolding B(3) by linarith
  obtain fs where "internal_logfilefs_write (we_bread W) ?p (lg_fs s) = Inr fs" "logs_to sb (lg_fs s) (h @ c_str ?p) fs"
    by (rule internal_write_logs [where io = "we_bread W", OF h(1,2) B(1) small io])
  then show thesis unfolding B(2) by (intro that [of fs]) (simp_all add: dump_log_def)
qed

text \<open>The work, on every path.\<close>

lemma do_log_work_logs:
  assumes w: "work_ok w" and h: "mounted (lg_fs s) \<longrightarrow> holds_log sb (lg_fs s) h" "\<not> log_file_mutex (lg_fs s)"
      "length h + LOG_SIZE < 2 ^ 62" and io: "\<forall>n b. we_bread W n sb b"
  shows "\<exists>t. do_log_work W w s = Inr t \<and> logs_to sb (lg_fs s) (h @ line_of W w) (lg_fs t) \<and>
    lg_queue t = lg_queue s \<and> lg_objects t = lg_objects s - 2 + int (buffer_lost W w) \<and>
    lg_module_refs t = lg_module_refs s - 1 \<and> lg_tfms t = lg_tfms s \<and> lg_cred_refs t = lg_cred_refs s \<and>
    lg_path_refs t = lg_path_refs s"
proof -
  obtain n content where r: "we_read_file W (lw_pathname w) = (n, content)" by fastforce
  let ?d = "decompress_hash (sha512 (we_crypto W) (take (nat n) content))"
  let ?u = "''unavailable'' @ [CHR 0x0a]"
  have u: "NUL \<notin> set ?u" "length ?u < 1000" by simp_all
  have d: "length ?d < 1000" using length_decompress_hash [of "sha512 (we_crypto W) (take (nat n) content)"] by linarith
  note fit = sprintf_end_fits [OF w] and none = logs_to_nothing [OF h(1,2)]
  consider (early) "\<not> we_log W \<or> \<not> we_content W" | (unavailable) "we_log W" "we_content W" "n < 0"
    | (fails) "we_log W" "we_content W" "0 \<le> n" "hash_fails (we_crypto W)"
    | (line) "we_log W" "we_content W" "0 \<le> n" "\<not> hash_fails (we_crypto W)" by linarith
  then show ?thesis
  proof cases
    case early
    then show ?thesis using none fit(2) [of "[]"]
      by (auto simp: do_log_work_def line_of_def buffer_lost_def free_log_input_def Let_def)
  next
    case unavailable
    let ?s = "s\<lparr>lg_objects := lg_objects s + 1 + 1\<rparr>"
    have hs: "mounted (lg_fs ?s) \<longrightarrow> holds_log sb (lg_fs ?s) h" "\<not> log_file_mutex (lg_fs ?s)" using h by simp_all
    obtain fs where "dump_log W (log_prefix w @ ?u) ?s =
        Inr (free_log_input (?s\<lparr>lg_fs := fs, lg_objects := lg_objects ?s - 1\<rparr>))"
      "logs_to sb (lg_fs ?s) (h @ log_prefix w @ ?u) fs"
      by (rule dump_logs [OF w u hs h(3) io])
    then show ?thesis using unavailable fit(1) [OF u(2)] fit(2) [of "[]"]
      by (simp add: do_log_work_def r line_of_def buffer_lost_def free_log_input_def Let_def)
  next
    case fails
    then show ?thesis using none fit(2) [of "[]"]
      by (auto simp: do_log_work_def r line_of_def buffer_lost_def free_log_input_def hash_fails_def Let_def)
  next
    case line
    let ?s = "s\<lparr>lg_objects := lg_objects s + 1\<rparr>"
    have hs: "mounted (lg_fs ?s) \<longrightarrow> holds_log sb (lg_fs ?s) h" "\<not> log_file_mutex (lg_fs ?s)" using h by simp_all
    obtain fs where "dump_log W (log_prefix w @ ?d) ?s =
        Inr (free_log_input (?s\<lparr>lg_fs := fs, lg_objects := lg_objects ?s - 1\<rparr>))"
      "logs_to sb (lg_fs ?s) (h @ log_prefix w @ ?d) fs"
      by (rule dump_logs [OF w NUL_decompress_hash d hs h(3) io])
    then show ?thesis using line fit(1) [OF d] fit(2) [of "[]"]
      by (simp add: do_log_work_def r line_of_def buffer_lost_def free_log_input_def hash_fails_def Let_def add.commute)
  qed
qed

lemma length_line_of: "work_ok w \<Longrightarrow> length (line_of W w) \<le> LOG_SIZE"
proof -
  assume w: "work_ok w"
  have "length (log_prefix w @ decompress_hash h) \<le> LOG_SIZE" for h
    using log_prefix_length [OF w] length_decompress_hash [of h] by (simp add: LOG_SIZE_def)
  then show ?thesis using log_prefix_length [OF w] by (auto simp: line_of_def LOG_SIZE_def Let_def split: prod.splits)
qed

text \<open>One lemma for each kind of event.\<close>

lemma matches_log:
  assumes "log_matches sb cap B z n s a"
  shows "log_holds sb cap (lg_fs s) a" "cap div 4096 + 2 < 2 ^ 31" "length (history a) + LOG_SIZE * n < B"
    "length (on_disk a) + LOG_SIZE * n < B" "B \<le> 2 ^ 62" "\<not> log_file_mutex (lg_fs s)" "\<not> sb_lock (lg_fs s)"
    "mounted (lg_fs s) = online a" "mounted (lg_fs s) \<longrightarrow> holds_log sb (lg_fs s) (history a)"
  using assms by (auto simp: log_matches_def log_holds_def)

lemma run_work_logs:
  assumes m: "log_matches sb cap B z (Suc n) s a" and io: "\<forall>n b. we_bread W n sb b"
  shows "\<exists>t. run_log_work W s = Inr t \<and> log_matches sb cap B z n t (fst (log_promise cap (Work W) a))"
proof (cases "pending a")
  case Nil
  with m show ?thesis by (auto simp: log_matches_def run_log_work_def)
next
  case (Cons w ws)
  let ?s = "s\<lparr>lg_queue := ws\<rparr>"
  note M = matches_log [OF m]
  have s: "mounted (lg_fs ?s) \<longrightarrow> holds_log sb (lg_fs ?s) (history a)" "\<not> log_file_mutex (lg_fs ?s)"
    "length (history a) + LOG_SIZE < 2 ^ 62" using M by auto
  have w: "work_ok w" using m by (auto simp: log_matches_def Cons)
  obtain t where t: "do_log_work W w ?s = Inr t" "logs_to sb (lg_fs ?s) (history a @ line_of W w) (lg_fs t)"
    "lg_queue t = lg_queue ?s" "lg_objects t = lg_objects ?s - 2 + int (buffer_lost W w)"
    "lg_module_refs t = lg_module_refs ?s - 1" "lg_tfms t = lg_tfms ?s" "lg_cred_refs t = lg_cred_refs ?s"
    "lg_path_refs t = lg_path_refs ?s"
    using do_log_work_logs [OF w s io] by (elim exE conjE) (rule that)
  let ?a = "a\<lparr>history := if online a then history a @ line_of W w else history a\<rparr>"
  have "log_holds sb cap (lg_fs t) ?a" by (rule log_holds_after [OF M(1)]) (use t(2) in simp)
  then have "log_holds sb cap (lg_fs t) (fst (log_promise cap (Work W) a))"
    by (cases "online a") (simp_all add: log_holds_def Cons)
  moreover have "length (line_of W w) \<le> LOG_SIZE" by (rule length_line_of [OF w])
  ultimately show ?thesis using m t(1,3-) by (auto simp: log_matches_def run_log_work_def Cons)
qed

lemma append_grants:
  assumes m: "log_matches sb cap B z (Suc n) s a" and ready: "event_ready sb B (Use A) a"
  shows "\<exists>t. log_append A s = Inr t \<and> log_matches sb cap B z n t (fst (log_promise cap (Use A) a))"
proof -
  have "case log_append A s of Inl e \<Rightarrow> False | Inr t \<Rightarrow> lg_fs t = lg_fs s \<and> lg_queue t = lg_queue s @ granted A \<and>
    lg_objects t = lg_objects s + 2 * int (length (granted A)) \<and>
    lg_module_refs t = lg_module_refs s + int (length (granted A)) \<and> lg_tfms t = lg_tfms s \<and>
    lg_cred_refs t = lg_cred_refs s + (if gets_memory A then 2 else 0) \<and>
    lg_path_refs t = lg_path_refs s + (if gets_memory A \<and> ae_d_path A = None then 1 else 0)"
    unfolding log_append_def granted_def work_of_def gets_memory_def Let_def
    by (cases "ae_module A"; cases "ae_work A"; cases "ae_fullpathname A"; cases "ae_mm A"; cases "ae_d_path A")
      (use ready in \<open>simp_all add: gets_memory_def\<close>)
  then obtain t where t: "log_append A s = Inr t" "lg_fs t = lg_fs s" "lg_queue t = lg_queue s @ granted A"
    "lg_objects t = lg_objects s + 2 * int (length (granted A))"
    "lg_module_refs t = lg_module_refs s + int (length (granted A))" "lg_tfms t = lg_tfms s"
    "lg_cred_refs t = lg_cred_refs s + (if gets_memory A then 2 else 0)"
    "lg_path_refs t = lg_path_refs s + (if gets_memory A \<and> ae_d_path A = None then 1 else 0)"
    by (cases "log_append A s") simp_all
  have "\<forall>w \<in> set (granted A). work_ok w" using ready by simp
  with t m have "log_matches sb cap B z n t (fst (log_promise cap (Use A) a))"
    by (auto simp: log_matches_def log_holds_def)
  with t(1) show ?thesis by blast
qed

lemma read_promised:
  assumes m: "log_matches sb cap B z (Suc n) s a" and ready: "event_ready sb B (Read_Log fuel io len off) a"
  shows "read_on fuel io sb len off (lg_fs s) = Inr (drop (max (unat off) (length (history a) - cap)) (history a))"
proof (rule read_on_rest [where sb = sb and io = io])
  note M = matches_log [OF m]
  have fs: "file_size (lg_fs s) = word_of_nat cap" "cap < 2 ^ 62" using M(1) ready by (simp_all add: log_holds_def)
  have "cap < 2 ^ LENGTH(64)" using fs(2) by simp
  then have cap: "unat (file_size (lg_fs s)) = cap" unfolding fs(1) by (simp only: unat_of_nat mod_less)
  show "holds_log sb (lg_fs s) (history a)" using M(8,9) ready by simp
  show "\<not> log_file_mutex (lg_fs s)" "unat (file_size (lg_fs s)) div 4096 + 2 < 2 ^ 31"
    "max (unat off) (length (history a) - cap) = max (unat off) (length (history a) - unat (file_size (lg_fs s)))"
    using M by (simp_all add: cap)
  have "length (history a) < B" "B \<le> fuel" using M(3) ready by auto
  then show "length (history a) - max (unat off) (length (history a) - cap) < fuel" by linarith
qed (use ready in simp_all)

lemma write_promised:
  assumes m: "log_matches sb cap B z (Suc n) s a" and ready: "event_ready sb B (Write_Log io buf len) a"
  shows "\<exists>fs off. logfilefs_write io buf len (lg_fs s) = Inr (fs, min len (length buf), off) \<and>
    log_matches sb cap B z n (s\<lparr>lg_fs := fs\<rparr>) (fst (log_promise cap (Write_Log io buf len) a))"
proof -
  note M = matches_log [OF m]
  have on: "online a" "len \<le> LOG_SIZE" and io: "\<forall>n b. io n sb b" using ready by simp_all
  have h: "holds_log sb (lg_fs s) (history a)" and mt: "mounted (lg_fs s)" using M(8,9) on by simp_all
  have small: "length (history a) + len < 2 ^ 62" using M(3,5) on(2) by simp
  have "cap < 2 ^ 62" "file_size (lg_fs s) = word_of_nat cap" using M(1) on by (simp_all add: log_holds_def)
  then have cap: "unat (file_size (lg_fs s)) = cap" by (simp add: unat_of_nat)
  obtain fs k z where w: "logfilefs_write io buf len (lg_fs s) = Inr (fs, k, word_of_nat (length (history a) + k))"
      "holds_log sb fs (wiped (unat (file_size (lg_fs s))) z (history a @ take k buf))"
      "\<not> log_file_mutex fs" "mounted fs = mounted (lg_fs s)" "file_size fs = file_size (lg_fs s)"
    and kz: "(\<forall>n k. k \<le> len \<longrightarrow> io n sb (next_sector (length (history a)) (unat (file_size (lg_fs s))) k)) \<longrightarrow>
      k = min len (length buf) \<and> z = next_chunk (length (history a)) (unat (file_size (lg_fs s))) len k"
    using user_write_appends_log [OF h M(6) small, of io buf] by blast
  have k: "k = min len (length buf)" "z = next_chunk (length (history a)) cap len k" using kz io by (simp_all add: cap)
  note run = w(1) [unfolded k(1)] and fs = w(2) [unfolded cap k(2), unfolded k(1)] w(3-5)
  have lock: "sb_lock fs = sb_lock (lg_fs s)" by (rule user_write_lock [OF h small run])
  have "take (min len (length buf)) buf = take len buf" by (simp add: min_def)
  then have "logs_to sb (lg_fs s) (written cap len buf (history a)) fs"
    using fs mt lock user_write_system [OF h small run] by (simp add: logs_to_def written_def)
  from log_holds_after [OF M(1) this]
  have "log_holds sb cap fs (a\<lparr>history := written cap len buf (history a)\<rparr>)" using on by simp
  with run m on(2) show ?thesis by (auto simp: log_matches_def length_written)
qed

lemma unmount_promised:
  assumes m: "log_matches sb cap B z (Suc n) s a" and ready: "event_ready sb B (Unmount io sync kill survive) a"
  shows "\<exists>fs. singlefilefs_kill_superblock io sync kill sb (lg_fs s) = Inr fs \<and>
    log_matches sb cap B z n (s\<lparr>lg_fs := fs\<rparr>) (fst (log_promise cap (Unmount io sync kill survive) a))"
proof -
  note M = matches_log [OF m]
  let ?fs = "lg_fs s"
  have on: "online a" and io: "io 0 sb 1" and sync: "same_buffers sync" "\<forall>d. disk (sync d) = disk d"
    and kill: "\<forall>d. disk (kill d) = disk d" "if survive then same_buffers kill else \<forall>d b. cache (kill d) b = None"
    using ready by simp_all
  have h: "holds_log sb ?fs (history a)" and sys: "system_blocks sb cap ?fs" "file_size ?fs = word_of_nat cap"
    "cap < 2 ^ 62" and st: "stored_log sb cap (without_cache sb ?fs) (on_disk a)"
    using M(1) on by (simp_all add: log_holds_def)
  let ?x = "set_field INODE_END (circular_buffer_end ?fs) (set_field INODE_START (circular_buffer_start ?fs) (b_data sb 1 ?fs))"
  define u where "u = on_device sb kill ((on_device sb sync (set_b_data sb 1 ?x (?fs\<lparr>sb_lock := True\<rparr>)))
    \<lparr>singleton_sb := None, mounted := False, sb_lock := False\<rparr>)"
  have k: "singlefilefs_kill_superblock io sync kill sb ?fs = Inr u"
    using M(7) io by (simp add: singlefilefs_kill_superblock_def Let_def u_def)
  have g: "\<not> mounted u" "\<not> sb_lock u" "log_file_mutex u = log_file_mutex ?fs" by (simp_all add: u_def)
  have d: "disk_of u sb = disk_of ?fs sb"
    using sync(2) kill(1) by (simp add: u_def disk_of_def on_device_def set_b_data_def)
  have st': "stored_log sb cap (without_cache sb u) (on_disk a)" using st stored_on_disk [OF d] by simp
  have "stored_log sb cap u (if survive then history a else on_disk a)"
  proof (cases survive)
    case True
    then have b: "b_data sb b u = (if b = 1 then ?x else b_data sb b ?fs)" for b
      using sync(1) kill(2) by (simp add: u_def)
    have l: "length (b_data sb 1 ?fs) = 4096" using sys(1) by (simp add: system_blocks_def)
    have f: "get_field INODE_FILE_SIZE ?x = word_of_nat cap" "get_field INODE_START ?x = circular_buffer_start ?fs"
      "get_field INODE_END ?x = circular_buffer_end ?fs" "length ?x = 4096"
      using sys(1) l by (simp_all add: get_set_field get_set_other system_blocks_def)
    have r: "ring_holds sb (unat (file_size ?fs)) u (history a)"
      by (rule ring_holds_blocks [of _ _ ?fs]) (use h b in \<open>auto simp: holds_log_def\<close>)
    have "ring_holds sb (unat (file_size ?fs)) (with_inode sb u) (history a)"
      using r ring_holds_same [of sb "with_inode sb u" u] by simp
    moreover have "file_size (with_inode sb u) = file_size ?fs" "singleton_sb (with_inode sb u) = Some sb"
      "circular_buffer_start (with_inode sb u) = circular_buffer_start ?fs"
      "circular_buffer_end (with_inode sb u) = circular_buffer_end ?fs"
      by (simp_all add: with_inode_def b f sys(2))
    ultimately have "holds_log sb (with_inode sb u) (history a)" using h by (simp add: holds_log_def)
    then show ?thesis using True sys(1) f by (simp add: stored_log_def system_blocks_def b)
  next
    case False
    then have "cache (devices u sb) b = None" for b using kill(2) by (simp add: u_def on_device_def)
    then have "b_data sb b u = disk_of u sb b" for b by (simp add: b_data_def buffer_of_def disk_of_def)
    then have "stored_log sb cap u = stored_log sb cap (without_cache sb u)" by (intro stored_log_same) simp
    with st' False show ?thesis by simp
  qed
  then have "log_holds sb cap u (a\<lparr>online := False, history := if survive then history a else on_disk a\<rparr>)"
    using g M(6) st' sys(3) by (simp add: log_holds_def)
  with k m show ?thesis by (auto simp: log_matches_def)
qed

lemma mount_promised:
  assumes m: "log_matches sb cap B z (Suc n) s a" and ready: "event_ready sb B (Mount io) a"
  shows "\<exists>fs. singlefilefs_fill_super io True True sb (lg_fs s) = Inr (fs, 0) \<and>
    log_matches sb cap B z n (s\<lparr>lg_fs := fs\<rparr>) (fst (log_promise cap (Mount io) a))"
proof -
  note M = matches_log [OF m]
  let ?fs = "lg_fs s"
  have off: "\<not> online a" and io: "\<forall>n b. b \<in> {0, 1} \<longrightarrow> io n sb b" using ready by simp_all
  have st: "stored_log sb cap ?fs (history a)" "stored_log sb cap (without_cache sb ?fs) (on_disk a)" "cap < 2 ^ 62"
    using M(1) off by (simp_all add: log_holds_def)
  define u where "u = with_inode sb ?fs\<lparr>mounted := True\<rparr>"
  have "singlefilefs_fill_super io True True sb ?fs = Inr (u\<lparr>sb_lock := False\<rparr>, 0)"
    using st(1) M(7,8) off io
    by (simp add: singlefilefs_fill_super_def stored_log_def system_blocks_def SB_BLOCK_NUMBER_def u_def with_inode_def Let_def)
  moreover have "u\<lparr>sb_lock := False\<rparr> = u" using M(7) by (simp add: u_def with_inode_def)
  ultimately have k: "singlefilefs_fill_super io True True sb ?fs = Inr (u, 0)" by simp
  have b: "b_data sb b u = b_data sb b ?fs" for b by (simp add: u_def b_data_def with_inode_def)
  have "stored_log sb cap (without_cache sb u) = stored_log sb cap (without_cache sb ?fs)"
    by (rule stored_on_disk) (simp add: u_def disk_of_def with_inode_def)
  moreover have "holds_log sb u (history a)"
  proof -
    have "ring_holds sb c u = ring_holds sb c (with_inode sb ?fs)" for c by (rule ring_holds_same) (simp add: b)
    then show ?thesis using st(1) by (simp add: stored_log_def holds_log_def u_def)
  qed
  moreover have "file_size u = word_of_nat cap" "system_blocks sb cap u"
    using st(1) by (simp_all add: stored_log_def system_blocks_def b) (simp add: u_def with_inode_def)
  moreover have "mounted u" "sb_lock u = sb_lock ?fs" "log_file_mutex u = log_file_mutex ?fs"
    by (simp_all add: u_def with_inode_def)
  ultimately have "log_holds sb cap u (a\<lparr>online := True\<rparr>)"
    using M(6,7) st(2,3) by (simp add: log_holds_def)
  with k m show ?thesis by (auto simp: log_matches_def)
qed

lemma event_step:
  assumes m: "log_matches sb cap B z (Suc n) s a" and ready: "event_ready sb B e a"
  shows "\<exists>s'. log_step sb e s = Inr (s', snd (log_promise cap e a)) \<and>
    log_matches sb cap B z n s' (fst (log_promise cap e a))"
proof (cases e)
  case (Use A)
  obtain t where "log_append A s = Inr t" "log_matches sb cap B z n t (fst (log_promise cap (Use A) a))"
    using append_grants [OF m ready [unfolded Use]] by blast
  then show ?thesis by (simp add: Use)
next
  case (Work W)
  obtain t where "run_log_work W s = Inr t" "log_matches sb cap B z n t (fst (log_promise cap (Work W) a))"
    using run_work_logs [OF m, of W] ready by (auto simp: Work)
  then show ?thesis by (simp add: Work split: list.split)
next
  case (Read_Log fuel io len off)
  have "log_matches sb cap B z n s a" using m by (simp add: log_matches_def)
  with read_promised [OF m ready [unfolded Read_Log]] show ?thesis by (simp add: Read_Log)
next
  case (Write_Log io buf len)
  from write_promised [OF m ready [unfolded Write_Log]] show ?thesis by (auto simp: Write_Log simp del: min_def)
next
  case (Unmount io sync kill survive)
  from unmount_promised [OF m ready [unfolded Unmount]] show ?thesis by (auto simp: Unmount)
next
  case (Mount io)
  from mount_promised [OF m ready [unfolded Mount]] show ?thesis by (auto simp: Mount)
qed

interpretation logger_device: simulation "log_step sb" "log_promise cap" "event_ready sb B"
  "log_matches sb cap B z" for sb cap B z
  by unfold_locales (rule event_step)

section \<open>Properties\<close>

text \<open>
  C33. Whatever programs use the logger, however the work queue, readers and writers of the log come in
  between, and whenever the log is unmounted and mounted: the queue holds the granted works in order, the
  log grows by the line of each work that finishes while it is mounted and by what is written, and readers
  see the end of that history. A program that hands over a buffer of which only a part can be read adds that
  part; the zeros the kernel leaves behind it take the place of the oldest bytes when the ring is full. It survives an unmount only in the buffers: without them the next mount
  finds the history the disk had at the beginning. Every pending work has two objects and keeps the module
  in memory, no transform stays, and beyond that the code holds exactly what it loses: two credentials for
  each use, the paths that could not be written, the buffers of files that could not be read.
\<close>

theorem logger_interleaving:
  assumes "log_matches sb cap B z (length es) s a" and "ready_all (log_promise cap) (event_ready sb B) es a"
  shows "let (a', rs) = promise_all (log_promise cap) es a in
    \<exists>t. run_all (log_step sb) es s = Inr (t, rs) \<and> lg_queue t = pending a' \<and>
    mounted (lg_fs t) = online a' \<and> (online a' \<longrightarrow> holds_log sb (lg_fs t) (history a')) \<and>
    \<not> log_file_mutex (lg_fs t) \<and> \<not> sb_lock (lg_fs t) \<and>
    lg_objects t = lg_objects z + 2 * int (length (pending a')) + int (lost_buffers a') \<and>
    lg_module_refs t = lg_module_refs z + int (length (pending a')) \<and> lg_tfms t = lg_tfms z \<and>
    lg_cred_refs t = lg_cred_refs z + int (lost_creds a') \<and> lg_path_refs t = lg_path_refs z + int (lost_paths a')"
proof -
  obtain a' rs where p: "promise_all (log_promise cap) es a = (a', rs)" by fastforce
  obtain t where "run_all (log_step sb) es s = Inr (t, rs)" "log_matches sb cap B z 0 t a'"
    using logger_device.runs [of sb cap B z es 0 s a] assms by (auto simp: p)
  with matches_log [of sb cap B z 0 t a'] show ?thesis by (auto simp: p log_matches_def)
qed

text \<open>
  A formatted device that is not mounted; a line is logged, the log unmounted and mounted again; a line
  in between is lost; after an unmount that drops the buffers the log is empty.
\<close>

definition demo_offline :: logger where
  "demo_offline = demo_logger\<lparr>lg_fs := demo_mounted\<lparr>mounted := False, singleton_sb := None\<rparr>\<rparr>"

definition demo_events :: "log_event list" where
  "demo_events =
     (let io = (\<lambda>_ _ _. True); drop_buffers = (\<lambda>d. d\<lparr>cache := (\<lambda>_. None)\<rparr>) in
      [Mount io, Use demo_append, Use (demo_append\<lparr>ae_module := False\<rparr>), Work demo_work_env,
       Use (demo_append\<lparr>ae_d_path := None\<rparr>), Use demo_append, Unmount io id id True, Work demo_work_env, Mount io,
       Write_Log io ''abc'' 5, Read_Log 100000 io 4096 0, Unmount io id drop_buffers False, Mount io,
       Read_Log 100000 io 4096 0])"

definition demo_spec :: log_spec where
  "demo_spec = \<lparr>pending = [], history = [], on_disk = [], online = False, lost_creds = 0, lost_paths = 0,
     lost_buffers = 0\<rparr>"

lemma demo_stored: "stored_log 7 8192 (lg_fs demo_offline) []" "stored_log 7 8192 (without_cache 7 (lg_fs demo_offline)) []"
proof -
  let ?i = "mkfs_inode 2 (replicate 12 NUL) @ replicate 4048 NUL"
  have start: "get_field INODE_START ?i = 0"
    using mkfs_fields(2) [where rsb = "replicate 4072 NUL" and rin = "replicate 12 NUL" and tail = "replicate 4048 NUL"
      and blocks = 2] by simp
  have b: "b_data 7 b (lg_fs demo_offline) = disk demo_device b" for b
    by (simp add: demo_offline_def b_data_def buffer_of_def demo_mounted_def demo_device_def)
  have len: "length (disk demo_device b) = 4096" for b using demo_fields(4,5) by (simp add: demo_device_def)
  have blocks: "disk demo_device 0 = mkfs_sb (replicate 4072 NUL)" "disk demo_device 1 = ?i"
    by (simp_all add: demo_device_def)
  note f = demo_fields(1-3)
  have fields: "file_size (with_inode 7 (lg_fs demo_offline)) = 8192"
    "circular_buffer_start (with_inode 7 (lg_fs demo_offline)) = 0"
    "circular_buffer_end (with_inode 7 (lg_fs demo_offline)) = 0"
    "singleton_sb (with_inode 7 (lg_fs demo_offline)) = Some 7"
    by (simp_all only: with_inode_def b blocks f start) simp_all
  have "holds_log 7 (with_inode 7 (lg_fs demo_offline)) []"
    by (simp add: holds_log_def ring_holds_def ring_ok_def contents_def fields b len)
  then show st: "stored_log 7 8192 (lg_fs demo_offline) []"
    using f demo_fields(5) by (simp add: stored_log_def system_blocks_def b blocks)
  have "b_data 7 b (without_cache 7 (lg_fs demo_offline)) = b_data 7 b (lg_fs demo_offline)" for b
    by (simp add: b) (simp add: demo_offline_def disk_of_def demo_mounted_def)
  then show "stored_log 7 8192 (without_cache 7 (lg_fs demo_offline)) []" using st stored_log_same by metis
qed

theorem logger_interleaving_witness:
  "\<exists>t. let l = log_prefix demo_work @ print_digits (replicate 64 2) @ [CHR 0x0a] in
     run_all (log_step 7) demo_events demo_offline = Inr (t, [(0, []), (0, []), (0, []), (0, []), (0, []), (0, []),
       (0, []), (0, []), (0, []), (3, []), (0, l @ ''abc''), (0, []), (0, []), (0, [])]) \<and>
     lg_queue t = [] \<and> mounted (lg_fs t) \<and> lg_objects t = 0 \<and> lg_module_refs t = 1 \<and> lg_cred_refs t = 6 \<and>
     lg_path_refs t = 1"
proof -
  let ?l = "log_prefix demo_work @ print_digits (replicate 64 2) @ [CHR 0x0a]"
  have fs: "\<not> log_file_mutex (lg_fs demo_offline)" "\<not> sb_lock (lg_fs demo_offline)" "\<not> mounted (lg_fs demo_offline)"
    by (simp_all add: demo_offline_def)
  have z: "lg_queue demo_offline = []" "lg_objects demo_offline = 0" "lg_module_refs demo_offline = 1"
    "lg_cred_refs demo_offline = 0" "lg_path_refs demo_offline = 0" by (simp_all add: demo_offline_def demo_logger_def)
  have m: "log_matches 7 8192 100000 demo_offline (length demo_events) demo_offline demo_spec"
    using demo_stored fs
    by (simp add: log_matches_def log_holds_def z demo_spec_def demo_events_def LOG_SIZE_def Let_def)
  have g: "granted demo_append = [demo_work]" "granted (demo_append\<lparr>ae_module := False\<rparr>) = []"
    "granted (demo_append\<lparr>ae_d_path := None\<rparr>) = []"
    by (simp_all add: granted_def gets_memory_def work_of_def demo_append_def demo_work_def)
  have l: "line_of demo_work_env demo_work = ?l" "buffer_lost demo_work_env demo_work = 0"
    by (simp_all add: line_of_def buffer_lost_def demo_work_env_def demo_crypto_def hash_fails_def decompress_hash_def)
  have d: "gets_memory demo_append" "\<not> gets_memory (demo_append\<lparr>ae_module := False\<rparr>)"
    "gets_memory (demo_append\<lparr>ae_d_path := None\<rparr>)" "ae_d_path demo_append \<noteq> None" "ae_mm demo_append"
    "ae_mm (demo_append\<lparr>ae_d_path := None\<rparr>)"
    by (simp_all add: demo_append_def gets_memory_def)
  have io: "\<forall>n b. we_bread demo_work_env n 7 b" by (simp add: demo_work_env_def)
  have same: "same_buffers id" by (simp add: same_buffers_def)
  have len: "length ?l + 3 - 8192 = 0" by (simp add: demo_prefix)
  have "next_chunk (length ?l) 8192 5 (min 5 (length ''abc'')) \<le> 2" by (simp add: next_chunk_def)
  then have wr: "written 8192 5 ''abc'' ?l = ?l @ ''abc''"
    unfolding written_def by (subst wiped_same) (use demo_prefix in simp_all)
  have p: "promise_all (log_promise 8192) demo_events demo_spec =
      (\<lparr>pending = [], history = [], on_disk = [], online = True, lost_creds = 6, lost_paths = 1, lost_buffers = 0\<rparr>,
       [(0, []), (0, []), (0, []), (0, []), (0, []), (0, []), (0, []), (0, []), (0, []), (3, []), (0, ?l @ ''abc''),
        (0, []), (0, []), (0, [])])"
    using len d wr by (simp add: demo_events_def demo_spec_def g l Let_def)
  have r: "ready_all (log_promise 8192) (event_ready 7 100000) demo_events demo_spec"
    using d demo_work_ok io same by (simp add: demo_events_def demo_spec_def g LOG_SIZE_def Let_def)
  from logger_interleaving [OF m r] show ?thesis by (auto simp: p z Let_def simp del: run_all.simps)
qed

end
