(* ===== verification/Syscall_Table.thy ===== *)
theory Syscall_Table
  imports KLRM_Prelude
begin

text \<open>
  The part of the module that would hook system calls: \<open>lib/scth/scth.c\<close> finds entries of the system
  call table that can be taken, and lifts the write protection of the table; \<open>wrappers/wrappers.c\<close>
  puts the wrapper of \<open>open\<close> into the table and takes it out. At this commit the module does not call
  \<open>setup_wrappers\<close>; the functions are modelled as they are. The wrapper does not call the handler that
  \<open>setup_wrappers\<close> keeps, but what the global \<open>do_sys_open_addr\<close> points to, which no code assigns.
\<close>

section \<open>Entries that can be taken\<close>

definition MAX_ACQUIRES :: int where "MAX_ACQUIRES = 4"

text \<open>
  \<open>restore\<close> is the list of the entries taken so far: \<open>j\<close> is its last index and \<open>ret\<close> its length.
\<close>

definition acquire :: "int \<Rightarrow> nat \<Rightarrow> nat list \<Rightarrow> nat list" where
  "acquire num k restore = (if int (length restore) - 1 < num - 1 then restore @ [k] else restore)"

fun acquire_rest :: "64 word list \<Rightarrow> int \<Rightarrow> nat \<Rightarrow> nat list \<Rightarrow> nat list \<Rightarrow> nat list" where
  "acquire_rest p num i [] restore = restore"
| "acquire_rest p num i (k # ks) restore =
     (if \<not> int (length restore) - 1 < num - 1 then restore
      else acquire_rest p num i ks (if p ! i = p ! k then restore @ [k] else restore))"

text \<open>The loop over \<open>z\<close>, up to the first entry equal to entry \<open>i\<close>, and what is left of it.\<close>

fun same_later :: "64 word list \<Rightarrow> nat \<Rightarrow> nat list \<Rightarrow> (nat \<times> nat list) option" where
  "same_later p i [] = None"
| "same_later p i (z # zs) = (if p ! i = p ! z then Some (z, zs) else same_later p i zs)"

fun search_entries :: "64 word list \<Rightarrow> int \<Rightarrow> nat list \<Rightarrow> (nat list \<times> 64 word) option" where
  "search_entries p num [] = None"
| "search_entries p num (i # is) =
     (case same_later p i [Suc i..<256] of
        None \<Rightarrow> search_entries p num is
      | Some (z, rest) \<Rightarrow>
          let restore = acquire num z (acquire num i []);
              restore = acquire_rest p num i rest restore in
          if int (length restore) = num then Some (restore, p ! i) else None)"

text \<open>The result, and what is written to \<open>entry_ids\<close> and \<open>sys_ni_sys_call\<close>.\<close>

definition get_entries :: "int \<Rightarrow> 64 word list \<Rightarrow> (int \<times> (nat list \<times> 64 word) option) outcome" where
  "get_entries num_acquires p =
     (if num_acquires < 1 then Inr (-1, None)
      else if MAX_ACQUIRES < num_acquires then Inr (-1, None)
      else if length p < 256 then Inl Bad_Access
      else (case search_entries p num_acquires [0..<256] of
              None \<Rightarrow> Inr (-1, None)
            | Some (restore, addr) \<Rightarrow> Inr (int (length restore), Some (restore, addr))))"

section \<open>The write protection\<close>

definition X86_CR0_WP :: "64 word" where "X86_CR0_WP = 0x00010000"

text \<open>
  The register, the global that keeps its value, the table, the address of the table, the global that
  keeps the original handler of \<open>open\<close>, the function pointer the wrapper calls through.
\<close>

record syscalls =
  cr0_register :: "64 word"
  cr0 :: "64 word"
  the_syscall_table :: "64 word"
  table :: "64 word list"
  original_open_addr :: "64 word"
  do_sys_open_addr :: "64 word"

definition protect_memory :: "syscalls \<Rightarrow> syscalls" where
  "protect_memory s = s\<lparr>cr0_register := cr0 s\<rparr>"

definition unprotect_memory :: "syscalls \<Rightarrow> syscalls" where
  "unprotect_memory s =
     (let s = s\<lparr>cr0 := cr0_register s\<rparr> in s\<lparr>cr0_register := cr0 s AND NOT X86_CR0_WP\<rparr>)"

section \<open>Installing and removing the wrapper\<close>

definition OPEN_IDX :: nat where "OPEN_IDX = 2"

text \<open>
  \<open>__sync_val_compare_and_swap\<close> on an entry, with the value that was read before as the expected one.
  The processor faults on a write to the table while the protection is on.
\<close>

definition swap_entry :: "64 word \<Rightarrow> 64 word \<Rightarrow> syscalls \<Rightarrow> (syscalls \<times> 64 word) outcome" where
  "swap_entry expected new s =
     (if \<not> OPEN_IDX < length (table s) \<or> cr0_register s AND X86_CR0_WP \<noteq> 0 then Inl Bad_Access
      else if table s ! OPEN_IDX = expected
      then Inr (s\<lparr>table := (table s)[OPEN_IDX := new]\<rparr>, table s ! OPEN_IDX)
      else Inr (s, table s ! OPEN_IDX))"

definition setup_wrappers :: "64 word \<Rightarrow> syscalls \<Rightarrow> (syscalls \<times> int) outcome" where
  "setup_wrappers sys_klrm_open s =
     (if the_syscall_table s = 0 then Inr (s, -1)
      else
        let s = unprotect_memory s in
        bind_out (swap_entry (table s ! OPEN_IDX) sys_klrm_open s) (\<lambda>(s, old).
          Inr (protect_memory (s\<lparr>original_open_addr := old\<rparr>), 0)))"

definition cleanup_wrappers :: "syscalls \<Rightarrow> syscalls outcome" where
  "cleanup_wrappers s =
     (let s = unprotect_memory s in
      bind_out (swap_entry (table s ! OPEN_IDX) (original_open_addr s) s) (\<lambda>(s, old).
        Inr (protect_memory (s\<lparr>original_open_addr := old\<rparr>))))"

section \<open>The wrapper\<close>

text \<open>
  What a wrapped call does: it calls a function with the flags, or it is refused. The function is the one
  \<open>do_sys_open_addr\<close> points to; a call through the null pointer faults. The other arguments of the
  model are the results of the allocation, of the copy of the path and of the check; the second test
  of the macro is on the constant 1.
\<close>

datatype wrapped = Invoke "64 word" "32 word" | Refuse int

definition O_WRONLY :: "32 word" where "O_WRONLY = 1"
definition O_RDWR :: "32 word" where "O_RDWR = 2"
definition O_APPEND :: "32 word" where "O_APPEND = 0x400"
definition O_LARGEFILE :: "32 word" where "O_LARGEFILE = 0x8000"

definition wrap_open :: "bool \<Rightarrow> bool \<Rightarrow> bool \<Rightarrow> int \<Rightarrow> 32 word \<Rightarrow> syscalls \<Rightarrow> wrapped outcome" where
  "wrap_open force_o_largefile allocated copied check flags s =
     (let invocation =
            (if do_sys_open_addr s = 0 then Inl Bad_Access
             else Inr (Invoke (do_sys_open_addr s) (if force_o_largefile then flags OR O_LARGEFILE else flags)));
          write_open_check = (flags AND O_RDWR \<noteq> 0 \<or> flags AND O_WRONLY \<noteq> 0 \<or> flags AND O_APPEND \<noteq> 0) in
      if \<not> write_open_check then invocation
      else if (1 :: int) \<noteq> 0 then invocation
      else if \<not> allocated then Inr (Refuse (- EACCES))
      else if \<not> copied then Inr (Refuse (- EACCES))
      else if check \<noteq> 0 then Inr (Refuse (- EACCES))
      else invocation)"

section \<open>Lemmas\<close>

lemma acquire_rest_take:
  "int (length r) \<le> int n \<Longrightarrow>
   acquire_rest p (int n) i ks r = r @ take (n - length r) (filter (\<lambda>k. p ! k = p ! i) ks)"
proof (induction ks arbitrary: r)
  case (Cons k ks)
  show ?case
  proof (cases "length r < n")
    case True
    then obtain m where "n - length r = Suc m" by (metis Suc_diff_Suc)
    moreover from this have "n - Suc (length r) = m" by simp
    ultimately show ?thesis using True Cons.IH [of "r @ [k]"] Cons.IH [of r] by auto
  qed (use Cons.prems in auto)
qed simp

lemma same_later_Some:
  "same_later p i zs = Some (z, rest) \<Longrightarrow> filter (\<lambda>k. p ! k = p ! i) zs = z # filter (\<lambda>k. p ! k = p ! i) rest"
  by (induction zs) (auto split: if_splits)

lemma same_later_None: "same_later p i zs = None \<longleftrightarrow> (\<forall>z \<in> set zs. p ! z \<noteq> p ! i)"
  by (induction zs) auto

text \<open>The reference: the first entry whose address comes again, and all the entries with that address.\<close>

definition shared :: "64 word list \<Rightarrow> nat \<Rightarrow> bool" where
  "shared p i = (\<exists>z \<in> {Suc i..<256}. p ! z = p ! i)"

definition shared_entries :: "64 word list \<Rightarrow> (nat \<times> nat list) option" where
  "shared_entries p =
     (case filter (shared p) [0..<256] of
        [] \<Rightarrow> None | i # _ \<Rightarrow> Some (i, filter (\<lambda>k. p ! k = p ! i) [0..<256]))"

lemma search_entries_reference:
  assumes "1 \<le> n"
  shows "search_entries p (int n) is =
    (case filter (shared p) is of [] \<Rightarrow> None
     | i # _ \<Rightarrow> (let r = take n (i # filter (\<lambda>k. p ! k = p ! i) [Suc i..<256]) in
         if length r = n then Some (r, p ! i) else None))"
proof (induction "is")
  case (Cons i "is")
  show ?case
  proof (cases "same_later p i [Suc i..<256]")
    case None
    then have "\<not> shared p i" by (auto simp: shared_def same_later_None)
    with None Cons.IH show ?thesis by simp
  next
    case (Some zr)
    obtain z rest where zr: "zr = (z, rest)" by (metis surj_pair)
    have f: "filter (\<lambda>k. p ! k = p ! i) [Suc i..<256] = z # filter (\<lambda>k. p ! k = p ! i) rest"
      using same_later_Some Some zr by blast
    then have "z \<in> set (filter (\<lambda>k. p ! k = p ! i) [Suc i..<256])" by simp
    then have sh: "shared p i" by (auto simp: shared_def)
    let ?r = "acquire (int n) z (acquire (int n) i [])"
    have r: "?r = take n [i, z]" using assms by (cases n rule: nat.exhaust; cases "n - 1") (auto simp: acquire_def)
    then have "acquire_rest p (int n) i rest ?r = take n (i # z # filter (\<lambda>k. p ! k = p ! i) rest)"
      using assms by (subst acquire_rest_take) (auto simp: take_Cons' min_def)
    with Some zr sh f show ?thesis by (simp add: Let_def)
  qed
qed simp


lemma first_shared:
  assumes "filter (shared p) [0..<256] = i # is"
  shows "filter (\<lambda>k. p ! k = p ! i) [0..<256] = i # filter (\<lambda>k. p ! k = p ! i) [Suc i..<256]"
proof -
  obtain us vs where split: "[0..<256] = us @ i # vs" and us: "\<forall>u \<in> set us. \<not> shared p u" and sh: "shared p i"
    using assms by (auto simp: filter_eq_Cons_iff)
  have i: "i < 256" using split by (metis append_Cons in_set_conv_decomp atLeastLessThan_iff set_upt)
  have cat: "[0..<256] = [0..<i] @ i # [Suc i..<256]"
    using i by (metis append_Cons append_Nil upt_add_eq_append upt_rec zero_le le_add_diff_inverse less_imp_le)
  have "us = [0..<i]"
    using split cat distinct_upt [of 0 256] i
    by (metis append_Cons_eq_iff distinct_append not_distinct_conv_prefix set_upt atLeastLessThan_iff less_irrefl
        disjoint_iff distinct.simps(2) Un_iff set_append)
  then have "p ! k \<noteq> p ! i" if "k < i" for k
  proof -
    have "\<not> shared p k" using us that \<open>us = [0..<i]\<close> by simp
    moreover have "i \<in> {Suc k..<256}" using that i by simp
    ultimately show ?thesis unfolding shared_def by metis
  qed
  then have "filter (\<lambda>k. p ! k = p ! i) [0..<i] = []" by (simp add: filter_empty_conv)
  then show ?thesis by (subst cat) simp
qed

section \<open>Properties\<close>

text \<open>
  C35. The search for entries answers as the reference does: it looks at the first entry of the table whose
  address comes again, and succeeds exactly when that address has the number of entries that is asked
  for, with the first of them in order.
\<close>

theorem get_entries_reference:
  assumes "256 \<le> length p" and "1 \<le> n" and "n \<le> 4"
  shows "get_entries (int n) p =
    Inr (case shared_entries p of None \<Rightarrow> (-1, None)
      | Some (i, es) \<Rightarrow> if n \<le> length es then (int n, Some (take n es, p ! i)) else (-1, None))"
proof (cases "filter (shared p) [0..<256]")
  case Nil
  then show ?thesis
    using assms by (simp add: get_entries_def MAX_ACQUIRES_def search_entries_reference shared_entries_def del: upt_rec_numeral)
next
  case (Cons i "is")
  show ?thesis
    using assms first_shared [OF Cons]
    by (auto simp: get_entries_def MAX_ACQUIRES_def search_entries_reference shared_entries_def Cons Let_def
        simp del: upt_rec_numeral)
qed


theorem get_entries_reference_witness:
  "get_entries 3 (map word_of_nat ([0..<100] @ [7, 7] @ replicate 154 99)) = Inr (3, Some ([7, 100, 101], 7))"
proof -
  let ?p = "map word_of_nat ([0..<100] @ [7, 7] @ replicate 154 99) :: 64 word list"
  have l: "256 \<le> length ?p" by simp
  have v: "unat (?p ! k) = (if k < 100 then k else if k < 102 then 7 else 99)" if "k < 256" for k
    using that by (auto simp: nth_append unat_of_nat nth_Cons' simp del: upt_rec_numeral)
  have same: "?p ! k = ?p ! j \<longleftrightarrow> (if k < 100 then k else if k < 102 then 7 else 99) =
      (if j < 100 then j else if j < 102 then 7 else 99)" if "k < 256" "j < 256" for k j
    unfolding word_unat_eq_iff v [OF that(1)] v [OF that(2)] by (rule refl)
  have none: "\<not> shared ?p i" if "i < 7" for i
    unfolding shared_def using that same [of _ i] by auto
  have "?p ! 100 = ?p ! 7" using same [of 100 7] by simp
  then have seven: "shared ?p 7" unfolding shared_def by (intro bexI [of _ 100]) simp_all
  have cut: "[0..<256] = [0..<7] @ 7 # [8..<256]"
    using upt_add_eq_append [of 0 7 249] upt_conv_Cons [of 7 256] by simp
  have "filter (shared ?p) [0..<7] = []" using none by (simp add: filter_empty_conv)
  then have f: "filter (shared ?p) [0..<256] = 7 # filter (shared ?p) [8..<256]"
    unfolding cut using seven by (simp only: filter_append filter.simps if_True append_Nil)
  have "filter (\<lambda>k. ?p ! k = ?p ! 7) [0..<256] = filter (\<lambda>k. k = 7 \<or> k = 100 \<or> k = 101) [0..<256]"
    by (rule filter_cong [OF refl]) (use same [of _ 7] in auto)
  also have "\<dots> = [7, 100, 101]" by code_simp
  finally have es: "shared_entries ?p = Some (7, [7, 100, 101])" by (simp only: shared_entries_def f list.case)
  have "?p ! 7 = 7" using v [of 7] by (simp only: word_unat_eq_iff) simp
  with get_entries_reference [OF l, of 3] show ?thesis unfolding es by simp
qed

text \<open>
  C36. Installing the wrapper of \<open>open\<close> and removing it again restores the table and the control
  register; in between exactly the entry of \<open>open\<close> is the wrapper and the protection of memory is back on.
  The wrapper never refuses a call, whatever the check would say of the path: it calls what
  \<open>do_sys_open_addr\<close> points to. Installing keeps the original handler in another global and leaves
  that pointer as it is, so with the null pointer of the loaded image every call of \<open>open\<close> that
  reaches the wrapper faults.
\<close>

theorem wrappers_roundtrip:
  assumes "the_syscall_table s \<noteq> 0" and "OPEN_IDX < length (table s)"
  shows "\<exists>t u. setup_wrappers w s = Inr (t, 0) \<and> table t = (table s)[OPEN_IDX := w] \<and>
    original_open_addr t = table s ! OPEN_IDX \<and> cr0_register t = cr0_register s \<and>
    (\<forall>large alloc copied check flags. wrap_open large alloc copied check flags t =
       (if do_sys_open_addr s = 0 then Inl Bad_Access
        else Inr (Invoke (do_sys_open_addr s) (if large then flags OR O_LARGEFILE else flags)))) \<and>
    cleanup_wrappers t = Inr u \<and> table u = table s \<and> cr0_register u = cr0_register s"
proof -
  have wp: "(x AND NOT X86_CR0_WP) AND X86_CR0_WP = 0" for x
    by (metis and.assoc and.commute bit.conj_cancel_right and_zero_eq)
  show ?thesis
    using assms
    by (simp add: setup_wrappers_def cleanup_wrappers_def swap_entry_def unprotect_memory_def protect_memory_def
        wp wrap_open_def Let_def)
qed

theorem wrappers_roundtrip_witness:
  "\<exists>t u. setup_wrappers 77 \<lparr>cr0_register = 0x80050033, cr0 = 0, the_syscall_table = 0xffffffff82000280,
       table = [10, 11, 12, 13], original_open_addr = 0, do_sys_open_addr = 0\<rparr> = Inr (t, 0) \<and>
     table t = [10, 11, 77, 13] \<and> original_open_addr t = 12 \<and>
     wrap_open True True True 0 O_RDWR t = Inl Bad_Access \<and>
     cleanup_wrappers t = Inr u \<and> table u = [10, 11, 12, 13]"
  using wrappers_roundtrip [of "\<lparr>cr0_register = 0x80050033, cr0 = 0, the_syscall_table = 0xffffffff82000280,
       table = [10, 11, 12, 13], original_open_addr = 0, do_sys_open_addr = 0\<rparr>" 77]
  by (auto simp: OPEN_IDX_def)

end
