(* ===== verification/Debug_Write.thy ===== *)
theory Debug_Write
  imports Logger Store_Iterate
begin

text \<open>
  The write function of the device of the monitor, \<open>dev_write\<close> of \<open>api/api.c\<close>, which the source
  marks as for debugging: it opens the path it is given, looks at everything directly below it, asks
  the oracle about the path and appends to the log. Printing apart, what it does is take and give back
  references, locks and memory.
\<close>

section \<open>The function\<close>

text \<open>
  What the kernel answers: the file system, the memory, the dentry that \<open>filp_open\<close> opens with
  \<open>O_PATH\<close>, and what the logger finds.
\<close>

record dev_write_env =
  dw_fs :: vfs
  dw_mem :: memory
  dw_filp_open :: "string \<Rightarrow> dentry option"
  dw_append :: append_env

record dev_write_state =
  ds_held :: held
  ds_files :: int
  ds_logger :: logger

text \<open>
  A symbolic link below the path. A failed allocation is NULL, which the test for error pointers lets
  pass; \<open>resolved\<close> is uninitialised when \<open>kern_path\<close> fails. Nothing puts the path back that
  \<open>kern_path\<close> gave.
\<close>

definition show_link :: "memory \<Rightarrow> vfs \<Rightarrow> dentry \<Rightarrow> held \<Rightarrow> held outcome" where
  "show_link mem fs cur k =
     (let (k, link) = kmalloc mem k in
      if \<not> link then Inl Bad_Access
      else
        (case dentry_path_raw fs cur 8192 of
           None \<Rightarrow> Inr (kfree k)
         | Some pth \<Rightarrow>
             (case kern_path fs pth True of
                None \<Rightarrow> Inl Bad_Access
              | Some resolved \<Rightarrow>
                  let k = dget resolved (path_get resolved k) in
                  (case d_inode fs resolved of
                     None \<Rightarrow> Inl Bad_Access
                   | Some key \<Rightarrow>
                       Inr (kfree (dput resolved (inode_unlock_shared key (inode_lock_shared key k))))))))"

text \<open>The loop over the children; a negative one is left with \<open>continue\<close>, before its reference is put.\<close>

fun show_children :: "memory \<Rightarrow> vfs \<Rightarrow> dentry list \<Rightarrow> held \<Rightarrow> held outcome" where
  "show_children mem fs [] k = Inr k"
| "show_children mem fs (cur # subdirs) k =
     (let k = dget cur k in
      case d_inode fs cur of
        None \<Rightarrow> show_children mem fs subdirs k
      | Some _ \<Rightarrow>
          bind_out (if d_is_symlink fs cur then show_link mem fs cur k else Inr k) (\<lambda>k.
            show_children mem fs subdirs (dput cur k)))"

text \<open>
  \<open>udata\<close> is what can be read from the pointer of user space on. The file that could not be opened is
  an error pointer, and is followed.
\<close>

definition dev_write ::
  "dev_write_env \<Rightarrow> char list \<Rightarrow> 64 word \<Rightarrow> dev_write_state \<Rightarrow> (dev_write_state \<times> int) outcome" where
  "dev_write E udata udata_len s =
     (let len = (if udata_len < 127 then unat udata_len else 127) in
      if length udata < len then Inr (s, - EIO)
      else
        let write_buffer = take len udata @ replicate (128 - len) NUL in
        (case dw_filp_open E (c_str write_buffer) of
           None \<Rightarrow> Inl Bad_Access
         | Some dir \<Rightarrow>
             let s = s\<lparr>ds_files := ds_files s + 1\<rparr>;
                 k = path_get dir (ds_held s) in
             (case d_inode (dw_fs E) dir of
                None \<Rightarrow> Inl Bad_Access
              | Some key \<Rightarrow>
                  let k = umount_down_read (fst key) (inode_lock_shared key k) in
                  bind_out (show_children (dw_mem E) (dw_fs E) (d_subdirs (dw_fs E) dir) k) (\<lambda>k.
                    let k = path_put dir (inode_unlock_shared key (umount_up_read (fst key) k));
                        s = s\<lparr>ds_files := ds_files s - 1\<rparr>;
                        (k, decree) = pathname_oracle (dw_mem E) (dw_fs E) (c_str write_buffer) k;
                        s = s\<lparr>ds_held := kfree_if (decree \<noteq> None) k\<rparr> in
                    bind_out (log_append (dw_append E) (ds_logger s)) (\<lambda>lg.
                      Inr (s\<lparr>ds_logger := lg\<rparr>, sint udata_len))))))"

section \<open>What the loop leaves behind\<close>

text \<open>The children without an inode, and the targets of those that are symbolic links.\<close>

definition negatives :: "vfs \<Rightarrow> dentry list \<Rightarrow> dentry list" where
  "negatives fs cs = filter (\<lambda>c. d_inode fs c = None) cs"

definition link_target :: "vfs \<Rightarrow> dentry \<Rightarrow> dentry option" where
  "link_target fs c =
     (if d_inode fs c \<noteq> None \<and> d_is_symlink fs c
      then Option.bind (dentry_path_raw fs c 8192) (\<lambda>pth. kern_path fs pth True) else None)"

definition targets :: "vfs \<Rightarrow> dentry list \<Rightarrow> dentry list" where
  "targets fs cs = List.map_filter (link_target fs) cs"

text \<open>No link below the path dangles.\<close>

definition links_resolve :: "vfs \<Rightarrow> dentry list \<Rightarrow> bool" where
  "links_resolve fs cs =
     (\<forall>c \<in> set cs. d_inode fs c \<noteq> None \<and> d_is_symlink fs c \<and> dentry_path_raw fs c 8192 \<noteq> None \<longrightarrow>
        (\<exists>t key. link_target fs c = Some t \<and> d_inode fs t = Some key))"

definition same_locks :: "held \<Rightarrow> held \<Rightarrow> bool" where
  "same_locks k k' =
     (inode_readers k' = inode_readers k \<and> umount_readers k' = umount_readers k \<and> objects k' = objects k)"

lemma show_link_leaves:
  assumes "\<forall>n. mem n \<noteq> None" and "d_inode fs c \<noteq> None" and "d_is_symlink fs c" and "links_resolve fs [c]"
  shows "\<exists>k'. show_link mem fs c k = Inr k' \<and> same_locks k k' \<and> dentry_refs k' = dentry_refs k \<and>
    path_refs k' = (\<lambda>d. path_refs k d + int (count_list (targets fs [c]) d))"
proof -
  have m: "kmalloc mem k = (k\<lparr>kclock := Suc (kclock k), objects := objects k + 1\<rparr>, True)"
    using assms(1) by (auto simp: kmalloc_def split: option.splits)
  show ?thesis
  proof (cases "dentry_path_raw fs c 8192")
    case None
    then show ?thesis
      by (simp add: show_link_def m held_ops same_locks_def targets_def map_filter_simps link_target_def)
  next
    case (Some pth)
    with assms(2-4) obtain t key where t: "kern_path fs pth True = Some t" "d_inode fs t = Some key"
      by (auto simp: links_resolve_def link_target_def)
    with Some assms(2,3) show ?thesis
      by (auto simp: show_link_def m held_ops same_locks_def targets_def map_filter_simps link_target_def fun_eq_iff)
  qed
qed

lemma same_locks_trans: "same_locks j k \<Longrightarrow> same_locks k l \<Longrightarrow> same_locks j l"
  by (simp add: same_locks_def)

lemma show_children_leaves:
  assumes "\<forall>n. mem n \<noteq> None" and "links_resolve fs cs"
  shows "\<exists>k'. show_children mem fs cs k = Inr k' \<and> same_locks k k' \<and>
    dentry_refs k' = (\<lambda>d. dentry_refs k d + int (count_list (negatives fs cs) d)) \<and>
    path_refs k' = (\<lambda>d. path_refs k d + int (count_list (targets fs cs) d))"
  using assms(2)
proof (induction cs arbitrary: k)
  case Nil
  then show ?case by (simp add: same_locks_def negatives_def targets_def map_filter_simps)
next
  case (Cons c cs)
  have l: "links_resolve fs cs" "links_resolve fs [c]" using Cons.prems by (auto simp: links_resolve_def)
  have tc: "targets fs (c # cs) = targets fs [c] @ targets fs cs"
    by (simp add: targets_def map_filter_simps split: option.split)
  consider (neg) "d_inode fs c = None" | (link) "d_inode fs c \<noteq> None" "d_is_symlink fs c"
    | (plain) "d_inode fs c \<noteq> None" "\<not> d_is_symlink fs c" by blast
  then show ?case
  proof cases
    case neg
    then have "targets fs [c] = []" by (simp add: targets_def map_filter_simps link_target_def)
    with Cons.IH [OF l(1), of "dget c k"] neg show ?thesis
      unfolding tc by (auto simp: negatives_def same_locks_def dget_def fun_eq_iff)
  next
    case link
    obtain k1 where k1: "show_link mem fs c (dget c k) = Inr k1" "same_locks (dget c k) k1"
      "dentry_refs k1 = dentry_refs (dget c k)"
      "path_refs k1 = (\<lambda>d. path_refs (dget c k) d + int (count_list (targets fs [c]) d))"
      using show_link_leaves [OF assms(1) link l(2)] by blast
    have "dput c k1 = k1\<lparr>dentry_refs := dentry_refs k\<rparr>" using k1(3) by (simp add: dput_def dget_def)
    with Cons.IH [OF l(1), of "k1\<lparr>dentry_refs := dentry_refs k\<rparr>"] link k1 show ?thesis
      unfolding tc by (auto simp: negatives_def same_locks_def dget_def fun_eq_iff)
  next
    case plain
    then have "targets fs [c] = []" by (simp add: targets_def map_filter_simps link_target_def)
    with Cons.IH [OF l(1), of "dput c (dget c k)"] plain show ?thesis
      unfolding tc by (auto simp: negatives_def same_locks_def dget_def dput_def fun_eq_iff)
  qed
qed

lemma c_str_padded: "c_str (xs @ NUL # ys) = c_str xs"
  by (induction xs) (simp_all add: c_str_def)

section \<open>Properties\<close>

text \<open>
  C40. Writing to the device a path that can be opened, with no dangling link below it, gives back the
  file, the locks and the memory, hands one use to the logger and reports the whole length. But each
  child without an inode keeps a reference, the target of each symbolic link is kept for ever by its
  path, and so is what the path itself resolves to. A path that cannot be opened is a fault: the
  result of \<open>filp_open\<close> is not tested.
\<close>

theorem dev_write_leaks:
  assumes "path = c_str (take (min (unat n) 127) udata)" and "min (unat n) 127 \<le> length udata"
    and "log_append (dw_append E) (ds_logger s) = Inr lg"
  shows "(\<forall>dir key decree. dw_filp_open E path = Some dir \<and> d_inode (dw_fs E) dir = Some key \<and>
      resolve (dw_fs E) path = Some decree \<and> links_resolve (dw_fs E) (d_subdirs (dw_fs E) dir) \<and>
      (\<forall>n. dw_mem E n \<noteq> None) \<longrightarrow>
      (\<exists>t. dev_write E udata n s = Inr (t, sint n) \<and> ds_logger t = lg \<and> ds_files t = ds_files s \<and>
        same_locks (ds_held s) (ds_held t) \<and>
        (\<forall>d. dentry_refs (ds_held t) d = dentry_refs (ds_held s) d +
          int (count_list (negatives (dw_fs E) (d_subdirs (dw_fs E) dir)) d)) \<and>
        (\<forall>d. path_refs (ds_held t) d = path_refs (ds_held s) d +
          int (count_list (dentry_of decree # targets (dw_fs E) (d_subdirs (dw_fs E) dir)) d)))) \<and>
    (dw_filp_open E path = None \<longrightarrow> dev_write E udata n s = Inl Bad_Access)"
proof -
  define len where "len = (if n < 127 then unat n else 127)"
  have len: "len = min (unat n) 127" by (simp add: len_def word_less_nat_alt min_def)
  then have "128 - len = Suc (127 - len)" by arith
  then have "replicate (128 - len) NUL = NUL # replicate (127 - len) NUL" by (simp only: replicate_Suc)
  then have buf: "c_str (take len udata @ replicate (128 - len) NUL) = path"
    by (simp only: c_str_padded assms(1) len)
  have all: "\<not> length udata < len" using assms(2) unfolding len by linarith
  note run = dev_write_def [of E udata n s, folded len_def]
  show ?thesis
  proof (intro conjI allI impI)
    assume "dw_filp_open E path = None"
    then show "dev_write E udata n s = Inl Bad_Access"
      using all by (simp add: run Let_def buf)
  next
    fix dir key decree
    let ?cs = "d_subdirs (dw_fs E) dir"
    assume "dw_filp_open E path = Some dir \<and> d_inode (dw_fs E) dir = Some key \<and>
      resolve (dw_fs E) path = Some decree \<and> links_resolve (dw_fs E) ?cs \<and> (\<forall>n. dw_mem E n \<noteq> None)"
    then have d: "dw_filp_open E path = Some dir" "d_inode (dw_fs E) dir = Some key"
      "resolve (dw_fs E) path = Some decree" "links_resolve (dw_fs E) ?cs" "\<forall>n. dw_mem E n \<noteq> None"
      by blast+
    define k where "k = umount_down_read (fst key) (inode_lock_shared key (path_get dir (ds_held s)))"
    obtain k1 where k1: "show_children (dw_mem E) (dw_fs E) ?cs k = Inr k1" "same_locks k k1"
      "dentry_refs k1 = (\<lambda>d. dentry_refs k d + int (count_list (negatives (dw_fs E) ?cs) d))"
      "path_refs k1 = (\<lambda>d. path_refs k d + int (count_list (targets (dw_fs E) ?cs) d))"
      using show_children_leaves [OF d(5,4)] by blast
    define k2 where "k2 = path_put dir (inode_unlock_shared key (umount_up_read (fst key) k1))"
    obtain k3 answer where k3: "pathname_oracle (dw_mem E) (dw_fs E) path k2 = (k3, answer)" by fastforce
    have a: "answer = Some decree"
      using oracle_answer [of "dw_mem E" "dw_fs E" path k2] k3 d(3,5) by simp
    note h = oracle_held [OF k3]
    have "dev_write E udata n s = Inr (s\<lparr>ds_held := kfree k3, ds_logger := lg\<rparr>, sint n)"
      using d(1,2) assms(3) all k1(1) k3 a by (simp add: run Let_def buf k_def k2_def kfree_if_def)
    moreover have "same_locks (ds_held s) (kfree k3)"
      using h k1(2) by (simp add: a k2_def k_def same_locks_def held_ops)
    moreover have "dentry_refs (kfree k3) d = dentry_refs (ds_held s) d + int (count_list (negatives (dw_fs E) ?cs) d)" for d
      using h k1(3) by (simp add: a k2_def k_def held_ops)
    moreover have "path_refs (kfree k3) d = path_refs (ds_held s) d +
        int (count_list (dentry_of decree # targets (dw_fs E) ?cs) d)" for d
      using h k1(4) by (auto simp: a k2_def k_def held_ops)
    ultimately show "\<exists>t. dev_write E udata n s = Inr (t, sint n) \<and> ds_logger t = lg \<and> ds_files t = ds_files s \<and>
        same_locks (ds_held s) (ds_held t) \<and>
        (\<forall>d. dentry_refs (ds_held t) d = dentry_refs (ds_held s) d + int (count_list (negatives (dw_fs E) ?cs) d)) \<and>
        (\<forall>d. path_refs (ds_held t) d = path_refs (ds_held s) d +
          int (count_list (dentry_of decree # targets (dw_fs E) ?cs) d))" by auto
  qed
qed

text \<open>
  A directory 1 at /d, with a negative child 2, a file 3 and a symbolic link 4 whose own path is
  /d/l and which points to the file.
\<close>

definition demo_link_fs :: vfs where
  "demo_link_fs = \<lparr>kern_path = (\<lambda>p follow. if p = ''/d'' then Some 1 else if p = ''/d/l'' \<and> follow then Some 3 else None),
     d_inode = (\<lambda>d. if d = 1 \<or> d = 3 \<or> d = 4 then Some (8, word_of_nat d) else None), d_is_symlink = (\<lambda>d. d = 4),
     d_path = (\<lambda>d n. if d = 1 then Some ''/d'' else None), dentry_path_raw = (\<lambda>d n. if d = 4 then Some ''/d/l'' else None),
     d_subdirs = (\<lambda>d. if d = 1 then [2, 3, 4] else []), fd_path = (\<lambda>n. None)\<rparr>"

definition demo_write_env :: dev_write_env where
  "demo_write_env = \<lparr>dw_fs = demo_link_fs, dw_mem = zero_memory, dw_filp_open = (\<lambda>p. kern_path demo_link_fs p True),
     dw_append = demo_append\<rparr>"

theorem dev_write_leaks_witness:
  "\<exists>t. dev_write demo_write_env ''/d'' 2 \<lparr>ds_held = no_held, ds_files = 0, ds_logger = demo_logger\<rparr> = Inr (t, 2) \<and>
     same_locks no_held (ds_held t) \<and> dentry_refs (ds_held t) 2 = 1 \<and> dentry_refs (ds_held t) 3 = 0 \<and>
     path_refs (ds_held t) 1 = 1 \<and> path_refs (ds_held t) 3 = 1"
proof -
  let ?s = "\<lparr>ds_held = no_held, ds_files = 0, ds_logger = demo_logger\<rparr>" and ?decree =
    "\<lparr>decree_path = ''/d'', device = 8, inode = 1, dentry_of = 1\<rparr>"
  obtain lg where lg: "log_append (dw_append demo_write_env) (ds_logger ?s) = Inr lg"
    by (simp add: log_append_def demo_write_env_def demo_append_def demo_logger_def Let_def)
  have p: "''/d'' = c_str (take (min (unat (2 :: 64 word)) 127) ''/d'')" by (simp add: c_str_def)
  have l: "min (unat (2 :: 64 word)) 127 \<le> length ''/d''" by simp
  have r: "dw_filp_open demo_write_env ''/d'' = Some 1" "d_inode (dw_fs demo_write_env) 1 = Some (8, 1)"
    "resolve (dw_fs demo_write_env) ''/d'' = Some ?decree"
    "links_resolve (dw_fs demo_write_env) (d_subdirs (dw_fs demo_write_env) 1)" "\<forall>n. dw_mem demo_write_env n \<noteq> None"
    by (simp_all add: demo_write_env_def demo_link_fs_def resolve_def links_resolve_def link_target_def zero_memory_def)
  have c: "negatives (dw_fs demo_write_env) (d_subdirs (dw_fs demo_write_env) 1) = [2]"
    "targets (dw_fs demo_write_env) (d_subdirs (dw_fs demo_write_env) 1) = [3]"
    by (simp_all add: demo_write_env_def demo_link_fs_def negatives_def targets_def link_target_def map_filter_simps)
  from dev_write_leaks [OF p l lg] r have "\<exists>t. dev_write demo_write_env ''/d'' 2 ?s = Inr (t, sint (2 :: 64 word)) \<and>
      same_locks (ds_held ?s) (ds_held t) \<and>
      (\<forall>d. dentry_refs (ds_held t) d = dentry_refs (ds_held ?s) d + int (count_list [2] d)) \<and>
      (\<forall>d. path_refs (ds_held t) d = path_refs (ds_held ?s) d + int (count_list [dentry_of ?decree, 3] d))"
    unfolding c [symmetric] by blast
  then show ?thesis by (auto simp: no_held_def)
qed

end
