(* ===== verification/Spec2Isabelle.thy ===== *)
theory Spec2Isabelle
  imports Session Store_Threads Log_Session Syscall_Table Debug_Write
begin

text \<open>
  Verification development for SOAFileKLRM, a reference monitor for files in the form of a Linux kernel
  module, with the small file system it writes its log to and the two programs that go with it.

  The program. The module keeps a store of protected paths and of the inodes below them. Requests come
  as \<open>ioctl\<close> calls on its device (\<open>src/api/\<close>), each with a path and a password. A handler enters
  a section of the state machine (\<open>src/state_machine/\<close>), checks the password against the hash the
  module was configured with (\<open>src/password_setup/\<close>) and calls the store of paths
  (\<open>src/path_store/\<close>). The store asks an oracle for the canonical path and the inode
  (\<open>src/oracles/\<close>), keeps the path in a tree, and walks over the dentries below it to count their
  inodes into a registry. The write function of the device and the wrappers of system calls
  (\<open>src/wrappers/\<close>, on top of \<open>src/lib/scth/\<close>) are where programs are noticed; the logger
  (\<open>src/logger/\<close>) then schedules a work that hashes the file of the program and writes a line to the
  log, a ring of blocks (\<open>src/lib/logfs/\<close>). \<open>src/mod_main.c\<close> sets the parts up;
  \<open>src/user/client.c\<close> sends the requests and \<open>src/user/logfilemakefs.c\<close> formats the log.
\<close>

section \<open>The theories and the code\<close>

text \<open>
  \<^item> \<open>KLRM_Prelude\<close>: outcomes of kernel code (a value, or the fault that stops it: a wild access, a
    block on a lock, a loop that does not end, a division by zero), C strings, reader-writer locks, and the
    collections of rules about them.
  \<^item> \<open>State_Machine\<close>: \<open>state_machine/state_machine.c\<close>. The functions as the code runs them alone,
    and their interleaving as the step relation \<open>sm_step\<close> with a program counter per thread; the
    functions run alone are shown to be runs of the relation. Invariants by rule induction over
    \<open>sm_reachable\<close>. The locale \<open>guarded_section\<close> is the contract of an entry function with its exit,
    interpreted on both gates.
  \<^item> \<open>Path_Tokens\<close>: \<open>process_path\<close> of \<open>path_store/path_store.c\<close> on the buffer it overwrites,
    against splitting at the slashes.
  \<^item> \<open>Path_Tree\<close>, \<open>Path_Tree_Walk\<close>, \<open>Path_Tree_Ops\<close>: the tree of entries as a heap, its search, the
    loop that adds and the climb that frees; the invariant \<open>heap_ok\<close> and the map \<open>walk\<close> from
    component lists to entries.
  \<^item> \<open>Visit_Pass\<close>: the locale \<open>visit_pass\<close>, the contract between a worklist and what it visits, with
    the theorem that the worklist ends and has taken exactly what can be reached.
  \<^item> \<open>Inode_Store\<close>: \<open>path_store/inode_store.c\<close>, the tables per device and their rings of nodes, as a
    partial map \<open>node_of\<close>; it interprets \<open>visit_pass\<close>.
  \<^item> \<open>Oracle\<close>: \<open>oracles/pathname.c\<close> and \<open>oracles/probe.c\<close>.
  \<^item> \<open>Store_Iterate\<close>: \<open>path_store/store_iterate.c\<close>, both walks over dentries with their stacks.
  \<^item> \<open>Path_Store\<close>: \<open>path_store/path_store.c\<close>, the functions over the whole state of the file, what they
    do up to the lock (\<open>path_store_add\<close> and so on) and behind it (\<open>locked_add\<close> and so on).
    The specification is \<open>protected_paths\<close>, a set of lists of components, and \<open>registered\<close>, a set of
    inodes; \<open>classify\<close> says what a check answers.
  \<^item> \<open>Store_Threads\<close>: requests of several threads in \<open>path_store.c\<close>, each in two steps, up to the
    lock and behind it, with the global \<open>argIdxs\<close> between them. The specification \<open>shared_spec\<close> keeps the array: a
    call works on the path that the array reads in its buffer. It is a \<open>simulation\<close> over any schedule.
  \<^item> \<open>Password\<close>: \<open>password_setup/password_setup.c\<close>.
  \<^item> \<open>Klrm_Ioctl\<close>: \<open>api/ioctl.c\<close> and \<open>dev_ioctl\<close> of \<open>api/api.c\<close>, over the record \<open>klrm\<close> of the
    state machine, the store, the password and the argument objects.
  \<^item> \<open>Debug_Write\<close>: \<open>dev_write\<close> of \<open>api/api.c\<close>.
  \<^item> \<open>Log_Ring\<close>: \<open>lib/logfs/file.c\<close>, reading and writing the ring. The specification is the history of
    the log, a string; \<open>holds_log\<close> relates both, and \<open>wiped\<close> is a history after the zeros of a
    copy from user space that stopped early ran over the oldest bytes of a full ring. The locale \<open>chunk_ring\<close> proves the writing loop once
    for any store of bytes; it is interpreted on the blocks of the device.
  \<^item> \<open>Log_Mount\<close>: \<open>lib/logfs/logfilefs_src.c\<close>, \<open>lib/logfs/dir.c\<close>, the lookup of
    \<open>lib/logfs/file.c\<close> and \<open>user/logfilemakefs.c\<close>, with the structures on the disk read and written
    byte by byte.
  \<^item> \<open>Logger\<close>: \<open>logger/logger.c\<close>.
  \<^item> \<open>Syscall_Table\<close>: \<open>lib/scth/scth.c\<close> and \<open>wrappers/wrappers.c\<close>, with the function pointer
    \<open>do_sys_open_addr\<close> the wrapper calls through as part of the state; nothing under \<open>src/\<close> assigns it.
  \<^item> \<open>Client\<close>: \<open>user/client.c\<close>.
  \<^item> \<open>Klrm_Module\<close>: \<open>mod_main.c\<close>, with the setup and cleanup functions of the parts.
  \<^item> \<open>Request_Runs\<close>: the locale \<open>simulation\<close>, a component that answers requests as a specification
    promises, with resources for a number of requests and a condition on each in the promised state, and
    the theorem about sequences of requests.
  \<^item> \<open>Session\<close>: the device as a \<open>simulation\<close> of the record \<open>device_spec\<close>, two sets, two toggles and
    what is lost, for every kind of request; the life of the module from loading to unloading, and a command
    from the terminal to the store.
  \<^item> \<open>Log_Session\<close>: the logger and the log as a \<open>simulation\<close> of a queue and a history, over any
    interleaving of uses, works, readers, writers, unmounts and mounts; what the disk keeps is part of it.
\<close>

section \<open>What the lemmas show\<close>

text \<open>
  Well-formedness: \<open>heap_ok\<close> and \<open>store_ok\<close> for the store and \<open>ring_ok\<close> for the log are
  kept by every operation on the paths the properties name. Functional behaviour: every handler and
  every function of the stores has its result, its effect on the specification, and the locks, references
  and objects it holds afterwards, on its success and its error paths. Termination: where a loop or a walk
  has fuel, the theorems say that the fuel is enough and the function returns. Refinement: the store refines
  two sets, the log the history, the functions of the state machine the step relation. Composition: the
  two sessions, which rest on the step lemmas of the parts through the locale \<open>simulation\<close>. Concurrency: requests
  in several threads are as good as one after the other when the offsets of their paths agree, and can
  protect a path that nobody named when they do not.

  A good part of the code gives back less than it takes. Such paths are theorems here too: an unresolved
  path keeps the store locked, a wrong password pins the recording toggle and loses a transform, unmounting
  loses the log that is still in buffers, a second mount stops the log, the logger loses credentials, a walk
  keeps its references to paths, the wrapper of \<open>open\<close> jumps to address 0, the module loads without its
  device when the registration fails. The sessions therefore say of each request what makes it one
  the promise is for: \<open>device_fits\<close>, \<open>servable\<close>, \<open>alone_ready\<close>, \<open>event_ready\<close>.
\<close>

section \<open>Bounds and fuel\<close>

text \<open>
  Words have their width: the nonce, the counters of the ring and of the children are 64-bit words, request
  codes and user ids 32-bit words, bytes 8-bit words. Unbounded numbers occur only for results,
  counters of references, and indices the code keeps in range.

  \<open>ADD_ROUNDS\<close> bounds the loop of \<open>path_store_add\<close>: a path has at most \<open>ARGS_SIZE\<close> components
  and each round adds one. \<open>walk_fuel\<close> bounds a walk over dentries; twice the number of inodes that can be
  reached is enough, since each inode is taken at most twice in a pass. The fuel of the readers of the log
  is the length of the history plus one, since each read gives at least one byte. Histories are shorter than
  2^62 bytes, so that the signed arithmetic of the code does not overflow; the ring itself wraps around
  freely. The slab of entries is assumed to have room for the entries that a sequence of requests can create,
  which is \<open>ARGS_SIZE\<close> per request; the nonce to be below its last value, after which the code keeps the
  lock (a property).
\<close>

section \<open>Not modelled\<close>

text \<open>
  What the kernel does is a parameter: path resolution and the dentries of the file system (\<open>vfs\<close>), what
  the allocators yield, the result of registering the device, the hash transform, the buffers of a block device, reading a file, the credentials of
  a task. Allocations that must not fail, names that must fit, are hypotheses, with a witness for each.

  Left out are \<open>printk\<close>, the messages of the user programs and the arguments of the formatter; the empty functions
  (\<open>dev_open\<close>, \<open>dev_release\<close>, \<open>setup_area\<close>, \<open>start_logger\<close>, \<open>stop_logger\<close>); the times and
  permissions of the root inode of the log, which nothing reads; \<open>singlefilefs_exit\<close>, which unregisters the
  type; the branch of the wrappers for kernels before 4.17, which does not compile. The specification of the
  device speaks of removals of paths that are gone; what removing a path that is still there does to the
  counters of its inode has properties of its own in \<open>Path_Store\<close> and \<open>Store_Iterate\<close>. Requests and works run
  one after the other in the sessions; the interleaving of threads is modelled where it matters, in the
  state machine and, between the split of a path and the lock, in the store. Finer steps of the store, inside
  the loop of \<open>process_path\<close> or between the oracle and the split, are not told apart; they allow more mixtures.
\<close>

end
